(* ===== verification/Ddm_Prelude.thy ===== *)
theory Ddm_Prelude
  imports Main "HOL-Library.Char_ord" "HOL-Library.List_Lexorder"
    "HOL-Library.Product_Lexorder" "HOL-Library.Sublist" "HOL-Library.Multiset"
begin

text \<open>
  What the theories of the ddm development share: the outcomes of the C++ code that are not
  values (exceptions, failed assertions, undefined behaviour), sequencing of fallible steps,
  decimal printing, the stable sort of \<^verbatim>\<open>std::list\<close>, and the iteration order of the
  standard unordered containers.
\<close>

named_theorems ddm_defs \<open>definitions that unfold to a conditional over their arguments\<close>
named_theorems ddm_wf \<open>preservation of the well-formedness invariants\<close>

section \<open>Outcomes that are not values\<close>

text \<open>
  \<open>Runtime_error\<close> and \<open>Logic_error\<close> are the exceptions of \<^verbatim>\<open>stdexcept\<close> with their
  message. \<open>Abort\<close> is a failed \<^verbatim>\<open>assert\<close>: the build compiles with \<^verbatim>\<open>-UNDEBUG\<close>,
  so assertions are enabled also in release builds and end the process.
  \<open>Undefined\<close> stands for a read through a pointer that points to no live node.
  \<open>Diverged\<close> stands for a recursion that went deeper than any finite tree allows.
\<close>

datatype exn =
    Runtime_error string
  | Logic_error string
  | Filesystem_error string
  | Abort
  | Undefined
  | Diverged

type_synonym 'a result = "exn + 'a"

definition bindE :: "'a result \<Rightarrow> ('a \<Rightarrow> 'b result) \<Rightarrow> 'b result" where
  "bindE m f = (case m of Inl e \<Rightarrow> Inl e | Inr x \<Rightarrow> f x)"

definition assertE :: "bool \<Rightarrow> unit result" where
  "assertE b = (if b then Inr () else Inl Abort)"

lemma bindE_simps [simp]:
  "bindE (Inl e) f = Inl e"
  "bindE (Inr x) f = f x"
  by (simp_all add: bindE_def)

lemma bindE_Inr_iff: "bindE m f = Inr y \<longleftrightarrow> (\<exists>x. m = Inr x \<and> f x = Inr y)"
  by (cases m) auto

lemma bindE_Inl_iff: "bindE m f = Inl e \<longleftrightarrow> m = Inl e \<or> (\<exists>x. m = Inr x \<and> f x = Inl e)"
  by (cases m) auto

lemma bindE_InrE:
  assumes "bindE m f = Inr y"
  obtains x where "m = Inr x" and "f x = Inr y"
  using assms by (auto simp: bindE_Inr_iff)

lemma bindE_assoc: "bindE (bindE m f) g = bindE m (\<lambda>x. bindE (f x) g)"
  by (cases m) auto

lemma assertE_Inr_iff [simp]: "assertE b = Inr u \<longleftrightarrow> b"
  by (simp add: assertE_def)

lemma assertE_Inl_iff [simp]: "assertE b = Inl e \<longleftrightarrow> \<not> b \<and> e = Abort"
  by (auto simp: assertE_def)

lemma assertE_True [simp]: "assertE True = Inr ()"
  by (simp add: assertE_def)

lemma assertE_False [simp]: "assertE False = Inl Abort"
  by (simp add: assertE_def)

lemma bindE_assert_True [simp]: "b \<Longrightarrow> bindE (assertE b) f = f ()"
  by (simp add: assertE_def)

text \<open>A loop over a list that stops at the first exception.\<close>

fun foldE :: "('a \<Rightarrow> 's \<Rightarrow> 's result) \<Rightarrow> 'a list \<Rightarrow> 's \<Rightarrow> 's result" where
  "foldE f [] s = Inr s"
| "foldE f (x # xs) s = bindE (f x s) (foldE f xs)"

fun mapE :: "('a \<Rightarrow> 'b result) \<Rightarrow> 'a list \<Rightarrow> 'b list result" where
  "mapE f [] = Inr []"
| "mapE f (x # xs) = bindE (f x) (\<lambda>y. bindE (mapE f xs) (\<lambda>ys. Inr (y # ys)))"

lemma foldE_append: "foldE f (xs @ ys) s = bindE (foldE f xs s) (foldE f ys)"
  by (induction xs arbitrary: s) (simp_all add: bindE_def split: sum.splits)

lemma foldE_map: "foldE f (map g xs) s = foldE (\<lambda>x. f (g x)) xs s"
  by (induction xs arbitrary: s) (simp_all add: bindE_def split: sum.splits)

lemma foldE_cong [fundef_cong]:
  assumes "xs = ys" and "s = t" and "\<And>x u. x \<in> set ys \<Longrightarrow> f x u = g x u"
  shows "foldE f xs s = foldE g ys t"
proof -
  have "foldE f ys u = foldE g ys u" for u
    using assms(3) by (induction ys arbitrary: u) (auto simp: bindE_def split: sum.splits)
  with assms(1,2) show ?thesis by simp
qed

lemma mapE_cong [fundef_cong]:
  assumes "xs = ys" and "\<And>x. x \<in> set ys \<Longrightarrow> f x = g x"
  shows "mapE f xs = mapE g ys"
proof -
  have "mapE f ys = mapE g ys"
    using assms(2) by (induction ys) (auto simp: bindE_def split: sum.splits)
  with assms(1) show ?thesis by simp
qed

lemma mapE_Inr: "(\<And>x. x \<in> set xs \<Longrightarrow> f x = Inr (g x)) \<Longrightarrow> mapE f xs = Inr (map g xs)"
  by (induction xs) auto

lemma foldE_invariant:
  assumes "foldE f xs s = Inr t" and "P s"
    and "\<And>x u v. x \<in> set xs \<Longrightarrow> P u \<Longrightarrow> f x u = Inr v \<Longrightarrow> P v"
  shows "P t"
  using assms
proof (induction xs arbitrary: s)
  case Nil
  then show ?case by simp
next
  case (Cons x xs)
  then obtain u where "f x s = Inr u" and "foldE f xs u = Inr t"
    by (auto simp: bindE_Inr_iff)
  moreover from this Cons.prems have "P u" by auto
  ultimately show ?case using Cons.prems(3) by (auto intro: Cons.IH)
qed

section \<open>Decimal numbers\<close>

definition digit_char :: "nat \<Rightarrow> char" where
  "digit_char d = char_of (48 + d)"

definition is_digit :: "char \<Rightarrow> bool" where
  "is_digit c \<longleftrightarrow> 48 \<le> (of_char c :: nat) \<and> (of_char c :: nat) \<le> 57"

definition digit_val :: "char \<Rightarrow> nat" where
  "digit_val c = of_char c - 48"

fun string_of_nat :: "nat \<Rightarrow> string" where
  "string_of_nat n =
     (if n < 10 then [digit_char n] else string_of_nat (n div 10) @ [digit_char (n mod 10)])"

declare string_of_nat.simps [simp del]

text \<open>\<open>std::to_string\<close>, and \<open>operator<<\<close> on integers.\<close>

definition to_string :: "int \<Rightarrow> string" where
  "to_string i = (if i < 0 then CHR ''-'' # string_of_nat (nat (- i)) else string_of_nat (nat i))"

definition nat_of_digits :: "string \<Rightarrow> nat" where
  "nat_of_digits s = foldl (\<lambda>v c. 10 * v + digit_val c) 0 s"

lemma of_char_digit_char [simp]: "d < 10 \<Longrightarrow> (of_char (digit_char d) :: nat) = 48 + d"
  by (simp add: digit_char_def)

lemma is_digit_digit_char [simp]: "d < 10 \<Longrightarrow> is_digit (digit_char d)"
  by (simp add: is_digit_def)

lemma digit_val_digit_char [simp]: "d < 10 \<Longrightarrow> digit_val (digit_char d) = d"
  by (simp add: digit_val_def)

lemma string_of_nat_not_Nil [simp]: "string_of_nat n \<noteq> []"
  by (subst string_of_nat.simps) simp

lemma string_of_nat_digits: "\<forall>c \<in> set (string_of_nat n). is_digit c"
proof (induction n rule: string_of_nat.induct)
  case (1 n)
  show ?case
  proof (cases "n < 10")
    case True
    then show ?thesis by (subst string_of_nat.simps) simp
  next
    case False
    with 1 show ?thesis by (subst string_of_nat.simps) auto
  qed
qed

lemma nat_of_digits_string_of_nat [simp]: "nat_of_digits (string_of_nat n) = n"
proof (induction n rule: string_of_nat.induct)
  case (1 n)
  show ?case
  proof (cases "n < 10")
    case True
    then show ?thesis by (subst string_of_nat.simps) (simp add: nat_of_digits_def)
  next
    case False
    with 1 have "nat_of_digits (string_of_nat (n div 10)) = n div 10" by simp
    with False show ?thesis
      by (subst string_of_nat.simps) (simp add: nat_of_digits_def)
  qed
qed

section \<open>The stable sort of \<open>std::list\<close>\<close>

text \<open>
  \<^verbatim>\<open>std::list::sort\<close> is stable and uses \<open>operator<\<close> only. For a strict weak order the
  result is determined, so insertion from the right describes it.
\<close>

fun insert_by :: "('a \<Rightarrow> 'a \<Rightarrow> bool) \<Rightarrow> 'a \<Rightarrow> 'a list \<Rightarrow> 'a list" where
  "insert_by lt x [] = [x]"
| "insert_by lt x (y # ys) = (if lt y x then y # insert_by lt x ys else x # y # ys)"

definition list_sort :: "('a \<Rightarrow> 'a \<Rightarrow> bool) \<Rightarrow> 'a list \<Rightarrow> 'a list" where
  "list_sort lt xs = foldr (insert_by lt) xs []"

lemma mset_insert_by [simp]: "mset (insert_by lt x ys) = add_mset x (mset ys)"
  by (induction ys) auto

lemma mset_list_sort [simp]: "mset (list_sort lt xs) = mset xs"
  by (induction xs) (auto simp: list_sort_def)

lemma set_list_sort [simp]: "set (list_sort lt xs) = set xs"
  by (rule mset_eq_setD) simp

lemma length_list_sort [simp]: "length (list_sort lt xs) = length xs"
  by (rule mset_eq_length) simp

lemma list_sort_Nil_iff [simp]: "list_sort lt xs = [] \<longleftrightarrow> xs = []"
  by (simp flip: length_0_conv)

text \<open>Where \<open>operator<\<close> compares by a key of a linear order, the sort is that by the key.\<close>

definition less_by :: "('a \<Rightarrow> 'k :: linorder) \<Rightarrow> 'a \<Rightarrow> 'a \<Rightarrow> bool" where
  "less_by k x y \<longleftrightarrow> k x < k y"

lemma insert_by_insort_key: "insert_by (less_by k) x ys = insort_key k x ys"
  by (induction ys) (auto simp: less_by_def)

lemma list_sort_sort_key: "list_sort (less_by k) xs = sort_key k xs"
  by (induction xs) (simp_all add: list_sort_def insert_by_insort_key)

lemma list_sort_sorted: "sorted (map k (list_sort (less_by k) xs))"
  by (simp add: list_sort_sort_key)

lemma list_sort_id: "sorted (map k xs) \<Longrightarrow> list_sort (less_by k) xs = xs"
  by (simp add: list_sort_sort_key sort_key_id_if_sorted)

section \<open>Iteration over unordered containers\<close>

text \<open>
  The order in which a range-based loop visits a \<^verbatim>\<open>std::unordered_set\<close> is not specified.
  It is a parameter of the definitions that contain such a loop: a function from the sequence of
  insertions to the sequence of visits. What the standard promises is that every key is visited
  exactly once.
\<close>

locale unordered_iteration =
  fixes visit :: "'k list \<Rightarrow> 'k list"
  assumes set_visit: "set (visit ks) = set ks"
    and distinct_visit: "distinct (visit ks)"
begin

lemma visit_Nil: "visit [] = []"
  using set_visit [of "[]"] by simp

lemma in_visit: "k \<in> set (visit ks) \<longleftrightarrow> k \<in> set ks"
  by (simp add: set_visit)

end

text \<open>One order that a conforming library may use: that of the last insertions.\<close>

definition insertion_order :: "'k list \<Rightarrow> 'k list" where
  "insertion_order ks = remdups ks"

interpretation insertion: unordered_iteration insertion_order
  by unfold_locales (simp_all add: insertion_order_def)

end
