(* ===== verification/Ddm_Path.thy ===== *)
theory Ddm_Path
  imports Ddm_Prelude
begin

text \<open>
  The operations of \<^verbatim>\<open>std::filesystem::path\<close> that ddm uses, on POSIX path strings. The
  build defines \<^verbatim>\<open>OPTIMIZE_MEMORY\<close>, so the program stores every path as a string and
  converts it on use; the model keeps the string. The second half is the theory of the paths that
  a scan produces: every step down appends one name without a separator.
\<close>

type_synonym path = string

abbreviation sep :: char where
  "sep \<equiv> CHR ''/''"

section \<open>Operations\<close>

definition has_root :: "path \<Rightarrow> bool" where
  "has_root p \<longleftrightarrow> (case p of [] \<Rightarrow> False | c # _ \<Rightarrow> c = sep)"

definition path_filename :: "path \<Rightarrow> string" where
  "path_filename p = rev (takeWhile (\<lambda>c. c \<noteq> sep) (rev p))"

text \<open>
  \<^verbatim>\<open>parent_path\<close>: a path without a relative part is its own parent. Otherwise the last
  element goes, with the separators before it, except for a root directory.
\<close>

definition parent_path :: "path \<Rightarrow> path" where
  "parent_path p =
     (if \<forall>c \<in> set p. c = sep then p
      else let d = dropWhile (\<lambda>c. c \<noteq> sep) (rev p); s = dropWhile (\<lambda>c. c = sep) d
           in if s = [] \<and> d \<noteq> [] then [sep] else rev s)"

text \<open>\<open>operator/\<close>: an absolute right operand replaces the left one.\<close>

definition path_append :: "path \<Rightarrow> path \<Rightarrow> path" where
  "path_append p q =
     (if has_root q then q else if path_filename p \<noteq> [] then p @ sep # q else p @ q)"

lemma length_after_name:
  assumes "\<exists>c \<in> set s. c = sep"
  shows "length (dropWhile (\<lambda>c. c = sep) (dropWhile (\<lambda>c. c \<noteq> sep) s)) < length s"
proof -
  let ?r = "dropWhile (\<lambda>c. c \<noteq> sep) s"
  have ne: "?r \<noteq> []" using assms by simp
  then have "hd ?r = sep" using hd_dropWhile [of "\<lambda>c. c \<noteq> sep" s] by simp
  then have "dropWhile (\<lambda>c. c = sep) ?r = dropWhile (\<lambda>c. c = sep) (tl ?r)"
    using ne by (cases ?r) auto
  then have "length (dropWhile (\<lambda>c. c = sep) ?r) \<le> length (tl ?r)"
    by (simp only: length_dropWhile_le)
  also have "\<dots> < length ?r" using ne by simp
  also have "\<dots> \<le> length s" by (rule length_dropWhile_le)
  finally show ?thesis .
qed

text \<open>The elements a path iterates over; a trailing separator gives a last empty element.\<close>

function names_of :: "string \<Rightarrow> string list" where
  "names_of s =
     (if s = [] then []
      else let w = takeWhile (\<lambda>c. c \<noteq> sep) s; r = dropWhile (\<lambda>c. c \<noteq> sep) s;
               t = dropWhile (\<lambda>c. c = sep) r
           in if r = [] then [w] else if t = [] then [w, []] else w # names_of t)"
  by pat_completeness auto
termination
  by (relation "measure length") (simp_all add: length_after_name)

declare names_of.simps [simp del]

definition path_elements :: "path \<Rightarrow> string list" where
  "path_elements p = names_of (dropWhile (\<lambda>c. c = sep) p)"

text \<open>Comparison goes by the root directory first and then element by element.\<close>

definition path_key :: "path \<Rightarrow> bool \<times> string list" where
  "path_key p = (has_root p, path_elements p)"

definition path_eq :: "path \<Rightarrow> path \<Rightarrow> bool" where
  "path_eq p q \<longleftrightarrow> path_key p = path_key q"

definition path_less :: "path \<Rightarrow> path \<Rightarrow> bool" where
  "path_less p q \<longleftrightarrow> path_key p < path_key q"

text \<open>
  \<^verbatim>\<open>lexically_relative\<close>: the elements after the common prefix, with one step up for every
  element that the base has more.
\<close>

fun strip_common :: "'a list \<Rightarrow> 'a list \<Rightarrow> 'a list \<times> 'a list" where
  "strip_common (x # xs) (y # ys) = (if x = y then strip_common xs ys else (x # xs, y # ys))"
| "strip_common xs ys = (xs, ys)"

definition steps_up :: "string list \<Rightarrow> int" where
  "steps_up b = foldl (\<lambda>n c. if c = ''..'' then n - 1 else if c \<noteq> [] \<and> c \<noteq> ''.'' then n + 1 else n) 0 b"

definition lexically_relative :: "path \<Rightarrow> path \<Rightarrow> path" where
  "lexically_relative p base =
     (if has_root p \<noteq> has_root base then []
      else case strip_common (path_elements p) (path_elements base) of (a, b) \<Rightarrow>
        let n = steps_up b in
        if n = 0 \<and> (a = [] \<or> hd a = []) then ''.''
        else if n \<ge> 0 then foldl path_append [] (replicate (nat n) ''..'' @ a)
        else [])"

section \<open>Names and directory paths\<close>

text \<open>
  A name is what a directory lists: not empty and without separator. A directory path is the
  empty path (the top directory) or a path that does not end in a separator.
\<close>

definition valid_name :: "string \<Rightarrow> bool" where
  "valid_name nm \<longleftrightarrow> nm \<noteq> [] \<and> sep \<notin> set nm"

definition dir_path :: "path \<Rightarrow> bool" where
  "dir_path p \<longleftrightarrow> p = [] \<or> last p \<noteq> sep"

abbreviation child :: "path \<Rightarrow> string \<Rightarrow> path" where
  "child p nm \<equiv> path_append p nm"

lemma valid_nameD:
  "valid_name nm \<Longrightarrow> nm \<noteq> []"
  "valid_name nm \<Longrightarrow> sep \<notin> set nm"
  "valid_name nm \<Longrightarrow> c \<in> set nm \<Longrightarrow> c \<noteq> sep"
  by (auto simp: valid_name_def)

lemma valid_name_Nil [simp]: "\<not> valid_name []"
  by (simp add: valid_name_def)

lemma not_has_root_name: "valid_name nm \<Longrightarrow> \<not> has_root nm"
  by (cases nm) (auto simp: valid_name_def has_root_def)

lemma path_filename_append_name:
  "valid_name nm \<Longrightarrow> path_filename (p @ sep # nm) = nm"
  unfolding path_filename_def valid_name_def
  by (simp, subst takeWhile_append2) auto

lemma path_filename_name: "valid_name nm \<Longrightarrow> path_filename nm = nm"
  unfolding path_filename_def valid_name_def
  by (subst takeWhile_eq_all_conv [THEN iffD2]) auto

lemma path_filename_Nil [simp]: "path_filename [] = []"
  by (simp add: path_filename_def)

lemma path_filename_dir_path: "dir_path p \<Longrightarrow> path_filename p = [] \<longleftrightarrow> p = []"
  by (cases p rule: rev_cases) (auto simp: path_filename_def dir_path_def)

lemma child_eq:
  assumes "dir_path p" and "valid_name nm"
  shows "child p nm = (if p = [] then nm else p @ sep # nm)"
  using assms by (simp add: path_append_def not_has_root_name path_filename_dir_path)

lemma dir_path_Nil [simp]: "dir_path []"
  by (simp add: dir_path_def)

lemma dir_path_child [intro]:
  assumes "dir_path p" and "valid_name nm"
  shows "dir_path (child p nm)"
  using assms valid_nameD(3) [of nm "last nm"]
  by (auto simp: child_eq dir_path_def valid_name_def)

lemma child_not_Nil [simp]: "dir_path p \<Longrightarrow> valid_name nm \<Longrightarrow> child p nm \<noteq> []"
  by (auto simp: child_eq valid_name_def)

lemma filename_child [simp]:
  "dir_path p \<Longrightarrow> valid_name nm \<Longrightarrow> path_filename (child p nm) = nm"
  by (simp add: child_eq path_filename_append_name path_filename_name)

lemma dropWhile_name_sep:
  assumes "sep \<notin> set nm"
  shows "dropWhile (\<lambda>c. c \<noteq> sep) (rev nm @ sep # xs) = sep # xs"
  using assms by (subst dropWhile_append2) auto

lemma parent_path_name: "valid_name nm \<Longrightarrow> parent_path nm = []"
proof -
  assume nm: "valid_name nm"
  then have "hd nm \<in> set nm" by (simp add: valid_name_def)
  then have "\<not> (\<forall>c \<in> set nm. c = sep)"
    using valid_nameD(3) [OF nm] by blast
  moreover have "dropWhile (\<lambda>c. c \<noteq> sep) (rev nm) = []"
    using nm valid_nameD(3) by simp
  ultimately show ?thesis
    unfolding parent_path_def Let_def by (simp only: if_False) simp
qed

lemma parent_path_append_name:
  assumes "p \<noteq> []" and "last p \<noteq> sep" and "valid_name nm"
  shows "parent_path (p @ sep # nm) = p"
proof -
  obtain xs x where px: "p = xs @ [x]" and x: "x \<noteq> sep"
    using assms(1,2) by (cases p rule: rev_cases) auto
  have "\<not> (\<forall>c \<in> set (p @ sep # nm). c = sep)"
    using px x by simp
  moreover have "dropWhile (\<lambda>c. c \<noteq> sep) (rev (p @ sep # nm)) = sep # rev p"
    using assms(3) by (simp add: dropWhile_name_sep valid_name_def)
  moreover have "dropWhile (\<lambda>c. c = sep) (sep # rev p) = rev p"
    using px x by simp
  ultimately show ?thesis
    using assms(1) unfolding parent_path_def Let_def by (simp only: if_False) simp
qed

lemma parent_path_child [simp]:
  "dir_path p \<Longrightarrow> valid_name nm \<Longrightarrow> parent_path (child p nm) = p"
  by (auto simp: child_eq parent_path_name dir_path_def intro!: parent_path_append_name)

lemma child_inject:
  assumes "dir_path p" and "dir_path q" and "valid_name n" and "valid_name m"
  shows "child p n = child q m \<longleftrightarrow> p = q \<and> n = m"
  using assms by (metis filename_child parent_path_child)

section \<open>Being below a directory\<close>

definition below :: "path \<Rightarrow> path \<Rightarrow> bool" where
  "below p q \<longleftrightarrow> (if p = [] then q \<noteq> [] else prefix (p @ [sep]) q)"

lemma below_child: "dir_path p \<Longrightarrow> valid_name nm \<Longrightarrow> below p (child p nm)"
  by (auto simp: below_def child_eq valid_name_def)

lemma below_not_Nil: "below p q \<Longrightarrow> q \<noteq> []"
  by (auto simp: below_def split: if_splits)

lemma not_below_self [simp]: "\<not> below p p"
  by (auto simp: below_def dest: prefix_length_le)

lemma below_trans: "below p q \<Longrightarrow> below q r \<Longrightarrow> below p r"
  by (auto simp: below_def prefix_def split: if_splits)

lemma below_length: "below p q \<Longrightarrow> length p < length q"
  by (auto simp: below_def dest: prefix_length_le split: if_splits)

lemma below_asym: "below p q \<Longrightarrow> \<not> below q p"
  using below_length less_asym by blast

lemma below_child_trans:
  "dir_path p \<Longrightarrow> valid_name nm \<Longrightarrow> below (child p nm) q \<Longrightarrow> below p q"
  using below_child below_trans by blast

lemma append_sep_eq:
  assumes "sep \<notin> set n" and "sep \<notin> set m" and "n @ sep # xs = m @ sep # ys"
  shows "n = m"
proof -
  have "takeWhile (\<lambda>c. c \<noteq> sep) (n @ sep # xs) = n"
    using assms(1) by (subst takeWhile_append2) auto
  moreover have "takeWhile (\<lambda>c. c \<noteq> sep) (m @ sep # ys) = m"
    using assms(2) by (subst takeWhile_append2) auto
  ultimately show ?thesis using assms(3) by simp
qed

text \<open>Whatever is at or below two entries of one directory is at or below the same entry.\<close>

definition at_or_below :: "path \<Rightarrow> path \<Rightarrow> bool" where
  "at_or_below p q \<longleftrightarrow> q = p \<or> below p q"

lemma at_or_below_refl [simp]: "at_or_below p p"
  by (simp add: at_or_below_def)

lemma at_or_below_child_unique:
  assumes p: "dir_path p" and n: "valid_name n" and m: "valid_name m"
    and qn: "at_or_below (child p n) q" and qm: "at_or_below (child p m) q"
  shows "n = m"
proof -
  define pre where "pre = (if p = [] then [] else p @ [sep])"
  have ch: "child p k = pre @ k" if "valid_name k" for k
    using p that by (auto simp: child_eq pre_def)
  have sh: "\<exists>ys. q @ [sep] = pre @ k @ sep # ys"
    if k: "valid_name k" and ab: "at_or_below (child p k) q" for k
  proof (cases "q = child p k")
    case True
    then show ?thesis using ch [OF k] by auto
  next
    case False
    then have "below (child p k) q" using ab by (simp add: at_or_below_def)
    then have "prefix (child p k @ [sep]) q"
      using child_not_Nil [OF p k] by (simp add: below_def)
    then show ?thesis using ch [OF k] by (auto simp: prefix_def)
  qed
  obtain ys zs where "q @ [sep] = pre @ n @ sep # ys" and "q @ [sep] = pre @ m @ sep # zs"
    using sh [OF n qn] sh [OF m qm] by blast
  then have "n @ sep # ys = m @ sep # zs" by simp
  then show ?thesis using n m append_sep_eq [of n m] by (simp add: valid_name_def)
qed

lemma at_or_below_below: "below p q \<Longrightarrow> at_or_below q r \<Longrightarrow> below p r"
  by (auto simp: at_or_below_def intro: below_trans)

lemma at_or_below_trans: "at_or_below p q \<Longrightarrow> at_or_below q r \<Longrightarrow> at_or_below p r"
  by (auto simp: at_or_below_def intro: below_trans)

lemma below_child_iff:
  assumes "dir_path p" and "valid_name n"
  shows "below r (child p n) \<longleftrightarrow> at_or_below r p"
proof
  assume b: "below r (child p n)"
  show "at_or_below r p"
  proof (cases "r = []")
    case True
    then show ?thesis by (auto simp: at_or_below_def below_def)
  next
    case False
    then obtain z where z: "child p n = r @ sep # z" using b by (auto simp: below_def prefix_def)
    have n: "sep \<notin> set n" using assms(2) by (rule valid_nameD)
    have "p \<noteq> []" using z n assms by (auto simp: child_eq)
    then have "p @ sep # n = r @ sep # z" using z assms by (simp add: child_eq)
    then consider us where "p = r @ us" "us @ sep # n = sep # z"
      | us where "p @ us = r" "sep # n = us @ sep # z"
      by (auto simp: append_eq_append_conv2)
    then show ?thesis
    proof cases
      case 1
      then show ?thesis using False by (cases us) (auto simp: at_or_below_def below_def)
    next
      case 2
      then show ?thesis using n by (cases us) (auto simp: at_or_below_def)
    qed
  qed
next
  assume "at_or_below r p"
  then show "below r (child p n)"
    using below_child [OF assms] below_trans by (auto simp: at_or_below_def)
qed

section \<open>Elements of the paths of a scan\<close>

lemma names_of_Nil [simp]: "names_of [] = []"
  by (simp add: names_of.simps)

lemma names_of_name:
  assumes "valid_name nm"
  shows "names_of nm = [nm]"
proof -
  have all: "\<forall>c \<in> set nm. c \<noteq> sep" and ne: "nm \<noteq> []"
    using assms valid_nameD by blast+
  from all have "takeWhile (\<lambda>c. c \<noteq> sep) nm = nm" by (simp add: takeWhile_eq_all_conv)
  with all ne show ?thesis by (subst names_of.simps) (simp add: Let_def)
qed

lemma last_dropWhile: "dropWhile P xs \<noteq> [] \<Longrightarrow> last (dropWhile P xs) = last xs"
  by (induction xs) (auto split: if_splits)

lemma dropWhile_append_not_Nil:
  "dropWhile P xs \<noteq> [] \<Longrightarrow> dropWhile P (xs @ ys) = dropWhile P xs @ ys"
  by (induction xs) (auto split: if_splits)

lemma takeWhile_append_not_all:
  "dropWhile P xs \<noteq> [] \<Longrightarrow> takeWhile P (xs @ ys) = takeWhile P xs"
  by (induction xs) (auto split: if_splits)

lemma names_of_append:
  assumes "s \<noteq> []" and "last s \<noteq> sep" and "sep \<notin> set nm"
  shows "names_of (s @ sep # nm) = names_of s @ [nm]"
  using assms
proof (induction s rule: names_of.induct)
  case (1 s)
  let ?w = "takeWhile (\<lambda>c. c \<noteq> sep) s" and ?r = "dropWhile (\<lambda>c. c \<noteq> sep) s"
  let ?t = "dropWhile (\<lambda>c. c = sep) ?r"
  show ?case
  proof (cases "?r = []")
    case True
    then have all: "\<forall>c \<in> set s. c \<noteq> sep" by simp
    then have "takeWhile (\<lambda>c. c \<noteq> sep) (s @ sep # nm) = s"
      and "dropWhile (\<lambda>c. c \<noteq> sep) (s @ sep # nm) = sep # nm"
      by (subst takeWhile_append2 dropWhile_append2; simp)+
    moreover have "dropWhile (\<lambda>c. c = sep) nm = nm"
      using 1(4) by (cases nm) auto
    moreover have "valid_name s" "nm \<noteq> [] \<Longrightarrow> valid_name nm" using all 1(2,4) by (auto simp: valid_name_def)
    ultimately show ?thesis
      using 1(2,4) by (subst names_of.simps) (cases "nm = []"; simp add: Let_def names_of_name)
  next
    case False
    have lr: "last ?r = last s" using False by (rule last_dropWhile)
    have tne: "?t \<noteq> []"
    proof
      assume "?t = []"
      then have "\<forall>c \<in> set ?r. c = sep" by (simp only: dropWhile_eq_Nil_conv)
      then have "last ?r = sep" using last_in_set [OF False] by blast
      with lr 1(3) show False by simp
    qed
    have lt: "last ?t = last s" using last_dropWhile [OF tne] lr by simp
    have tw: "takeWhile (\<lambda>c. c \<noteq> sep) (s @ sep # nm) = ?w"
      using False by (rule takeWhile_append_not_all)
    have dw: "dropWhile (\<lambda>c. c \<noteq> sep) (s @ sep # nm) = ?r @ sep # nm"
      using False by (rule dropWhile_append_not_Nil)
    have dt: "dropWhile (\<lambda>c. c = sep) (?r @ sep # nm) = ?t @ sep # nm"
      using tne by (rule dropWhile_append_not_Nil)
    have "names_of (?t @ sep # nm) = names_of ?t @ [nm]"
      using 1(1) [OF 1(2) refl refl refl False tne tne] lt 1(3,4) by simp
    then show ?thesis
      using 1(2) False tne
      by (simp only: names_of.simps [of "s @ sep # nm"] names_of.simps [of s] Let_def tw dw dt) simp
  qed
qed

lemma path_elements_name: "valid_name nm \<Longrightarrow> path_elements nm = [nm]"
  using not_has_root_name [of nm]
  by (cases nm) (auto simp: path_elements_def names_of_name has_root_def)

lemma path_elements_child:
  assumes "dir_path p" and "valid_name nm"
  shows "path_elements (child p nm) = path_elements p @ [nm]"
proof (cases "p = []")
  case True
  then show ?thesis using assms by (simp add: child_eq path_elements_name) (simp add: path_elements_def)
next
  case False
  then have l: "last p \<noteq> sep" using assms by (simp add: dir_path_def)
  let ?s = "dropWhile (\<lambda>c. c = sep) p"
  have ne: "?s \<noteq> []" using last_in_set [OF False] l by auto
  then have "last ?s = last p" by (rule last_dropWhile)
  moreover have "dropWhile (\<lambda>c. c = sep) (p @ sep # nm) = ?s @ sep # nm"
    using ne by (rule dropWhile_append_not_Nil)
  ultimately show ?thesis
    using False assms l ne valid_nameD(2) by (simp add: child_eq path_elements_def names_of_append)
qed

lemma has_root_child: "dir_path p \<Longrightarrow> valid_name nm \<Longrightarrow> has_root (child p nm) = has_root p"
  by (cases p) (simp_all add: child_eq not_has_root_name, simp_all add: has_root_def)

text \<open>Entries of one directory compare by their names.\<close>

lemma path_key_child_eq:
  assumes "dir_path p" and "valid_name n" and "valid_name m"
  shows "path_key (child p n) = path_key (child p m) \<longleftrightarrow> n = m"
  using assms by (auto simp: path_key_def path_elements_child has_root_child)

end
