(* ===== verification/Ddm_Stream.thy ===== *)
theory Ddm_Stream
  imports Ddm_Prelude
begin

text \<open>
  The formatted input and output of the C++ standard library that ddm uses, in the classic
  locale. An input stream is the list of characters that are left. A failed extraction is
  \<open>None\<close>: the program checks the stream after every group of extractions and never reads on
  after a failure.
\<close>

abbreviation nl :: char where
  "nl \<equiv> CHR 0x0A"

section \<open>Words\<close>

definition is_space :: "char \<Rightarrow> bool" where
  "is_space c \<longleftrightarrow> c = CHR '' '' \<or> (9 \<le> (of_char c :: nat) \<and> (of_char c :: nat) \<le> 13)"

definition skip_ws :: "string \<Rightarrow> string" where
  "skip_ws s = dropWhile is_space s"

definition read_word :: "string \<Rightarrow> (string \<times> string) option" where
  "read_word s =
     (let t = skip_ws s; w = takeWhile (\<lambda>c. \<not> is_space c) t
      in if w = [] then None else Some (w, dropWhile (\<lambda>c. \<not> is_space c) t))"

text \<open>A word as it appears in a line: not empty and without white space.\<close>

definition is_word :: "string \<Rightarrow> bool" where
  "is_word w \<longleftrightarrow> w \<noteq> [] \<and> (\<forall>c \<in> set w. \<not> is_space c)"

lemma is_space_blank [simp]: "is_space CHR '' ''"
  by (simp add: is_space_def)

lemma read_word_rest_length: "read_word s = Some (w, r) \<Longrightarrow> length r < length s"
proof -
  assume rd: "read_word s = Some (w, r)"
  let ?t = "skip_ws s"
  have w: "w = takeWhile (\<lambda>c. \<not> is_space c) ?t" "w \<noteq> []"
    and r: "r = dropWhile (\<lambda>c. \<not> is_space c) ?t"
    using rd by (auto simp: read_word_def Let_def split: if_splits)
  have "length w + length r = length ?t"
    using w(1) r by (metis length_append takeWhile_dropWhile_id)
  moreover have "length ?t \<le> length s" by (simp add: skip_ws_def length_dropWhile_le)
  ultimately show ?thesis using w(2) by (cases w) auto
qed

lemma read_word_is_word: "read_word s = Some (w, r) \<Longrightarrow> is_word w"
  by (auto simp: read_word_def is_word_def Let_def dest: set_takeWhileD split: if_splits)

lemma takeWhile_word: "is_word w \<Longrightarrow> takeWhile (\<lambda>c. \<not> is_space c) w = w"
  by (simp add: is_word_def)

lemma dropWhile_word: "is_word w \<Longrightarrow> dropWhile (\<lambda>c. \<not> is_space c) w = []"
  by (simp add: is_word_def)

lemma is_word_not_Nil: "is_word w \<Longrightarrow> w \<noteq> []"
  by (simp add: is_word_def)

lemma skip_ws_word: "is_word w \<Longrightarrow> skip_ws (w @ s) = w @ s"
  by (cases w) (auto simp: is_word_def skip_ws_def)

lemma skip_ws_blank [simp]: "skip_ws (CHR '' '' # s) = skip_ws s"
  by (simp add: skip_ws_def)

lemma read_word_blank: "read_word (CHR '' '' # s) = read_word s"
  by (simp add: read_word_def)

lemma read_word_append:
  assumes "is_word w"
  shows "read_word (w @ CHR '' '' # s) = Some (w, CHR '' '' # s)"
  using assms unfolding read_word_def Let_def skip_ws_word [OF assms]
  by (auto simp: is_word_def takeWhile_append2 dropWhile_append2)

lemma read_word_end: "is_word w \<Longrightarrow> read_word w = Some (w, [])"
  using skip_ws_word [of w "[]"]
  by (simp add: read_word_def takeWhile_word dropWhile_word is_word_not_Nil)

text \<open>The loop \<^verbatim>\<open>while(ss>>line)\<close>.\<close>

function stream_words :: "string \<Rightarrow> string list" where
  "stream_words s = (case read_word s of None \<Rightarrow> [] | Some (w, r) \<Rightarrow> w # stream_words r)"
  by pat_completeness auto
termination
  by (relation "measure length") (auto dest: read_word_rest_length)

declare stream_words.simps [simp del]

section \<open>Quoted strings\<close>

text \<open>\<^verbatim>\<open>std::quoted\<close> with its default delimiter and escape, as the stream operators of paths
  use it.\<close>

definition quote_char :: "char \<Rightarrow> string" where
  "quote_char c = (if c = CHR 0x22 \<or> c = CHR 0x5C then [CHR 0x5C, c] else [c])"

definition write_quoted :: "string \<Rightarrow> string" where
  "write_quoted s = CHR 0x22 # concat (map quote_char s) @ [CHR 0x22]"

fun read_unquote :: "string \<Rightarrow> (string \<times> string) option" where
  "read_unquote [] = None"
| "read_unquote (c # s) =
     (if c = CHR 0x5C then
        (case s of [] \<Rightarrow> None
         | d # t \<Rightarrow> map_option (\<lambda>(w, r). (d # w, r)) (read_unquote t))
      else if c = CHR 0x22 then Some ([], s)
      else map_option (\<lambda>(w, r). (c # w, r)) (read_unquote s))"

definition read_quoted :: "string \<Rightarrow> (string \<times> string) option" where
  "read_quoted s =
     (case skip_ws s of [] \<Rightarrow> None
      | c # t \<Rightarrow> if c = CHR 0x22 then read_unquote t else read_word (c # t))"

lemma read_unquote_quote:
  "read_unquote (concat (map quote_char s) @ CHR 0x22 # r) = Some (s, r)"
  by (induction s) (auto simp: quote_char_def)

lemma read_write_quoted: "read_quoted (write_quoted s @ r) = Some (s, r)"
  by (simp add: read_quoted_def write_quoted_def skip_ws_def is_space_def read_unquote_quote)

lemma read_write_quoted_blank: "read_quoted (CHR '' '' # write_quoted s @ r) = Some (s, r)"
  using read_write_quoted [of s r] by (simp add: read_quoted_def)

lemma newline_write_quoted: "nl \<in> set (write_quoted s) \<longleftrightarrow> nl \<in> set s"
  by (auto simp: write_quoted_def quote_char_def split: if_splits)

section \<open>Numbers\<close>

text \<open>Extraction of a 64 bit signed integer: a value that does not fit is a failure.\<close>

definition int64 :: "int \<Rightarrow> bool" where
  "int64 i \<longleftrightarrow> - (2 ^ 63) \<le> i \<and> i < 2 ^ 63"

definition read_int64 :: "string \<Rightarrow> (int \<times> string) option" where
  "read_int64 s =
     (let t = skip_ws s;
          neg = (t \<noteq> [] \<and> hd t = CHR ''-'');
          u = (if t \<noteq> [] \<and> (hd t = CHR ''-'' \<or> hd t = CHR ''+'') then tl t else t);
          ds = takeWhile is_digit u;
          i = (if neg then - int (nat_of_digits ds) else int (nat_of_digits ds))
      in if ds = [] \<or> \<not> int64 i then None else Some (i, dropWhile is_digit u))"

lemma is_digit_not_space: "is_digit c \<Longrightarrow> \<not> is_space c"
  by (auto simp: is_digit_def is_space_def)

lemma string_of_nat_is_word: "is_word (string_of_nat n)"
  using string_of_nat_digits is_digit_not_space by (auto simp: is_word_def)

lemma hd_string_of_nat: "is_digit (hd (string_of_nat n))"
  using string_of_nat_digits [of n] by simp

lemma to_string_is_word: "is_word (to_string i)"
  using string_of_nat_is_word by (auto simp: to_string_def is_word_def is_space_def)

lemma span_digits:
  assumes "\<forall>c \<in> set ds. is_digit c"
  shows "takeWhile is_digit (ds @ CHR '' '' # s) = ds"
    and "dropWhile is_digit (ds @ CHR '' '' # s) = CHR '' '' # s"
  using assms by (simp_all add: takeWhile_append2 dropWhile_append2 is_digit_def)

lemma read_int64_to_string:
  assumes "int64 i"
  shows "read_int64 (to_string i @ CHR '' '' # s) = Some (i, CHR '' '' # s)"
proof (cases "i < 0")
  case True
  note sp = span_digits [OF string_of_nat_digits, of "nat (- i)"]
  have "skip_ws (to_string i @ CHR '' '' # s) = to_string i @ CHR '' '' # s"
    by (rule skip_ws_word [OF to_string_is_word])
  with True sp assms show ?thesis by (simp add: read_int64_def to_string_def)
next
  case False
  note sp = span_digits [OF string_of_nat_digits, of "nat i"]
  have "skip_ws (to_string i @ CHR '' '' # s) = to_string i @ CHR '' '' # s"
    by (rule skip_ws_word [OF to_string_is_word])
  moreover have "hd (string_of_nat (nat i)) \<noteq> CHR ''-''" "hd (string_of_nat (nat i)) \<noteq> CHR ''+''"
    using hd_string_of_nat [of "nat i"] by (auto simp: is_digit_def)
  ultimately show ?thesis using False sp assms by (simp add: read_int64_def to_string_def)
qed

section \<open>Raw reads and lines\<close>

definition read_chars :: "nat \<Rightarrow> string \<Rightarrow> (string \<times> string) option" where
  "read_chars n s = (if length s < n then None else Some (take n s, drop n s))"

text \<open>The loop \<^verbatim>\<open>while(getline(is,line))\<close>: a last line without newline counts, an empty rest
  after the last newline does not.\<close>

function stream_lines :: "string \<Rightarrow> string list" where
  "stream_lines s =
     (if s = [] then []
      else takeWhile (\<lambda>c. c \<noteq> nl) s #
           (case dropWhile (\<lambda>c. c \<noteq> nl) s of [] \<Rightarrow> [] | _ # r \<Rightarrow> stream_lines r))"
  by pat_completeness auto
termination
proof (relation "measure length", simp, simp only: in_measure)
  fix s x r
  assume "dropWhile (\<lambda>c. c \<noteq> nl) s = x # r"
  then have "length (x # r) \<le> length s" by (metis length_dropWhile_le)
  then show "length r < length s" by simp
qed

declare stream_lines.simps [simp del]

lemma stream_lines_Nil [simp]: "stream_lines [] = []"
  by (simp add: stream_lines.simps)

lemma stream_lines_append:
  assumes "nl \<notin> set l"
  shows "stream_lines (l @ nl # s) = l # stream_lines s"
proof -
  have "takeWhile (\<lambda>c. c \<noteq> nl) (l @ nl # s) = l"
    using assms by (subst takeWhile_append2) auto
  moreover have "dropWhile (\<lambda>c. c \<noteq> nl) (l @ nl # s) = nl # s"
    using assms by (subst dropWhile_append2) auto
  ultimately show ?thesis by (subst stream_lines.simps) simp
qed

lemma stream_lines_concat:
  assumes "\<forall>l \<in> set ls. nl \<notin> set l"
  shows "stream_lines (concat (map (\<lambda>l. l @ [nl]) ls) @ s) = ls @ stream_lines s"
  using assms by (induction ls) (simp_all add: stream_lines_append)

end
