(* ===== verification/Ddm_Element.thy ===== *)
theory Ddm_Element
  imports Ddm_Path Ddm_Stream "HOL-Library.Word"
begin

text \<open>
  The entry of a directory tree: \<^verbatim>\<open>FilesystemElement\<close> with its order, its equality and the
  configurable comparison, and the \<^verbatim>\<open>CompareOpt\<close> options with the parser of the ignore list
  (core.h, core.cpp).
\<close>

section \<open>Options\<close>

datatype ScanOpt = ComputeHash | OmitHash

record CompareOpt =
  opt_perm :: bool
  opt_owner :: bool
  opt_mtime :: bool
  opt_size :: bool
  opt_hash :: bool
  opt_symlink :: bool

definition compareAll :: CompareOpt where
  "compareAll = \<lparr>opt_perm = True, opt_owner = True, opt_mtime = True, opt_size = True,
     opt_hash = True, opt_symlink = True\<rparr>"

definition compareNone :: CompareOpt where
  "compareNone = \<lparr>opt_perm = False, opt_owner = False, opt_mtime = False, opt_size = False,
     opt_hash = False, opt_symlink = False\<rparr>"

definition ignoreToken :: "string \<Rightarrow> CompareOpt \<Rightarrow> CompareOpt result" where
  "ignoreToken line opt =
     (if line = ''perm'' then Inr (opt\<lparr>opt_perm := False\<rparr>)
      else if line = ''owner'' then Inr (opt\<lparr>opt_owner := False\<rparr>)
      else if line = ''mtime'' then Inr (opt\<lparr>opt_mtime := False\<rparr>)
      else if line = ''size'' then Inr (opt\<lparr>opt_size := False\<rparr>)
      else if line = ''hash'' then Inr (opt\<lparr>opt_hash := False\<rparr>)
      else if line = ''symlink'' then Inr (opt\<lparr>opt_symlink := False\<rparr>)
      else if line = ''all'' then
        Inr (opt\<lparr>opt_perm := False, opt_owner := False, opt_mtime := False, opt_size := False,
                opt_hash := False, opt_symlink := False\<rparr>)
      else Inl (Runtime_error (''Ignore option '' @ line @ '' not valid'')))"

definition parseCompareOpt :: "string \<Rightarrow> CompareOpt result" where
  "parseCompareOpt ignoreString =
     foldE ignoreToken
       (stream_words (map (\<lambda>c. if c = CHR '','' then CHR '' '' else c) ignoreString)) compareAll"

section \<open>Elements\<close>

datatype file_type =
  FT_none | FT_not_found | FT_regular | FT_directory | FT_symlink | FT_block | FT_character |
  FT_fifo | FT_socket | FT_unknown

type_synonym perms = "32 word"

record FilesystemElement =
  ty :: file_type
  per :: perms
  us :: string
  gs :: string
  mt :: int
  sz :: int
  fileHash :: string
  rp :: path
  symlink :: path
  hardLinkCnt :: nat

definition emptyElement :: FilesystemElement where
  "emptyElement = \<lparr>ty = FT_unknown, per = 0xFFFF, us = [], gs = [], mt = 0, sz = 0,
     fileHash = [], rp = [], symlink = [], hardLinkCnt = 1\<rparr>"

definition elementWithPath :: "FilesystemElement \<Rightarrow> path \<Rightarrow> FilesystemElement" where
  "elementWithPath other relativePath = other\<lparr>rp := relativePath\<rparr>"

definition isDirectory :: "FilesystemElement \<Rightarrow> bool" where
  "isDirectory e \<longleftrightarrow> ty e = FT_directory"

definition typeAsString :: "FilesystemElement \<Rightarrow> string" where
  "typeAsString e = (case ty e of FT_regular \<Rightarrow> ''file'' | FT_directory \<Rightarrow> ''directory''
     | FT_symlink \<Rightarrow> ''symbolic link'' | _ \<Rightarrow> ''unknown file type'')"

text \<open>\<open>operator<\<close>: directories first, then by path.\<close>

definition elem_less :: "FilesystemElement \<Rightarrow> FilesystemElement \<Rightarrow> bool" where
  "elem_less a b =
     (if isDirectory a = isDirectory b then path_less (rp a) (rp b)
      else isDirectory a > isDirectory b)"

text \<open>\<open>operator==\<close>: an omitted hash on either side does not make a difference.\<close>

definition elem_eq :: "FilesystemElement \<Rightarrow> FilesystemElement \<Rightarrow> bool" where
  "elem_eq a b \<longleftrightarrow>
     ty a = ty b \<and> per a = per b \<and> us a = us b \<and> gs a = gs b \<and>
     mt a = mt b \<and> sz a = sz b \<and> rp a = rp b \<and> symlink a = symlink b \<and>
     (fileHash a = [] \<or> fileHash b = [] \<or> fileHash a = fileHash b)"

definition compare :: "FilesystemElement \<Rightarrow> FilesystemElement \<Rightarrow> CompareOpt \<Rightarrow> bool" where
  "compare a b opt =
     (if ty a \<noteq> ty b \<or> rp a \<noteq> rp b then False
      else if opt_perm opt \<and> per a \<noteq> per b then False
      else if opt_owner opt \<and> (us a \<noteq> us b \<or> gs a \<noteq> gs b) then False
      else if opt_mtime opt \<and> mt a \<noteq> mt b then False
      else if opt_size opt \<and> sz a \<noteq> sz b then False
      else if opt_hash opt \<and> fileHash a \<noteq> fileHash b \<and> fileHash a \<noteq> [] \<and> fileHash b \<noteq> [] then False
      else if opt_symlink opt \<and> symlink a \<noteq> symlink b then False
      else True)"

text \<open>\<open>operator==\<close> on \<^verbatim>\<open>optional<FilesystemElement>\<close>, as the backup code compares diff entries.\<close>

definition opt_elem_eq :: "FilesystemElement option \<Rightarrow> FilesystemElement option \<Rightarrow> bool" where
  "opt_elem_eq a b = (case (a, b) of (None, None) \<Rightarrow> True
     | (Some x, Some y) \<Rightarrow> elem_eq x y | _ \<Rightarrow> False)"

section \<open>The ignore list\<close>

definition ignore_words :: "string list" where
  "ignore_words = [''perm'', ''owner'', ''mtime'', ''size'', ''hash'', ''symlink'', ''all'']"

definition ignoring :: "string list \<Rightarrow> CompareOpt \<Rightarrow> CompareOpt" where
  "ignoring ws opt =
     \<lparr>opt_perm = (opt_perm opt \<and> ''perm'' \<notin> set ws \<and> ''all'' \<notin> set ws),
      opt_owner = (opt_owner opt \<and> ''owner'' \<notin> set ws \<and> ''all'' \<notin> set ws),
      opt_mtime = (opt_mtime opt \<and> ''mtime'' \<notin> set ws \<and> ''all'' \<notin> set ws),
      opt_size = (opt_size opt \<and> ''size'' \<notin> set ws \<and> ''all'' \<notin> set ws),
      opt_hash = (opt_hash opt \<and> ''hash'' \<notin> set ws \<and> ''all'' \<notin> set ws),
      opt_symlink = (opt_symlink opt \<and> ''symlink'' \<notin> set ws \<and> ''all'' \<notin> set ws)\<rparr>"

lemma ignoreToken_ignoring:
  "w \<in> set ignore_words \<Longrightarrow> ignoreToken w opt = Inr (ignoring [w] opt)"
  by (auto simp: ignore_words_def ignoreToken_def ignoring_def)

lemma ignoreToken_unknown:
  "w \<notin> set ignore_words \<Longrightarrow>
     ignoreToken w opt = Inl (Runtime_error (''Ignore option '' @ w @ '' not valid''))"
  by (simp add: ignore_words_def ignoreToken_def)

lemma ignoring_Cons: "ignoring ws (ignoring [w] opt) = ignoring (w # ws) opt"
  by (auto simp: ignoring_def)

lemma ignoring_Nil: "ignoring [] opt = opt"
  by (simp add: ignoring_def)

lemma foldE_ignoreToken:
  "foldE ignoreToken ws opt =
     (case find (\<lambda>w. w \<notin> set ignore_words) ws of
        None \<Rightarrow> Inr (ignoring ws opt)
      | Some w \<Rightarrow> Inl (Runtime_error (''Ignore option '' @ w @ '' not valid'')))"
proof (induction ws arbitrary: opt)
  case Nil
  then show ?case by (simp add: ignoring_Nil)
next
  case (Cons w ws)
  show ?case
  proof (cases "w \<in> set ignore_words")
    case True
    then show ?thesis
      using Cons by (simp add: ignoreToken_ignoring ignoring_Cons split: option.splits)
  next
    case False
    then show ?thesis by (simp add: ignoreToken_unknown)
  qed
qed

section \<open>Order\<close>

definition elem_key :: "FilesystemElement \<Rightarrow> bool \<times> bool \<times> string list" where
  "elem_key e = (\<not> isDirectory e, path_key (rp e))"

lemma elem_less_key: "elem_less = less_by elem_key"
  by (auto simp: fun_eq_iff elem_less_def less_by_def elem_key_def path_less_def)

section \<open>Equality and comparison\<close>

lemma compare_iff:
  "compare a b opt \<longleftrightarrow>
     ty a = ty b \<and> rp a = rp b \<and> (opt_perm opt \<longrightarrow> per a = per b) \<and>
     (opt_owner opt \<longrightarrow> us a = us b \<and> gs a = gs b) \<and> (opt_mtime opt \<longrightarrow> mt a = mt b) \<and>
     (opt_size opt \<longrightarrow> sz a = sz b) \<and>
     (opt_hash opt \<longrightarrow> fileHash a = fileHash b \<or> fileHash a = [] \<or> fileHash b = []) \<and>
     (opt_symlink opt \<longrightarrow> symlink a = symlink b)"
  by (auto simp: compare_def)

lemma compare_refl [simp]: "compare a a opt"
  by (simp add: compare_iff)

lemma compare_symD: "compare a b opt \<Longrightarrow> compare b a opt"
  by (simp add: compare_iff) metis

lemma compare_sym: "compare a b opt \<longleftrightarrow> compare b a opt"
  using compare_symD by blast

lemma compare_rp: "compare a b opt \<Longrightarrow> rp a = rp b"
  by (simp add: compare_iff)

lemma compare_trans:
  assumes "compare a b opt" and "compare b c opt"
    and "\<not> opt_hash opt \<or> fileHash b \<noteq> [] \<or> fileHash a = [] \<or> fileHash c = []"
  shows "compare a c opt"
  using assms unfolding compare_iff by (intro conjI) metis+

lemma elem_eq_compare: "elem_eq a b \<longleftrightarrow> compare a b compareAll"
  by (auto simp: elem_eq_def compare_iff compareAll_def)

lemma elem_eq_refl [simp]: "elem_eq a a"
  by (simp add: elem_eq_def)

lemma elem_eq_sym: "elem_eq a b \<longleftrightarrow> elem_eq b a"
  unfolding elem_eq_compare by (rule compare_sym)

lemma opt_elem_eq_refl [simp]: "opt_elem_eq a a"
  by (cases a) (simp_all add: opt_elem_eq_def)

text \<open>Ignoring more never adds a difference.\<close>

definition opt_le :: "CompareOpt \<Rightarrow> CompareOpt \<Rightarrow> bool" where
  "opt_le o1 o2 \<longleftrightarrow> (opt_perm o1 \<longrightarrow> opt_perm o2) \<and> (opt_owner o1 \<longrightarrow> opt_owner o2) \<and>
     (opt_mtime o1 \<longrightarrow> opt_mtime o2) \<and> (opt_size o1 \<longrightarrow> opt_size o2) \<and>
     (opt_hash o1 \<longrightarrow> opt_hash o2) \<and> (opt_symlink o1 \<longrightarrow> opt_symlink o2)"

lemma compare_mono: "opt_le o1 o2 \<Longrightarrow> compare a b o2 \<Longrightarrow> compare a b o1"
  by (auto simp: compare_iff opt_le_def)

lemma opt_le_ignoring: "opt_le (ignoring ws opt) opt"
  by (simp add: opt_le_def ignoring_def)

text \<open>
  An element whose optional fields are only set for the types that have them. Both ways to make an
  element, the scan and the parser of a metadata line, give such an element.
\<close>

definition elem_ok :: "FilesystemElement \<Rightarrow> bool" where
  "elem_ok e \<longleftrightarrow>
     ty e \<in> {FT_regular, FT_directory, FT_symlink, FT_unknown} \<and>
     (ty e \<noteq> FT_regular \<longrightarrow> sz e = 0 \<and> fileHash e = []) \<and>
     (ty e \<noteq> FT_symlink \<longrightarrow> symlink e = [])"

end
