(* ===== verification/Ddm_Node.thy ===== *)
theory Ddm_Node
  imports Ddm_Element
begin

text \<open>
  \<^verbatim>\<open>DirectoryNode\<close> (core.h, core.cpp): an element with the list of the nodes in it. The nodes
  of a tree live in \<^verbatim>\<open>std::list\<close> cells, and the index of a tree points to them. Moving or
  sorting a list keeps its cells, so a node carries the address of its cell, and an operation
  that makes a new cell takes a fresh address. A local variable that holds a node has no cell;
  its address is not looked at.

  The second half is the shape that every tree built by the program has (\<open>wf_forest\<close>): the path
  of a node is that of its directory with one more name, only directories have content, and every
  list is sorted and without two entries of one path.
\<close>

datatype DirectoryNode =
  DirectoryNode (node_addr: nat) (elem: FilesystemElement) (content: "DirectoryNode list")

abbreviation node_rp :: "DirectoryNode \<Rightarrow> path" where
  "node_rp n \<equiv> rp (elem n)"

section \<open>Operations\<close>

text \<open>\<open>operator<\<close> on nodes, and \<^verbatim>\<open>content.sort()\<close>.\<close>

definition node_less :: "DirectoryNode \<Rightarrow> DirectoryNode \<Rightarrow> bool" where
  "node_less a b = elem_less (elem a) (elem b)"

definition sort_nodes :: "DirectoryNode list \<Rightarrow> DirectoryNode list" where
  "sort_nodes ns = list_sort node_less ns"

definition set_content :: "DirectoryNode list \<Rightarrow> DirectoryNode \<Rightarrow> DirectoryNode" where
  "set_content c n = DirectoryNode (node_addr n) (elem n) c"

definition set_elem :: "FilesystemElement \<Rightarrow> DirectoryNode \<Rightarrow> DirectoryNode" where
  "set_elem e n = DirectoryNode (node_addr n) e (content n)"

definition place_at :: "nat \<Rightarrow> DirectoryNode \<Rightarrow> DirectoryNode" where
  "place_at a n = DirectoryNode a (elem n) (content n)"

definition setDirectoryContent :: "DirectoryNode \<Rightarrow> DirectoryNode list \<Rightarrow> DirectoryNode result" where
  "setDirectoryContent this c =
     bindE (assertE (isDirectory (elem this))) (\<lambda>_. Inr (set_content c this))"

definition removeFromDirectoryContent :: "DirectoryNode \<Rightarrow> DirectoryNode \<Rightarrow> DirectoryNode" where
  "removeFromDirectoryContent this toRemove =
     set_content (filter (\<lambda>e. \<not> elem_eq (elem e) (elem toRemove)) (content this)) this"

text \<open>
  \<open>recursiveAdd dst src k\<close> is \<open>dst\<close> with a copy of \<open>src\<close> appended, the address of the copy's
  cell, and the next fresh address. The cell of a copy is made when the copy is complete.
\<close>

fun recursiveAdd :: "DirectoryNode \<Rightarrow> DirectoryNode \<Rightarrow> nat \<Rightarrow> (DirectoryNode \<times> nat \<times> nat) result"
  and recursiveAddAll :: "DirectoryNode \<Rightarrow> DirectoryNode list \<Rightarrow> nat \<Rightarrow> (DirectoryNode \<times> nat) result"
where
  "recursiveAdd dst (DirectoryNode sa se sc) k =
     bindE (assertE (isDirectory (elem dst))) (\<lambda>_.
     let name = path_filename (rp se) in
     bindE (assertE (name \<noteq> [])) (\<lambda>_.
     bindE (recursiveAddAll
              (DirectoryNode 0 (elementWithPath se (path_append (rp (elem dst)) name)) []) sc k)
       (\<lambda>(newNode, k1).
         let newNode = set_content (sort_nodes (content newNode)) newNode in
         Inr (set_content (content dst @ [place_at k1 newNode]) dst, k1, Suc k1))))"
| "recursiveAddAll dst [] k = Inr (dst, k)"
| "recursiveAddAll dst (n # ns) k =
     bindE (recursiveAdd dst n k) (\<lambda>(dst, _, k). recursiveAddAll dst ns k)"

definition addToDirectoryContent ::
  "DirectoryNode \<Rightarrow> DirectoryNode \<Rightarrow> nat \<Rightarrow> (DirectoryNode \<times> nat \<times> nat) result" where
  "addToDirectoryContent this toAdd k =
     (let newName = path_append (rp (elem this)) (path_filename (rp (elem toAdd))) in
      bindE (assertE (\<forall>n \<in> set (content this). \<not> path_eq (rp (elem n)) newName)) (\<lambda>_.
      bindE (recursiveAdd this toAdd k) (\<lambda>(this, r, k).
      Inr (set_content (sort_nodes (content this)) this, r, k))))"

definition setPermissions :: "perms \<Rightarrow> DirectoryNode \<Rightarrow> DirectoryNode" where
  "setPermissions p n = set_elem ((elem n)\<lparr>per := p\<rparr>) n"

definition setOwner :: "string \<Rightarrow> string \<Rightarrow> DirectoryNode \<Rightarrow> DirectoryNode" where
  "setOwner u g n = set_elem ((elem n)\<lparr>us := u, gs := g\<rparr>) n"

definition setMtime :: "int \<Rightarrow> DirectoryNode \<Rightarrow> DirectoryNode" where
  "setMtime t n = set_elem ((elem n)\<lparr>mt := t\<rparr>) n"

section \<open>All nodes of a forest\<close>

fun nodes_of :: "DirectoryNode \<Rightarrow> DirectoryNode list" where
  "nodes_of (DirectoryNode a e c) = DirectoryNode a e c # concat (map nodes_of c)"

abbreviation nodes_in :: "DirectoryNode list \<Rightarrow> DirectoryNode list" where
  "nodes_in c \<equiv> concat (map nodes_of c)"

lemma nodes_of_eq: "nodes_of n = n # nodes_in (content n)"
  by (cases n) simp

lemma self_in_nodes_of [simp]: "n \<in> set (nodes_of n)"
  by (cases n) simp

lemma nodes_in_subset: "n \<in> set c \<Longrightarrow> set (nodes_of n) \<subseteq> set (nodes_in c)"
  by auto

lemma in_nodes_in: "n \<in> set c \<Longrightarrow> n \<in> set (nodes_in c)"
  by (auto intro!: bexI [of _ n])

lemma nodes_of_trans: "m \<in> set (nodes_of n) \<Longrightarrow> set (nodes_of m) \<subseteq> set (nodes_of n)"
proof (induction n)
  case (DirectoryNode a e c)
  then show ?case by fastforce
qed

lemma nodes_in_trans:
  assumes "m \<in> set (nodes_in c)"
  shows "set (nodes_of m) \<subseteq> set (nodes_in c)"
proof -
  obtain n where "n \<in> set c" and "m \<in> set (nodes_of n)" using assms by auto
  then show ?thesis using nodes_of_trans nodes_in_subset by blast
qed

lemma content_in_nodes_in:
  "m \<in> set (nodes_in c) \<Longrightarrow> n \<in> set (content m) \<Longrightarrow> n \<in> set (nodes_in c)"
  using nodes_in_trans [of m c] in_nodes_in [of n "content m"] nodes_of_eq [of m]
  by (metis list.set_intros(2) subsetD)

lemma node_simps [simp]:
  "node_addr (set_content c n) = node_addr n" "elem (set_content c n) = elem n"
  "content (set_content c n) = c" "node_addr (set_elem e n) = node_addr n"
  "elem (set_elem e n) = e" "content (set_elem e n) = content n"
  "node_addr (place_at a n) = a" "elem (place_at a n) = elem n"
  "content (place_at a n) = content n"
  by (simp_all add: set_content_def set_elem_def place_at_def)

section \<open>Order of nodes\<close>

definition node_key :: "DirectoryNode \<Rightarrow> bool \<times> bool \<times> string list" where
  "node_key n = elem_key (elem n)"

lemma node_less_key: "node_less = less_by node_key"
  by (simp add: fun_eq_iff node_less_def elem_less_key less_by_def node_key_def)

lemma set_sort_nodes [simp]: "set (sort_nodes ns) = set ns"
  by (simp add: sort_nodes_def)

lemma mset_sort_nodes [simp]: "mset (sort_nodes ns) = mset ns"
  by (simp add: sort_nodes_def)

lemma sorted_sort_nodes: "sorted (map node_key (sort_nodes ns))"
  by (simp add: sort_nodes_def node_less_key list_sort_sorted)

lemma sort_nodes_id: "sorted (map node_key ns) \<Longrightarrow> sort_nodes ns = ns"
  by (simp add: sort_nodes_def node_less_key list_sort_id)

lemma sort_nodes_Nil_iff [simp]: "sort_nodes ns = [] \<longleftrightarrow> ns = []"
  by (simp add: sort_nodes_def)

section \<open>Well-formed forests\<close>

fun wf_node :: "path \<Rightarrow> DirectoryNode \<Rightarrow> bool" where
  "wf_node p (DirectoryNode a e c) \<longleftrightarrow>
     valid_name (path_filename (rp e)) \<and> rp e = child p (path_filename (rp e)) \<and>
     (c \<noteq> [] \<longrightarrow> isDirectory e) \<and> sorted (map node_key c) \<and> distinct (map node_rp c) \<and>
     (\<forall>n \<in> set c. wf_node (rp e) n)"

definition wf_forest :: "path \<Rightarrow> DirectoryNode list \<Rightarrow> bool" where
  "wf_forest p c \<longleftrightarrow>
     sorted (map node_key c) \<and> distinct (map node_rp c) \<and> (\<forall>n \<in> set c. wf_node p n)"

lemma wf_node_iff:
  "wf_node p n \<longleftrightarrow>
     valid_name (path_filename (node_rp n)) \<and> node_rp n = child p (path_filename (node_rp n)) \<and>
     (content n \<noteq> [] \<longrightarrow> isDirectory (elem n)) \<and> wf_forest (node_rp n) (content n)"
  by (cases n) (auto simp: wf_forest_def)

lemma wf_forest_Nil [simp]: "wf_forest p []"
  by (simp add: wf_forest_def)

lemma wf_nodeE:
  assumes "wf_node p n"
  obtains nm where "valid_name nm" and "node_rp n = child p nm" and "wf_forest (node_rp n) (content n)"
  using assms by (auto simp: wf_node_iff)

lemma wf_node_dir_path: "dir_path p \<Longrightarrow> wf_node p n \<Longrightarrow> dir_path (node_rp n)"
  by (auto elim!: wf_nodeE)

lemma wf_node_below: "dir_path p \<Longrightarrow> wf_node p n \<Longrightarrow> below p (node_rp n)"
  by (auto elim!: wf_nodeE intro: below_child)

lemma wf_node_parent: "dir_path p \<Longrightarrow> wf_node p n \<Longrightarrow> parent_path (node_rp n) = p"
  by (auto elim!: wf_nodeE)

lemma wf_forestD:
  "wf_forest p c \<Longrightarrow> sorted (map node_key c)"
  "wf_forest p c \<Longrightarrow> distinct (map node_rp c)"
  "wf_forest p c \<Longrightarrow> n \<in> set c \<Longrightarrow> wf_node p n"
  by (auto simp: wf_forest_def)

text \<open>Everything in a well-formed node is at or below it.\<close>

lemma wf_node_nodes_of:
  assumes "dir_path p" and "wf_node p n" and "m \<in> set (nodes_of n)"
  shows "at_or_below (node_rp n) (node_rp m)"
  using assms
proof (induction n arbitrary: p)
  case (DirectoryNode a e c)
  show ?case
  proof (cases "m = DirectoryNode a e c")
    case True
    then show ?thesis by simp
  next
    case False
    then obtain x where x: "x \<in> set c" "m \<in> set (nodes_of x)"
      using DirectoryNode.prems by auto
    have d: "dir_path (rp e)" using wf_node_dir_path [OF DirectoryNode.prems(1,2)] by simp
    have w: "wf_node (rp e) x" using DirectoryNode.prems(2) x(1) by simp
    have "at_or_below (node_rp x) (node_rp m)" by (rule DirectoryNode.IH [OF x(1) d w x(2)])
    then show ?thesis
      using at_or_below_below [OF wf_node_below [OF d w]] by (simp add: at_or_below_def)
  qed
qed

lemma wf_forest_below:
  assumes "dir_path p" and "wf_forest p c" and "m \<in> set (nodes_in c)"
  shows "below p (node_rp m)"
proof -
  obtain x where x: "x \<in> set c" "m \<in> set (nodes_of x)" using assms(3) by auto
  have w: "wf_node p x" using assms(2) x(1) by (rule wf_forestD)
  show ?thesis
    using at_or_below_below [OF wf_node_below [OF assms(1) w] wf_node_nodes_of [OF assms(1) w x(2)]] .
qed

lemma wf_forest_sibling:
  assumes "dir_path p" and "wf_forest p c" and "x \<in> set c" and "y \<in> set c"
    and "m \<in> set (nodes_of x)" and "k \<in> set (nodes_of y)" and "node_rp m = node_rp k"
  shows "x = y"
proof -
  have wx: "wf_node p x" and wy: "wf_node p y" using assms(2-4) by (auto dest: wf_forestD)
  obtain n1 n2 where n1: "valid_name n1" "node_rp x = child p n1"
    and n2: "valid_name n2" "node_rp y = child p n2"
    using wx wy by (auto elim!: wf_nodeE)
  have "at_or_below (child p n1) (node_rp m)" "at_or_below (child p n2) (node_rp m)"
    using wf_node_nodes_of [OF assms(1) wx assms(5)] wf_node_nodes_of [OF assms(1) wy assms(6)]
      n1(2) n2(2) assms(7) by simp_all
  then have "n1 = n2" using at_or_below_child_unique [OF assms(1) n1(1) n2(1)] by blast
  then show ?thesis
    using n1(2) n2(2) wf_forestD(2) [OF assms(2)] assms(3,4) by (simp add: distinct_map inj_on_def)
qed

text \<open>No path occurs twice.\<close>

lemma distinct_siblings:
  assumes "dir_path p" and "wf_forest p c"
    and each: "\<And>x. x \<in> set c \<Longrightarrow> distinct (map node_rp (nodes_of x))"
  shows "distinct (map node_rp (nodes_in c))"
proof -
  have "distinct (map node_rp (nodes_in cs))" if "set cs \<subseteq> set c" "distinct cs" for cs
    using that
  proof (induction cs)
    case Nil
    then show ?case by simp
  next
    case (Cons x xs)
    have "node_rp ` set (nodes_of x) \<inter> node_rp ` set (nodes_in xs) = {}"
    proof (rule ccontr)
      assume "\<not> ?thesis"
      then obtain m k y where "m \<in> set (nodes_of x)" "y \<in> set xs" "k \<in> set (nodes_of y)"
        "node_rp m = node_rp k" by auto
      then have "x = y" using wf_forest_sibling [OF assms(1,2)] Cons.prems by auto
      with \<open>y \<in> set xs\<close> Cons.prems(2) show False by simp
    qed
    then show ?case using Cons each by auto
  qed
  moreover have "distinct c" using wf_forestD(2) [OF assms(2)] by (simp add: distinct_map)
  ultimately show ?thesis by blast
qed

lemma distinct_nodes_of:
  "dir_path p \<Longrightarrow> wf_node p n \<Longrightarrow> distinct (map node_rp (nodes_of n))"
proof (induction n arbitrary: p)
  case (DirectoryNode a e c)
  have d: "dir_path (rp e)" using wf_node_dir_path [OF DirectoryNode.prems(1,2)] by simp
  have f: "wf_forest (rp e) c" using DirectoryNode.prems(2) by (simp add: wf_forest_def)
  have "rp e \<notin> node_rp ` set (nodes_in c)"
    using wf_forest_below [OF d f] not_below_self by fastforce
  moreover have "distinct (map node_rp (nodes_in c))"
    using DirectoryNode.IH d DirectoryNode.prems(2) by (intro distinct_siblings [OF d f]) auto
  ultimately show ?case by simp
qed

lemma distinct_nodes_in:
  "dir_path p \<Longrightarrow> wf_forest p c \<Longrightarrow> distinct (map node_rp (nodes_in c))"
  by (rule distinct_siblings) (auto intro: distinct_nodes_of wf_forestD)

lemma wf_forest_inj:
  assumes "dir_path p" and "wf_forest p c" and "m \<in> set (nodes_in c)" and "k \<in> set (nodes_in c)"
    and "node_rp m = node_rp k"
  shows "m = k"
proof -
  have "inj_on node_rp (set (nodes_in c))"
    using distinct_nodes_in [OF assms(1,2)] by (simp only: distinct_map)
  from inj_onD [OF this assms(5,3,4)] show ?thesis .
qed

text \<open>Every node of a well-formed forest is well formed at its parent path.\<close>

lemma wf_node_sub:
  assumes "dir_path p" and "wf_node p n" and "m \<in> set (nodes_of n)"
  shows "dir_path (parent_path (node_rp m)) \<and> wf_node (parent_path (node_rp m)) m"
  using assms
proof (induction n arbitrary: p)
  case (DirectoryNode a e c)
  have d: "dir_path (rp e)" using wf_node_dir_path [OF DirectoryNode.prems(1,2)] by simp
  show ?case
  proof (cases "m = DirectoryNode a e c")
    case True
    then show ?thesis
      using DirectoryNode.prems wf_node_parent [OF DirectoryNode.prems(1,2)] by simp
  next
    case False
    then obtain x where x: "x \<in> set c" "m \<in> set (nodes_of x)"
      using DirectoryNode.prems by auto
    then show ?thesis
      using DirectoryNode.IH [OF x(1) d _ x(2)] DirectoryNode.prems(2) by simp
  qed
qed

lemma wf_forest_sub:
  assumes "dir_path p" and "wf_forest p c" and "m \<in> set (nodes_in c)"
  shows "dir_path (parent_path (node_rp m))" and "wf_node (parent_path (node_rp m)) m"
    and "dir_path (node_rp m)" and "wf_forest (node_rp m) (content m)"
proof -
  obtain x where "x \<in> set c" "m \<in> set (nodes_of x)" using assms(3) by auto
  then show *: "dir_path (parent_path (node_rp m))" "wf_node (parent_path (node_rp m)) m"
    using wf_node_sub [OF assms(1) wf_forestD(3) [OF assms(2)]] by blast+
  then show "dir_path (node_rp m)" and "wf_forest (node_rp m) (content m)"
    using wf_node_dir_path by (auto simp: wf_node_iff)
qed

text \<open>The directory that holds a node.\<close>

lemma holder_in_node:
  "m \<in> set (nodes_of n) \<Longrightarrow> m = n \<or> (\<exists>k \<in> set (nodes_of n). m \<in> set (content k))"
proof (induction n)
  case (DirectoryNode a e c)
  show ?case
  proof (cases "m = DirectoryNode a e c")
    case False
    then obtain x where x: "x \<in> set c" "m \<in> set (nodes_of x)"
      using DirectoryNode.prems by auto
    then consider "m = x" | k where "k \<in> set (nodes_of x)" "m \<in> set (content k)"
      using DirectoryNode.IH by blast
    then show ?thesis using x(1) by cases auto
  qed simp
qed

lemma wf_forest_holder:
  assumes "dir_path p" and "wf_forest p c" and "m \<in> set (nodes_in c)"
  shows "m \<in> set c \<and> parent_path (node_rp m) = p \<or>
    (\<exists>k \<in> set (nodes_in c). node_rp k = parent_path (node_rp m) \<and> isDirectory (elem k) \<and>
       m \<in> set (content k))"
proof -
  obtain x where x: "x \<in> set c" "m \<in> set (nodes_of x)" using assms(3) by auto
  show ?thesis
  proof (cases "m = x")
    case True
    then show ?thesis
      using x(1) wf_node_parent [OF assms(1) wf_forestD(3) [OF assms(2)]] by simp
  next
    case False
    then obtain k where k: "k \<in> set (nodes_of x)" "m \<in> set (content k)"
      using holder_in_node [OF x(2)] by blast
    then have kc: "k \<in> set (nodes_in c)" using x(1) by auto
    note w = wf_forest_sub [OF assms(1,2) kc]
    have "parent_path (node_rp m) = node_rp k"
      using wf_node_parent [OF w(3) wf_forestD(3) [OF w(4) k(2)]] .
    moreover have "isDirectory (elem k)"
      using w(2) k(2) by (auto simp: wf_node_iff)
    ultimately show ?thesis using kc k(2) by auto
  qed
qed

section \<open>Order of the entries of one directory\<close>

lemma list_append_le: "xs @ [n :: 'a :: linorder] \<le> xs @ [m] \<longleftrightarrow> n \<le> m"
  by (induction xs) auto

lemma elem_key_child:
  assumes "dir_path p" and "valid_name n" and "valid_name m"
    and "rp x = child p n" and "rp y = child p m"
  shows "elem_key x \<le> elem_key y \<longleftrightarrow> (\<not> isDirectory x, n) \<le> (\<not> isDirectory y, m)"
  using assms
  by (auto simp: elem_key_def path_key_def path_elements_child has_root_child list_append_le less_eq_prod_def)

lemma node_key_eq:
  assumes "dir_path p" and "wf_node p x" and "wf_node p y"
  shows "node_key x \<le> node_key y \<longleftrightarrow>
    (\<not> isDirectory (elem x), path_filename (node_rp x)) \<le>
    (\<not> isDirectory (elem y), path_filename (node_rp y))"
  unfolding node_key_def
  using assms by (intro elem_key_child) (auto simp: wf_node_iff)

lemma sorted_map_le_iff:
  "sorted (map f xs) \<longleftrightarrow> sorted (map g xs)"
  if "\<And>x y. x \<in> set xs \<Longrightarrow> y \<in> set xs \<Longrightarrow> f x \<le> f y \<longleftrightarrow> g x \<le> g y"
  using that by (induction xs) auto

lemma sorted_node_keys:
  assumes "dir_path p" and "\<And>n. n \<in> set c \<Longrightarrow> wf_node p n"
  shows "sorted (map node_key c) \<longleftrightarrow>
    sorted (map (\<lambda>n. (\<not> isDirectory (elem n), path_filename (node_rp n))) c)"
  using assms by (intro sorted_map_le_iff node_key_eq)

section \<open>Shapes\<close>

text \<open>A tree without the addresses of its cells.\<close>

datatype etree = ETree (et_elem: FilesystemElement) (et_content: "etree list")

fun shape :: "DirectoryNode \<Rightarrow> etree" where
  "shape (DirectoryNode a e c) = ETree e (map shape c)"

fun reloc :: "path \<Rightarrow> etree \<Rightarrow> etree" where
  "reloc q (ETree e c) =
     (let p = child q (path_filename (rp e)) in ETree (elementWithPath e p) (map (reloc p) c))"

fun et_elems :: "etree \<Rightarrow> FilesystemElement list" where
  "et_elems (ETree e c) = e # concat (map et_elems c)"

lemma shape_eq: "shape n = ETree (elem n) (map shape (content n))"
  by (cases n) simp

lemma elems_shape: "map elem (nodes_of n) = et_elems (shape n)"
proof (induction n)
  case (DirectoryNode a e c)
  then have "map elem (nodes_in c) = concat (map et_elems (map shape c))"
    by (induction c) auto
  then show ?case by (simp add: comp_def)
qed

lemma elems_shapes: "map elem (nodes_in c) = concat (map et_elems (map shape c))"
  by (induction c) (simp_all add: elems_shape)

lemma reloc_id:
  assumes "dir_path p" and "wf_node p n"
  shows "reloc p (shape n) = shape n"
  using assms
proof (induction n arbitrary: p)
  case (DirectoryNode a e c)
  have r: "rp e = child p (path_filename (rp e))" using DirectoryNode.prems(2) by simp
  have d: "dir_path (rp e)" using wf_node_dir_path [OF DirectoryNode.prems] by simp
  have "map (reloc (rp e)) (map shape c) = map shape c"
    using DirectoryNode.IH d DirectoryNode.prems(2) by simp
  then show ?case
    by (simp add: Let_def elementWithPath_def flip: r)
qed

section \<open>Copies\<close>

text \<open>
  \<open>fresh_copies q ns k news k'\<close>: the nodes \<open>news\<close> are copies of \<open>ns\<close> relocated to the directory
  \<open>q\<close>, in cells with pairwise different addresses from \<open>k\<close> up to \<open>k'\<close>.
\<close>

definition fresh_copies ::
  "path \<Rightarrow> DirectoryNode list \<Rightarrow> nat \<Rightarrow> DirectoryNode list \<Rightarrow> nat \<Rightarrow> bool" where
  "fresh_copies q ns k news k' \<longleftrightarrow>
     map shape news = map (reloc q) (map shape ns) \<and> (\<forall>n \<in> set news. wf_node q n) \<and> k \<le> k' \<and>
     node_addr ` set (nodes_in news) \<subseteq> {k..<k'} \<and> distinct (map node_addr (nodes_in news))"

lemma fresh_copies_Nil: "fresh_copies q [] k [] k"
  by (simp add: fresh_copies_def)

lemma fresh_copies_append:
  assumes "fresh_copies q ns k as k1" and "fresh_copies q ms k1 bs k2"
  shows "fresh_copies q (ns @ ms) k (as @ bs) k2"
proof -
  have "node_addr ` set (nodes_in as) \<inter> node_addr ` set (nodes_in bs) = {}"
    using assms unfolding fresh_copies_def by force
  then show ?thesis using assms unfolding fresh_copies_def by auto force+
qed

lemma shapes_elems: "map shape as = map (reloc q) (map shape ns) \<Longrightarrow>
    map elem as = map (\<lambda>n. elementWithPath (elem n) (child q (path_filename (node_rp n)))) ns"
  by (induction ns arbitrary: as) (auto simp: shape_eq Let_def)

text \<open>Relocated entries keep their order and stay different.\<close>

lemma fresh_copies_wf:
  assumes "fresh_copies q ns k news k'" and "dir_path q" and "dir_path p" and "wf_forest p ns"
  shows "wf_forest q news"
proof -
  have el: "map elem news = map (\<lambda>n. elementWithPath (elem n) (child q (path_filename (node_rp n)))) ns"
    using assms(1) by (intro shapes_elems) (simp add: fresh_copies_def)
  have nm: "valid_name (path_filename (node_rp n))" "wf_node p n" if "n \<in> set ns" for n
    using wf_forestD(3) [OF assms(4) that] by (auto simp: wf_node_iff)
  have w: "wf_node q n" if "n \<in> set news" for n
    using assms(1) that by (simp add: fresh_copies_def)
  have k: "map (\<lambda>n. (\<not> isDirectory (elem n), path_filename (node_rp n))) news =
      map (\<lambda>n. (\<not> isDirectory (elem n), path_filename (node_rp n))) ns"
  proof -
    have "map (\<lambda>e. (\<not> isDirectory e, path_filename (rp e))) (map elem news) =
        map (\<lambda>n. (\<not> isDirectory (elem n), path_filename (node_rp n))) ns"
      unfolding el using nm(1) assms(2) by (auto simp: elementWithPath_def isDirectory_def)
    then show ?thesis by (simp add: comp_def)
  qed
  have s: "sorted (map node_key news)"
    using wf_forestD(1) [OF assms(4)] sorted_node_keys [OF assms(2) w, of news]
      sorted_node_keys [OF assms(3) nm(2), of ns] k by simp
  have "map node_rp news = map (\<lambda>n. child q (path_filename (node_rp n))) ns"
  proof -
    have "map rp (map elem news) = map (\<lambda>n. child q (path_filename (node_rp n))) ns"
      unfolding el by (simp add: elementWithPath_def)
    then show ?thesis by (simp add: comp_def)
  qed
  moreover have "inj_on (\<lambda>n. child q (path_filename (node_rp n))) (set ns)"
  proof (rule inj_onI)
    fix x y
    assume xy: "x \<in> set ns" "y \<in> set ns"
      "child q (path_filename (node_rp x)) = child q (path_filename (node_rp y))"
    then have "path_filename (node_rp x) = path_filename (node_rp y)"
      using child_inject [OF assms(2,2)] nm(1) by blast
    then have "node_rp x = node_rp y" using nm(2) xy(1,2) by (metis wf_node_iff)
    then show "x = y"
      using wf_forestD(2) [OF assms(4)] xy(1,2) by (simp add: distinct_map inj_on_def)
  qed
  ultimately have "distinct (map node_rp news)"
    using wf_forestD(2) [OF assms(4)] by (simp add: distinct_map)
  with s w show ?thesis by (simp add: wf_forest_def)
qed

lemma fresh_copies_wrap:
  assumes "fresh_copies (child q (path_filename (rp se))) sc k news k1"
    and "wf_node q (DirectoryNode k1 (elementWithPath se (child q (path_filename (rp se)))) news)"
  shows "fresh_copies q [DirectoryNode sa se sc] k
    [DirectoryNode k1 (elementWithPath se (child q (path_filename (rp se)))) news] (Suc k1)"
proof -
  have a: "node_addr ` set (nodes_in news) \<subseteq> {k..<k1}" and k: "k \<le> k1"
    using assms(1) by (simp_all only: fresh_copies_def)
  then have "node_addr ` set (nodes_in news) \<subseteq> {k..<Suc k1}"
    and "k1 \<notin> node_addr ` set (nodes_in news)" by fastforce+
  then show ?thesis
    using assms k unfolding fresh_copies_def
    by (simp add: Let_def del: set_concat set_map wf_node.simps) simp
qed

lemma recursiveAdd_copies:
  "dir_path (node_rp dst) \<Longrightarrow> isDirectory (elem dst) \<Longrightarrow> dir_path p \<Longrightarrow> wf_node p src \<Longrightarrow>
     \<exists>new k1. recursiveAdd dst src k = Inr (set_content (content dst @ [new]) dst, k1, Suc k1) \<and>
       node_addr new = k1 \<and> fresh_copies (node_rp dst) [src] k [new] (Suc k1)"
  "dir_path (node_rp d) \<Longrightarrow> isDirectory (elem d) \<or> ns = [] \<Longrightarrow> dir_path p \<Longrightarrow>
     (\<And>n. n \<in> set ns \<Longrightarrow> wf_node p n) \<Longrightarrow>
     \<exists>news k'. recursiveAddAll d ns k = Inr (set_content (content d @ news) d, k') \<and>
       fresh_copies (node_rp d) ns k news k'"
proof (induction dst src k and d ns k arbitrary: p and p rule: recursiveAdd_recursiveAddAll.induct)
  case (1 dst sa se sc k)
  let ?q = "child (node_rp dst) (path_filename (rp se))"
  let ?new = "DirectoryNode 0 (elementWithPath se ?q) []"
  have nm: "valid_name (path_filename (rp se))" using 1(5) by simp
  have dq: "dir_path ?q" using 1(2) nm by blast
  have dse: "dir_path (rp se)" using wf_node_dir_path [OF 1(4,5)] by simp
  have fsc: "wf_forest (rp se) sc" using 1(5) by (simp add: wf_forest_def)
  have "\<exists>news k'. recursiveAddAll ?new sc k = Inr (set_content (content ?new @ news) ?new, k') \<and>
      fresh_copies (node_rp ?new) sc k news k'"
    using 1(3,5) nm dq dse
    by (intro 1(1) [where p = "rp se"]) (auto simp: elementWithPath_def isDirectory_def valid_name_def)
  then obtain news k1 where
    r: "recursiveAddAll ?new sc k = Inr (set_content news ?new, k1)"
    and f: "fresh_copies ?q sc k news k1"
    by (auto simp: elementWithPath_def)
  have wn: "wf_forest ?q news" by (rule fresh_copies_wf [OF f dq dse fsc])
  then have srt: "sort_nodes news = news" by (intro sort_nodes_id wf_forestD(1))
  let ?copy = "DirectoryNode k1 (elementWithPath se ?q) news"
  have "recursiveAdd dst (DirectoryNode sa se sc) k = Inr (set_content (content dst @ [?copy]) dst, k1, Suc k1)"
    using 1(3) nm by (simp add: r srt Let_def valid_nameD(1) place_at_def set_content_def)
  moreover have "fresh_copies (node_rp dst) [DirectoryNode sa se sc] k [?copy] (Suc k1)"
  proof -
    have len: "length news = length sc"
      using f by (metis fresh_copies_def length_map)
    have "wf_node (node_rp dst) ?copy"
      using nm 1(2,5) wn len by (auto simp: wf_node_iff elementWithPath_def isDirectory_def)
    then show ?thesis by (rule fresh_copies_wrap [OF f])
  qed
  ultimately show ?case by (metis DirectoryNode.sel(1))
next
  case (2 dst k)
  then show ?case
    using fresh_copies_Nil by (intro exI [of _ "[]"] exI [of _ k]) (simp add: set_content_def)
next
  case (3 dst n ns k)
  have d: "isDirectory (elem dst)" using 3(4) by simp
  obtain new k1 where
    r: "recursiveAdd dst n k = Inr (set_content (content dst @ [new]) dst, k1, Suc k1)"
    and f: "fresh_copies (node_rp dst) [n] k [new] (Suc k1)"
    using 3(1) [OF 3(3) d 3(5)] 3(6) by auto
  have IH: "\<exists>news k2. recursiveAddAll d' ns k' = Inr (set_content (content d' @ news) d', k2) \<and>
      fresh_copies (node_rp d') ns k' news k2"
    if "dir_path (node_rp d')" and "isDirectory (elem d')" for d' k'
    by (rule 3(2) [where p = p]) (use 3(5,6) that in auto)
  obtain news k2 where
    r2: "recursiveAddAll (set_content (content dst @ [new]) dst) ns (Suc k1) =
      Inr (set_content (content dst @ new # news) dst, k2)"
    and f2: "fresh_copies (node_rp dst) ns (Suc k1) news k2"
    using IH [of "set_content (content dst @ [new]) dst" "Suc k1"] 3(3) d
    by (auto simp: set_content_def)
  have "recursiveAddAll dst (n # ns) k = Inr (set_content (content dst @ new # news) dst, k2)"
    by (simp add: r r2)
  moreover have "fresh_copies (node_rp dst) (n # ns) k (new # news) k2"
    using fresh_copies_append [OF f f2] by simp
  ultimately show ?case by blast
qed

end
