(* ===== verification/Ddm_Tree.thy ===== *)
theory Ddm_Tree
  imports Ddm_Node
begin

text \<open>
  \<^verbatim>\<open>DirectoryTree\<close> (core.h, core.cpp): the list of top level nodes and an index from relative
  paths to pointers into the tree. This theory has the operations on the tree in memory; what they
  do to the file system and to metadata files is in other theories. The field \<open>next_addr\<close> is the
  allocator: the address of the next list cell. The field \<open>warnings\<close> holds what was passed to the
  warning callback.

  Every operation is refined by an operation on the map from paths to elements
  (\<open>tree_entries\<close>), and keeps the invariant \<open>wf_tree\<close>: the tree is well formed, the cells are
  distinct and the index knows exactly the nodes of the tree.
\<close>

record DirectoryTree =
  topContent :: "DirectoryNode list"
  index :: "path \<Rightarrow> nat option"
  topPath :: "path option"
  warnings :: "string list"
  next_addr :: nat

type_synonym path_index = "path \<Rightarrow> nat option"

section \<open>Operations\<close>

definition emptyTree :: DirectoryTree where
  "emptyTree = \<lparr>topContent = [], index = Map.empty, topPath = None, warnings = [], next_addr = 0\<rparr>"

definition clear :: "DirectoryTree \<Rightarrow> DirectoryTree" where
  "clear t = t\<lparr>topPath := None, topContent := [], index := Map.empty\<rparr>"

text \<open>A read through a pointer, and a write of a whole node through a pointer.\<close>

definition deref :: "DirectoryTree \<Rightarrow> nat \<Rightarrow> DirectoryNode result" where
  "deref t a = (case find (\<lambda>n. node_addr n = a) (nodes_in (topContent t)) of
     None \<Rightarrow> Inl Undefined | Some n \<Rightarrow> Inr n)"

fun put_node :: "nat \<Rightarrow> DirectoryNode \<Rightarrow> DirectoryNode \<Rightarrow> DirectoryNode" where
  "put_node a m (DirectoryNode b e c) =
     (if b = a then m else DirectoryNode b e (map (put_node a m) c))"

definition assign :: "DirectoryTree \<Rightarrow> DirectoryNode \<Rightarrow> DirectoryTree" where
  "assign t n = t\<lparr>topContent := map (put_node (node_addr n) n) (topContent t)\<rparr>"

definition search :: "DirectoryTree \<Rightarrow> path \<Rightarrow> FilesystemElement option result" where
  "search t p = (case index t p of None \<Rightarrow> Inr None
     | Some a \<Rightarrow> bindE (deref t a) (\<lambda>n. Inr (Some (elem n))))"

definition searchNode :: "DirectoryTree \<Rightarrow> path \<Rightarrow> string \<Rightarrow> DirectoryNode result" where
  "searchNode t p whence = (case index t p of
       None \<Rightarrow> Inl (Runtime_error (''DirectoryTree::searchNode could not find the path '' @ p @
                 (if whence = [] then [] else ''. Called from '' @ whence)))
     | Some a \<Rightarrow> deref t a)"

definition insertIndex :: "path \<Rightarrow> nat \<Rightarrow> path_index \<Rightarrow> path_index result" where
  "insertIndex p a idx = bindE (assertE (idx p = None)) (\<lambda>_. Inr (idx(p \<mapsto> a)))"

definition eraseIndex :: "path \<Rightarrow> path_index \<Rightarrow> path_index result" where
  "eraseIndex p idx = bindE (assertE (idx p \<noteq> None)) (\<lambda>_. Inr (idx(p := None)))"

fun recursiveAddToIndex :: "DirectoryNode \<Rightarrow> path_index \<Rightarrow> path_index result"
  and addContentToIndex :: "DirectoryNode list \<Rightarrow> path_index \<Rightarrow> path_index result"
where
  "recursiveAddToIndex (DirectoryNode a e c) idx =
     bindE (insertIndex (rp e) a idx) (\<lambda>idx. addContentToIndex c idx)"
| "addContentToIndex [] idx = Inr idx"
| "addContentToIndex (n # ns) idx =
     bindE (if isDirectory (elem n) then recursiveAddToIndex n idx
            else insertIndex (rp (elem n)) (node_addr n) idx) (\<lambda>idx. addContentToIndex ns idx)"

fun recursiveRemoveFromIndex :: "DirectoryNode \<Rightarrow> path_index \<Rightarrow> path_index result"
  and removeContentFromIndex :: "DirectoryNode list \<Rightarrow> path_index \<Rightarrow> path_index result"
where
  "recursiveRemoveFromIndex (DirectoryNode a e c) idx = removeContentFromIndex c idx"
| "removeContentFromIndex [] idx = Inr idx"
| "removeContentFromIndex (n # ns) idx =
     bindE (if isDirectory (elem n) then recursiveRemoveFromIndex n idx else Inr idx) (\<lambda>idx.
     bindE (eraseIndex (rp (elem n)) idx) (\<lambda>idx. removeContentFromIndex ns idx))"

definition removeFromTree :: "DirectoryTree \<Rightarrow> path \<Rightarrow> DirectoryTree result" where
  "removeFromTree t relativePath =
     bindE (searchNode t relativePath ''removeFromTree'') (\<lambda>node.
     bindE (if isDirectory (elem node) then recursiveRemoveFromIndex node (index t)
            else Inr (index t)) (\<lambda>idx.
     let t = t\<lparr>index := idx\<rparr>; parent = parent_path relativePath in
     bindE (if parent \<noteq> []
            then bindE (searchNode t parent []) (\<lambda>dir.
                 Inr (assign t (removeFromDirectoryContent dir node)))
            else Inr (t\<lparr>topContent :=
                   filter (\<lambda>e. \<not> elem_eq (elem e) (elem node)) (topContent t)\<rparr>)) (\<lambda>t.
     Inr (t\<lparr>index := (index t)(relativePath := None)\<rparr>))))"

definition addSymlinkToTree :: "DirectoryTree \<Rightarrow> FilesystemElement \<Rightarrow> DirectoryTree result" where
  "addSymlinkToTree t lnk =
     bindE (assertE (ty lnk = FT_symlink)) (\<lambda>_.
     let parentPath = parent_path (rp lnk) in
     if parentPath = [] then
       Inr (t\<lparr>topContent := sort_nodes (topContent t @ [DirectoryNode (next_addr t) lnk []]),
              next_addr := Suc (next_addr t)\<rparr>)
     else
       bindE (searchNode t parentPath ''addSymlinkToTree: missing parent'') (\<lambda>parent.
       bindE (addToDirectoryContent parent (DirectoryNode 0 lnk []) (next_addr t)) (\<lambda>(parent, _, k).
       Inr ((assign t parent)\<lparr>next_addr := k\<rparr>))))"

definition modifyPermissionsInTree :: "DirectoryTree \<Rightarrow> path \<Rightarrow> perms \<Rightarrow> DirectoryTree result" where
  "modifyPermissionsInTree t relativePath p =
     bindE (searchNode t relativePath ''modifyPermissionsInTree'') (\<lambda>n.
     Inr (assign t (setPermissions p n)))"

definition modifyOwnerInTree ::
  "DirectoryTree \<Rightarrow> path \<Rightarrow> string \<Rightarrow> string \<Rightarrow> DirectoryTree result" where
  "modifyOwnerInTree t relativePath u g =
     bindE (searchNode t relativePath ''modifyOwnerInTree'') (\<lambda>n.
     Inr (assign t (setOwner u g n)))"

definition modifyMtimeInTree :: "DirectoryTree \<Rightarrow> path \<Rightarrow> int \<Rightarrow> DirectoryTree result" where
  "modifyMtimeInTree t relativePath m =
     bindE (searchNode t relativePath ''modifyMtimeInTree'') (\<lambda>n.
     Inr (assign t (setMtime m n)))"

text \<open>The loop of \<^verbatim>\<open>treeCopy\<close> that fills a copy at the top level.\<close>

definition addAllToContent ::
  "DirectoryNode \<Rightarrow> DirectoryNode list \<Rightarrow> nat \<Rightarrow> (DirectoryNode \<times> nat) result" where
  "addAllToContent newNode ns k =
     foldE (\<lambda>n (newNode, k). bindE (addToDirectoryContent newNode n k)
              (\<lambda>(newNode, _, k). Inr (newNode, k))) ns (newNode, k)"

text \<open>\<^verbatim>\<open>treeCopy\<close> gives the changed tree, the source node and the new node.\<close>

definition treeCopy ::
  "DirectoryTree \<Rightarrow> DirectoryTree \<Rightarrow> path \<Rightarrow> path \<Rightarrow>
     (DirectoryTree \<times> DirectoryNode \<times> DirectoryNode) result" where
  "treeCopy t srcTree relativeSrcPath relativeDstPath =
     bindE (searchNode srcTree relativeSrcPath ''treeCopy: can't find src'') (\<lambda>src.
     if relativeDstPath \<noteq> [] then
       bindE (searchNode t relativeDstPath ''treeCopy: can't find dst'') (\<lambda>dst.
       if \<not> isDirectory (elem dst)
       then Inl (Runtime_error (''treeCopy: dst not a directory: '' @ relativeDstPath)) else
       bindE (addToDirectoryContent dst src (next_addr t)) (\<lambda>(dst, r, k).
       let t = (assign t dst)\<lparr>next_addr := k\<rparr> in
       bindE (deref t r) (\<lambda>newNode.
       bindE (recursiveAddToIndex newNode (index t)) (\<lambda>idx.
       Inr (t\<lparr>index := idx\<rparr>, src, newNode)))))
     else
       let e = elem src; name = path_filename (rp e) in
       bindE (assertE (name \<noteq> [])) (\<lambda>_.
       bindE (assertE (\<forall>n \<in> set (topContent t). \<not> path_eq (rp (elem n)) name)) (\<lambda>_.
       bindE (addAllToContent (DirectoryNode 0 (elementWithPath e name) []) (content src) (next_addr t))
         (\<lambda>(newNode, k).
       let newNode = place_at k newNode;
           t = t\<lparr>topContent := sort_nodes (topContent t @ [newNode]), next_addr := Suc k\<rparr> in
       bindE (recursiveAddToIndex newNode (index t)) (\<lambda>idx.
       Inr (t\<lparr>index := idx\<rparr>, src, newNode))))))"

definition copyFromTree ::
  "DirectoryTree \<Rightarrow> DirectoryTree \<Rightarrow> path \<Rightarrow> path \<Rightarrow> DirectoryTree result" where
  "copyFromTree t srcTree relativeSrcPath relativeDstPath =
     bindE (treeCopy t srcTree relativeSrcPath relativeDstPath) (\<lambda>(t, _). Inr t)"

definition checkTopPath :: "DirectoryTree \<Rightarrow> string \<Rightarrow> path result" where
  "checkTopPath t whence = (case topPath t of
     None \<Rightarrow> Inl (Runtime_error (whence @ '': DirectoryTree not constructed from filesystem''))
   | Some p \<Rightarrow> Inr p)"

section \<open>Writing through a pointer\<close>

abbreviation addrs_of :: "DirectoryNode \<Rightarrow> nat list" where
  "addrs_of n \<equiv> map node_addr (nodes_of n)"

abbreviation addrs_in :: "DirectoryNode list \<Rightarrow> nat list" where
  "addrs_in c \<equiv> map node_addr (nodes_in c)"

lemma put_node_id: "a \<notin> set (addrs_of n) \<Longrightarrow> put_node a m n = n"
proof (induction n)
  case (DirectoryNode b e c)
  then have "map (put_node a m) c = c" by (intro map_idI) auto
  with DirectoryNode.prems show ?case by auto
qed

lemma put_nodes_id: "a \<notin> set (addrs_in c) \<Longrightarrow> map (put_node a m) c = c"
  by (rule map_idI, rule put_node_id) auto

text \<open>
  What a write changes: in the multiset of all nodes, seen up to their contents, the subtree of
  the old node is replaced by that of the new one.
\<close>

definition cells_of :: "DirectoryNode \<Rightarrow> (nat \<times> FilesystemElement) multiset" where
  "cells_of n = mset (map (\<lambda>n. (node_addr n, elem n)) (nodes_of n))"

definition cells_in :: "DirectoryNode list \<Rightarrow> (nat \<times> FilesystemElement) multiset" where
  "cells_in c = mset (map (\<lambda>n. (node_addr n, elem n)) (nodes_in c))"

lemma cells_of_node: "cells_of (DirectoryNode a e c) = add_mset (a, e) (cells_in c)"
  by (simp add: cells_of_def cells_in_def)

lemma cells_in_simps [simp]:
  "cells_in [] = {#}"
  "cells_in (n # c) = cells_of n + cells_in c"
  "cells_in (c @ d) = cells_in c + cells_in d"
  by (simp_all add: cells_of_def cells_in_def)

lemma cells_of_content: "cells_of n = add_mset (node_addr n, elem n) (cells_in (content n))"
  by (cases n) (simp add: cells_of_node)

lemma cells_in_mset: "mset c = mset d \<Longrightarrow> cells_in c = cells_in d"
proof -
  assume "mset c = mset d"
  moreover have "cells_in c = (\<Sum>n \<in># mset c. cells_of n)" for c
    by (induction c) simp_all
  ultimately show ?thesis by simp
qed

lemma put_nodes_split:
  assumes "distinct (addrs_in c)" and "x \<in> set c" and "a \<in> set (addrs_of x)"
  obtains c1 c2 where "c = c1 @ x # c2" and "map (put_node a m) c = c1 @ put_node a m x # c2"
proof -
  obtain c1 c2 where c: "c = c1 @ x # c2" using assms(2) by (meson split_list)
  have "set (addrs_in c1) \<inter> set (addrs_of x) = {}" "set (addrs_of x) \<inter> set (addrs_in c2) = {}"
    using assms(1) unfolding c by (simp_all add: Int_Un_distrib)
  then have "a \<notin> set (addrs_in c1)" "a \<notin> set (addrs_in c2)"
    using assms(3) by blast+
  then have "map (put_node a m) c = c1 @ put_node a m x # c2"
    unfolding c by (simp add: put_nodes_id)
  with c show ?thesis by (rule that)
qed

lemma put_node_cells:
  "distinct (addrs_of n) \<Longrightarrow> n0 \<in> set (nodes_of n) \<Longrightarrow> node_addr n0 = a \<Longrightarrow>
     cells_of (put_node a m n) + cells_of n0 = cells_of n + cells_of m"
proof (induction n)
  case (DirectoryNode b e c)
  show ?case
  proof (cases "b = a")
    case True
    have "n0 = DirectoryNode b e c"
      using DirectoryNode.prems True by auto
    then show ?thesis using True by (simp add: add.commute)
  next
    case False
    then obtain x where x: "x \<in> set c" "n0 \<in> set (nodes_of x)"
      using DirectoryNode.prems by auto
    have d: "distinct (addrs_in c)" using DirectoryNode.prems(1) by simp
    have "a \<in> set (addrs_of x)" using x(2) DirectoryNode.prems(3) by auto
    then obtain c1 c2 where c: "c = c1 @ x # c2" "map (put_node a m) c = c1 @ put_node a m x # c2"
      using put_nodes_split [OF d x(1)] by metis
    have "cells_of (put_node a m x) + cells_of n0 = cells_of x + cells_of m"
      using d x(2) DirectoryNode.prems(3) unfolding c(1)
      by (intro DirectoryNode.IH [OF x(1)]) auto
    then show ?thesis using False c(2) by (simp add: cells_of_node c(1) ac_simps)
  qed
qed

lemma put_nodes_cells:
  assumes "distinct (addrs_in c)" and "n0 \<in> set (nodes_in c)" and "node_addr n0 = a"
  shows "cells_in (map (put_node a m) c) + cells_of n0 = cells_in c + cells_of m"
proof -
  obtain x where x: "x \<in> set c" "n0 \<in> set (nodes_of x)" using assms(2) by auto
  then have "a \<in> set (addrs_of x)" using assms(3) by auto
  then obtain c1 c2 where c: "c = c1 @ x # c2" "map (put_node a m) c = c1 @ put_node a m x # c2"
    using put_nodes_split [OF assms(1) x(1)] by metis
  have "cells_of (put_node a m x) + cells_of n0 = cells_of x + cells_of m"
    using assms x(2) unfolding c(1) by (intro put_node_cells) auto
  then show ?thesis unfolding c(2) by (simp add: c(1) ac_simps)
qed

text \<open>A write of a node with the same path and type to a well-formed place keeps the shape.\<close>

lemma put_node_wf:
  assumes "dir_path p" and "wf_node p n" and "distinct (addrs_of n)"
    and "n0 \<in> set (nodes_of n)" and "node_addr n0 = a"
    and m: "node_key m = node_key n0" "node_rp m = node_rp n0" "wf_node (parent_path (node_rp n0)) m"
  shows "wf_node p (put_node a m n) \<and> node_key (put_node a m n) = node_key n \<and>
    node_rp (put_node a m n) = node_rp n"
  using assms(1-5)
proof (induction n arbitrary: p)
  case (DirectoryNode b e c)
  show ?case
  proof (cases "b = a")
    case True
    then have "n0 = DirectoryNode b e c" using DirectoryNode.prems by auto
    then show ?thesis
      using True m wf_node_parent [OF DirectoryNode.prems(1,2)] by simp
  next
    case False
    then obtain x where x: "x \<in> set c" "n0 \<in> set (nodes_of x)"
      using DirectoryNode.prems by auto
    have d: "dir_path (rp e)" using wf_node_dir_path [OF DirectoryNode.prems(1,2)] by simp
    have dc: "distinct (addrs_in c)" using DirectoryNode.prems(3) by simp
    have "a \<in> set (addrs_of x)" using x(2) DirectoryNode.prems(5) by auto
    then obtain c1 c2 where c: "c = c1 @ x # c2" "map (put_node a m) c = c1 @ put_node a m x # c2"
      using put_nodes_split [OF dc x(1)] by metis
    have "wf_node (rp e) (put_node a m x) \<and> node_key (put_node a m x) = node_key x \<and>
        node_rp (put_node a m x) = node_rp x"
      using DirectoryNode.prems dc x(2) unfolding c(1)
      by (intro DirectoryNode.IH [OF x(1) d]) (auto simp: c(1))
    then show ?thesis
      using DirectoryNode.prems(2) False c by (simp add: node_key_def)
  qed
qed

lemma put_nodes_wf:
  assumes "dir_path p" and "wf_forest p c" and "distinct (addrs_in c)"
    and "n0 \<in> set (nodes_in c)" and "node_addr n0 = a"
    and m: "node_key m = node_key n0" "node_rp m = node_rp n0" "wf_node (parent_path (node_rp n0)) m"
  shows "wf_forest p (map (put_node a m) c)"
proof -
  obtain x where x: "x \<in> set c" "n0 \<in> set (nodes_of x)" using assms(4) by auto
  then have "a \<in> set (addrs_of x)" using assms(5) by auto
  then obtain c1 c2 where c: "c = c1 @ x # c2" "map (put_node a m) c = c1 @ put_node a m x # c2"
    using put_nodes_split [OF assms(3) x(1)] by metis
  have "wf_node p (put_node a m x) \<and> node_key (put_node a m x) = node_key x \<and>
      node_rp (put_node a m x) = node_rp x"
    using assms(3,5) x(2) wf_forestD(3) [OF assms(2) x(1)] unfolding c(1)
    by (intro put_node_wf [OF assms(1) _ _ _ _ m]) auto
  then show ?thesis using assms(2) unfolding c(2) by (simp add: c(1) wf_forest_def)
qed

section \<open>The invariant\<close>

definition index_ok :: "path_index \<Rightarrow> (nat \<times> FilesystemElement) multiset \<Rightarrow> bool" where
  "index_ok idx M \<longleftrightarrow> (\<forall>p a. idx p = Some a \<longleftrightarrow> (\<exists>e. (a, e) \<in># M \<and> rp e = p))"

definition tree_nodes :: "DirectoryTree \<Rightarrow> DirectoryNode set" where
  "tree_nodes t = set (nodes_in (topContent t))"

definition wf_tree :: "DirectoryTree \<Rightarrow> bool" where
  "wf_tree t \<longleftrightarrow>
     wf_forest [] (topContent t) \<and> distinct (addrs_in (topContent t)) \<and>
     (\<forall>a \<in> set (addrs_in (topContent t)). a < next_addr t) \<and>
     index_ok (index t) (cells_in (topContent t))"

text \<open>The contents of a tree as a map from relative paths to elements.\<close>

definition forest_entries :: "DirectoryNode list \<Rightarrow> path \<Rightarrow> FilesystemElement option" where
  "forest_entries c = map_of (map (\<lambda>n. (node_rp n, elem n)) (nodes_in c))"

definition tree_entries :: "DirectoryTree \<Rightarrow> path \<Rightarrow> FilesystemElement option" where
  "tree_entries t = forest_entries (topContent t)"

lemma in_cells_iff: "(a, e) \<in># cells_in c \<longleftrightarrow> (\<exists>n \<in> set (nodes_in c). node_addr n = a \<and> elem n = e)"
  by (auto simp: cells_in_def image_iff)

lemma cells_addrs: "set (addrs_in c) = fst ` set_mset (cells_in c)"
  by (simp add: cells_in_def image_image)

lemma mset_addrs: "mset (addrs_in c) = image_mset fst (cells_in c)"
  by (simp add: cells_in_def comp_def flip: mset_map)

lemma forest_entries_iff:
  assumes "dir_path p" and "wf_forest p c"
  shows "forest_entries c q = Some e \<longleftrightarrow> (\<exists>n \<in> set (nodes_in c). node_rp n = q \<and> elem n = e)"
proof -
  have "distinct (map fst (map (\<lambda>n. (node_rp n, elem n)) (nodes_in c)))"
    using distinct_nodes_in [OF assms] by (simp add: comp_def)
  then have "forest_entries c q = Some e \<longleftrightarrow>
      (q, e) \<in> set (map (\<lambda>n. (node_rp n, elem n)) (nodes_in c))"
    unfolding forest_entries_def by (rule map_of_eq_Some_iff)
  then show ?thesis by (auto simp: image_iff)
qed

lemma forest_entries_cells:
  assumes "dir_path p" and "wf_forest p c"
  shows "forest_entries c q = Some e \<longleftrightarrow> (\<exists>a. (a, e) \<in># cells_in c \<and> rp e = q)"
  using forest_entries_iff [OF assms] by (auto simp: in_cells_iff)

lemma forest_entries_shape:
  "map shape c = map shape d \<Longrightarrow> forest_entries c = forest_entries d"
proof -
  assume "map shape c = map shape d"
  then have "map elem (nodes_in c) = map elem (nodes_in d)" by (simp add: elems_shapes)
  moreover have "map (\<lambda>n. (node_rp n, elem n)) ns = map (\<lambda>e. (rp e, e)) (map elem ns)" for ns
    by simp
  ultimately show ?thesis by (simp only: forest_entries_def)
qed

lemma wf_treeD:
  assumes "wf_tree t"
  shows "wf_forest [] (topContent t)" and "distinct (addrs_in (topContent t))"
    and "\<And>n. n \<in> tree_nodes t \<Longrightarrow> node_addr n < next_addr t"
    and "index_ok (index t) (cells_in (topContent t))"
  using assms by (auto simp: wf_tree_def tree_nodes_def)

lemma wf_tree_index:
  assumes "wf_tree t"
  shows "index t p = Some a \<longleftrightarrow> (\<exists>n \<in> tree_nodes t. node_rp n = p \<and> node_addr n = a)"
  using wf_treeD(4) [OF assms] by (auto simp: index_ok_def in_cells_iff tree_nodes_def)

lemma wf_tree_entries:
  assumes "wf_tree t"
  shows "tree_entries t p = Some e \<longleftrightarrow> (\<exists>n \<in> tree_nodes t. node_rp n = p \<and> elem n = e)"
  unfolding tree_entries_def tree_nodes_def
  by (rule forest_entries_iff [OF dir_path_Nil wf_treeD(1) [OF assms]])

lemma wf_tree_inj:
  "wf_tree t \<Longrightarrow> m \<in> tree_nodes t \<Longrightarrow> n \<in> tree_nodes t \<Longrightarrow> node_rp m = node_rp n \<Longrightarrow> m = n"
  unfolding tree_nodes_def by (rule wf_forest_inj [OF dir_path_Nil wf_treeD(1)])

lemma tree_entries_node: "wf_tree t \<Longrightarrow> n \<in> tree_nodes t \<Longrightarrow> tree_entries t (node_rp n) = Some (elem n)"
  using wf_tree_entries by blast

lemma index_node: "wf_tree t \<Longrightarrow> n \<in> tree_nodes t \<Longrightarrow> index t (node_rp n) = Some (node_addr n)"
  using wf_tree_index by blast

lemma index_None_iff: "wf_tree t \<Longrightarrow> index t p = None \<longleftrightarrow> tree_entries t p = None"
  using wf_tree_index wf_tree_entries by (metis not_None_eq)

lemma find_unique:
  assumes "inj_on f (set xs)" and "x \<in> set xs"
  shows "find (\<lambda>y. f y = f x) xs = Some x"
proof -
  obtain y where y: "find (\<lambda>y. f y = f x) xs = Some y"
    using assms(2) by (cases "find (\<lambda>y. f y = f x) xs") (auto simp: find_None_iff)
  then have "f y = f x" "y \<in> set xs" by (auto simp: find_Some_iff)
  with y show ?thesis using inj_onD [OF assms(1)] assms(2) by metis
qed

lemma deref_node:
  assumes "wf_tree t" and "n \<in> tree_nodes t"
  shows "deref t (node_addr n) = Inr n"
proof -
  have "inj_on node_addr (set (nodes_in (topContent t)))"
    using wf_treeD(2) [OF assms(1)] by (simp only: distinct_map)
  from find_unique [OF this] assms(2) show ?thesis by (simp add: deref_def tree_nodes_def)
qed

text \<open>In a well-formed tree the index finds exactly what the tree contains.\<close>

lemma searchNode_node:
  "wf_tree t \<Longrightarrow> n \<in> tree_nodes t \<Longrightarrow> searchNode t (node_rp n) w = Inr n"
  by (simp add: searchNode_def index_node deref_node)

lemma searchNode_missing:
  "wf_tree t \<Longrightarrow> tree_entries t p = None \<Longrightarrow> searchNode t p w = Inl (Runtime_error
    (''DirectoryTree::searchNode could not find the path '' @ p @
      (if w = [] then [] else ''. Called from '' @ w)))"
  by (simp add: searchNode_def flip: index_None_iff)

lemma searchNode_found:
  assumes "wf_tree t" and "tree_entries t p = Some e"
  obtains n where "searchNode t p w = Inr n" and "n \<in> tree_nodes t" and "node_rp n = p"
    and "elem n = e"
  using assms searchNode_node wf_tree_entries by metis

lemma searchNode_Inr_iff:
  assumes "wf_tree t"
  shows "searchNode t p w = Inr n \<longleftrightarrow> n \<in> tree_nodes t \<and> node_rp n = p"
proof (cases "tree_entries t p")
  case None
  then show ?thesis
    using searchNode_missing [OF assms] tree_entries_node [OF assms] by auto
next
  case (Some e)
  then obtain m where "searchNode t p w = Inr m" "m \<in> tree_nodes t" "node_rp m = p"
    using searchNode_found [OF assms] by metis
  then show ?thesis using wf_tree_inj [OF assms] by auto
qed

lemma search_entries:
  assumes "wf_tree t"
  shows "search t p = Inr (tree_entries t p)"
proof (cases "tree_entries t p")
  case None
  then show ?thesis using index_None_iff [OF assms, of p] by (simp add: search_def)
next
  case (Some e)
  then obtain n where "n \<in> tree_nodes t" "node_rp n = p" "elem n = e"
    using wf_tree_entries [OF assms] by blast
  with Some show ?thesis
    using index_node [OF assms] deref_node [OF assms] by (auto simp: search_def)
qed

lemma wf_emptyTree [simp]: "wf_tree emptyTree"
  by (simp add: wf_tree_def emptyTree_def index_ok_def)

end
