(* ===== verification/Ddm_Tree_Ops.thy ===== *)
theory Ddm_Tree_Ops
  imports Ddm_Tree
begin

text \<open>
  The operations of \<^verbatim>\<open>DirectoryTree\<close> in memory keep the invariant and implement operations on
  the map from paths to elements: a removal deletes everything at or below a path, a copy replaces
  everything at or below a path by what the source tree has there, and the three modifications
  update one entry.
\<close>

section \<open>Cells and entries\<close>

lemma option_map_ext: "(\<And>q e. f q = Some e \<longleftrightarrow> g q = Some e) \<Longrightarrow> f = g"
  by (rule ext) (metis not_None_eq)

lemma rps_mset: "mset (map node_rp (nodes_in c)) = image_mset (\<lambda>x. rp (snd x)) (cells_in c)"
  by (simp add: cells_in_def comp_def flip: mset_map)

lemma cells_rp_unique:
  assumes "dir_path p" and "wf_forest p c" and "cells_in c = add_mset (a, e) M" and "(b, x) \<in># M"
  shows "rp x \<noteq> rp e"
proof
  assume "rp x = rp e"
  have "count (mset (map node_rp (nodes_in c))) (rp e) \<ge> 2"
    unfolding rps_mset assms(3) using assms(4) \<open>rp x = rp e\<close>
    by (auto dest!: multi_member_split)
  moreover have "count (mset (map node_rp (nodes_in c))) (rp e) \<le> 1"
    using distinct_nodes_in [OF assms(1,2)] by (metis distinct_count_atmost_1 le_numeral_extra(4)
        not_less_eq_eq zero_le_one)
  ultimately show False by simp
qed

lemma node_cells_split:
  assumes "n \<in> set (nodes_in c)"
  shows "\<exists>M. cells_in c = add_mset (node_addr n, elem n) M"
proof -
  have "(node_addr n, elem n) \<in># cells_in c" using assms by (auto simp: in_cells_iff)
  then show ?thesis by (metis mset_add)
qed

text \<open>What is at or below the path of a node is in its subtree.\<close>

lemma at_or_below_subtree:
  assumes "dir_path p" and "wf_forest p c" and "n \<in> set (nodes_in c)" and "m \<in> set (nodes_in c)"
    and "at_or_below (node_rp n) (node_rp m)"
  shows "m \<in> set (nodes_of n)"
proof -
  have sib: "x = y" if "dir_path q" "wf_forest q d" "x \<in> set d" "y \<in> set d"
    "n \<in> set (nodes_of x)" "m \<in> set (nodes_of y)" for q d x y
  proof -
    have wx: "wf_node q x" and wy: "wf_node q y" using that(2-4) by (auto dest: wf_forestD)
    obtain n1 n2 where n1: "valid_name n1" "node_rp x = child q n1"
      and n2: "valid_name n2" "node_rp y = child q n2"
      using wx wy by (auto elim!: wf_nodeE)
    have "at_or_below (child q n1) (node_rp m)"
      using wf_node_nodes_of [OF that(1) wx that(5)] assms(5) n1(2) at_or_below_trans by metis
    moreover have "at_or_below (child q n2) (node_rp m)"
      using wf_node_nodes_of [OF that(1) wy that(6)] n2(2) by simp
    ultimately have "n1 = n2" using at_or_below_child_unique [OF that(1) n1(1) n2(1)] by blast
    then show ?thesis
      using n1(2) n2(2) wf_forestD(2) [OF that(2)] that(3,4) by (simp add: distinct_map inj_on_def)
  qed
  have "m \<in> set (nodes_of n)" if "dir_path q" "wf_node q x" "n \<in> set (nodes_of x)"
    "m \<in> set (nodes_of x)" for q x
    using that
  proof (induction x arbitrary: q)
    case (DirectoryNode a e d)
    show ?case
    proof (cases "n = DirectoryNode a e d")
      case False
      have dp: "dir_path (rp e)" using wf_node_dir_path [OF DirectoryNode.prems(1,2)] by simp
      have wd: "wf_forest (rp e) d" using DirectoryNode.prems(2) by (simp add: wf_forest_def)
      obtain y where y: "y \<in> set d" "n \<in> set (nodes_of y)"
        using False DirectoryNode.prems(3) by auto
      have "below (rp e) (node_rp n)"
        using wf_forest_below [OF dp wd] y by auto
      then have "m \<noteq> DirectoryNode a e d"
        using assms(5) below_asym by (auto simp: at_or_below_def)
      then obtain z where z: "z \<in> set d" "m \<in> set (nodes_of z)"
        using DirectoryNode.prems(4) by auto
      have "y = z" using sib [OF dp wd y(1) z(1) y(2) z(2)] .
      then show ?thesis
        using DirectoryNode.IH [OF y(1) dp _ y(2)] z(2) DirectoryNode.prems(2) y(1) by simp
    qed (use DirectoryNode.prems in simp)
  qed
  moreover obtain x y where "x \<in> set c" "n \<in> set (nodes_of x)" "y \<in> set c" "m \<in> set (nodes_of y)"
    using assms(3,4) by auto
  moreover from this have "x = y" using sib [OF assms(1,2)] by blast
  ultimately show ?thesis using assms(1) wf_forestD(3) [OF assms(2)] by blast
qed

section \<open>Modifications of one entry\<close>

lemma assign_cells:
  assumes "wf_tree t" and "n0 \<in> tree_nodes t" and "node_addr m = node_addr n0"
  shows "cells_in (topContent (assign t m)) + cells_of n0 = cells_in (topContent t) + cells_of m"
  using put_nodes_cells [OF wf_treeD(2) [OF assms(1)], of n0 "node_addr m" m] assms(2,3)
  by (simp add: assign_def tree_nodes_def)

lemma assign_simps [simp]:
  "index (assign t m) = index t" "next_addr (assign t m) = next_addr t"
  "topPath (assign t m) = topPath t" "warnings (assign t m) = warnings t"
  by (simp_all add: assign_def)

lemma assign_wf_forest:
  assumes "wf_tree t" and "n0 \<in> tree_nodes t" and "node_addr m = node_addr n0"
    and "node_key m = node_key n0" and "node_rp m = node_rp n0"
    and "wf_node (parent_path (node_rp n0)) m"
  shows "wf_forest [] (topContent (assign t m))"
  using put_nodes_wf [OF dir_path_Nil wf_treeD(1,2) [OF assms(1)], of n0 "node_addr m" m] assms(2-6)
  by (simp add: assign_def tree_nodes_def)

lemma assign_elem:
  assumes "wf_tree t" and "n \<in> tree_nodes t" and "rp e' = node_rp n" and "ty e' = ty (elem n)"
  shows "wf_tree (assign t (set_elem e' n))"
    and "tree_entries (assign t (set_elem e' n)) = (tree_entries t)(node_rp n \<mapsto> e')"
proof -
  let ?m = "set_elem e' n" and ?t = "assign t (set_elem e' n)"
  have n: "n \<in> set (nodes_in (topContent t))" using assms(2) by (simp add: tree_nodes_def)
  have dir: "isDirectory e' = isDirectory (elem n)" using assms(4) by (simp add: isDirectory_def)
  have w: "wf_node (parent_path (node_rp n)) ?m"
    using wf_forest_sub(2) [OF dir_path_Nil wf_treeD(1) [OF assms(1)] n] assms(3) dir
    by (simp add: wf_node_iff)
  have f: "wf_forest [] (topContent ?t)"
    using assms(3) dir w
    by (intro assign_wf_forest [OF assms(1,2)]) (simp_all add: node_key_def elem_key_def)
  obtain M where M: "cells_in (topContent t) = add_mset (node_addr n, elem n) M"
    using node_cells_split [OF n] by blast
  have M': "cells_in (topContent ?t) = add_mset (node_addr n, e') M"
    using assign_cells [OF assms(1,2), of ?m] M by (simp add: cells_of_content)
  have "mset (addrs_in (topContent ?t)) = mset (addrs_in (topContent t))"
    unfolding mset_addrs M M' by simp
  then have "distinct (addrs_in (topContent ?t))"
    and "set (addrs_in (topContent ?t)) = set (addrs_in (topContent t))"
    using wf_treeD(2) [OF assms(1)] mset_eq_imp_distinct_iff mset_eq_setD by blast+
  moreover have "index_ok (index ?t) (cells_in (topContent ?t))"
    using wf_treeD(4) [OF assms(1)] assms(3) unfolding index_ok_def M M' by auto
  ultimately show "wf_tree ?t"
    using f assms(1) unfolding wf_tree_def by simp
  show "tree_entries ?t = (tree_entries t)(node_rp n \<mapsto> e')"
  proof (rule option_map_ext)
    fix q x
    have u: "rp y \<noteq> node_rp n" if "(b, y) \<in># M" for b y
      using cells_rp_unique [OF dir_path_Nil wf_treeD(1) [OF assms(1)] M that] .
    show "tree_entries ?t q = Some x \<longleftrightarrow> ((tree_entries t)(node_rp n \<mapsto> e')) q = Some x"
      unfolding tree_entries_def fun_upd_apply
      using forest_entries_cells [OF dir_path_Nil f, of q x]
        forest_entries_cells [OF dir_path_Nil wf_treeD(1) [OF assms(1)], of q x] u assms(3)
      unfolding M M' by auto
  qed
qed

text \<open>A modification that keeps path and type, applied to an entry that exists.\<close>

lemma modify_entry:
  assumes "wf_tree t" and "tree_entries t p = Some e"
    and "\<And>n. op n = set_elem (f (elem n)) n" and "\<And>x. rp (f x) = rp x" and "\<And>x. ty (f x) = ty x"
  shows "\<exists>t'. bindE (searchNode t p w) (\<lambda>n. Inr (assign t (op n))) = Inr t' \<and> wf_tree t' \<and>
    tree_entries t' = (tree_entries t)(p \<mapsto> f e)"
proof -
  obtain n where n: "searchNode t p w = Inr n" "n \<in> tree_nodes t" "node_rp n = p" "elem n = e"
    using searchNode_found [OF assms(1,2)] by metis
  show ?thesis
    using assign_elem [OF assms(1) n(2), of "f e"] n assms(3-5) by simp
qed

lemma modifyPermissionsInTree_entries:
  assumes "wf_tree t" and "tree_entries t p = Some e"
  shows "\<exists>t'. modifyPermissionsInTree t p x = Inr t' \<and> wf_tree t' \<and>
    tree_entries t' = (tree_entries t)(p \<mapsto> e\<lparr>per := x\<rparr>)"
  unfolding modifyPermissionsInTree_def
  by (rule modify_entry [OF assms, where f = "\<lambda>e. e\<lparr>per := x\<rparr>"]) (simp_all add: setPermissions_def)

lemma modifyOwnerInTree_entries:
  assumes "wf_tree t" and "tree_entries t p = Some e"
  shows "\<exists>t'. modifyOwnerInTree t p u g = Inr t' \<and> wf_tree t' \<and>
    tree_entries t' = (tree_entries t)(p \<mapsto> e\<lparr>us := u, gs := g\<rparr>)"
  unfolding modifyOwnerInTree_def
  by (rule modify_entry [OF assms, where f = "\<lambda>e. e\<lparr>us := u, gs := g\<rparr>"]) (simp_all add: setOwner_def)

lemma modifyMtimeInTree_entries:
  assumes "wf_tree t" and "tree_entries t p = Some e"
  shows "\<exists>t'. modifyMtimeInTree t p x = Inr t' \<and> wf_tree t' \<and>
    tree_entries t' = (tree_entries t)(p \<mapsto> e\<lparr>mt := x\<rparr>)"
  unfolding modifyMtimeInTree_def
  by (rule modify_entry [OF assms, where f = "\<lambda>e. e\<lparr>mt := x\<rparr>"]) (simp_all add: setMtime_def)

section \<open>The index\<close>

lemma insertIndex_fresh: "idx p = None \<Longrightarrow> insertIndex p a idx = Inr (idx(p \<mapsto> a))"
  by (simp add: insertIndex_def)

lemma eraseIndex_present: "idx p \<noteq> None \<Longrightarrow> eraseIndex p idx = Inr (idx(p := None))"
  by (simp add: eraseIndex_def)

definition index_of :: "DirectoryNode list \<Rightarrow> path_index" where
  "index_of ns = map_of (map (\<lambda>n. (node_rp n, node_addr n)) ns)"

lemma index_of_simps [simp]:
  "index_of [] = Map.empty"
  "index_of (n # ns) = (index_of ns)(node_rp n \<mapsto> node_addr n)"
  "index_of (ns @ ms) = index_of ms ++ index_of ns"
  by (simp_all add: index_of_def)

lemma dom_index_of: "dom (index_of ns) = node_rp ` set ns"
  by (simp add: index_of_def dom_map_of_conv_image_fst image_image)

lemma index_of_None: "index_of ns p = None \<longleftrightarrow> p \<notin> node_rp ` set ns"
  using dom_index_of [of ns] by blast

lemma leaf_nodes: "(content n \<noteq> [] \<longrightarrow> isDirectory (elem n)) \<Longrightarrow> \<not> isDirectory (elem n) \<Longrightarrow> nodes_of n = [n]"
  by (simp add: nodes_of_eq)

lemma map_add_upd_swap:
  "p \<notin> dom g \<Longrightarrow> f(p \<mapsto> v) ++ g = (f ++ g)(p \<mapsto> v)"
  by (auto simp: map_add_def fun_eq_iff split: option.splits)

text \<open>Adding a subtree whose paths are new, and removing one whose paths are all known.\<close>

lemma recursiveAddToIndex_fresh:
  "distinct (map node_rp (nodes_of n)) \<Longrightarrow> \<forall>m \<in> set (nodes_of n). idx (node_rp m) = None \<Longrightarrow>
     \<forall>m \<in> set (nodes_of n). content m \<noteq> [] \<longrightarrow> isDirectory (elem m) \<Longrightarrow>
     recursiveAddToIndex n idx = Inr (idx ++ index_of (nodes_of n))"
  "distinct (map node_rp (nodes_in c)) \<Longrightarrow> \<forall>m \<in> set (nodes_in c). idx (node_rp m) = None \<Longrightarrow>
     \<forall>m \<in> set (nodes_in c). content m \<noteq> [] \<longrightarrow> isDirectory (elem m) \<Longrightarrow>
     addContentToIndex c idx = Inr (idx ++ index_of (nodes_in c))"
proof (induction n idx and c idx rule: recursiveAddToIndex_addContentToIndex.induct)
  case (1 a e c idx)
  have new: "rp e \<notin> node_rp ` set (nodes_in c)" using 1(2) by simp
  then have ne: "\<forall>m \<in> set (nodes_in c). node_rp m \<noteq> rp e" by (metis imageI)
  have "addContentToIndex c (idx(rp e \<mapsto> a)) = Inr (idx(rp e \<mapsto> a) ++ index_of (nodes_in c))"
    using 1(2-4) ne by (intro 1(1)) auto
  moreover have "rp e \<notin> dom (index_of (nodes_in c))" using new by (simp only: dom_index_of not_False_eq_True)
  moreover have "idx (rp e) = None" using 1(3) by simp
  ultimately show ?case
    by (simp only: recursiveAddToIndex.simps insertIndex_fresh bindE_simps nodes_of.simps
        index_of_simps DirectoryNode.sel map_add_upd_swap map_add_upd simp_thms)
next
  case (2 idx)
  then show ?case by simp
next
  case (3 n ns idx)
  have step: "(if isDirectory (elem n) then recursiveAddToIndex n idx
      else insertIndex (node_rp n) (node_addr n) idx) = Inr (idx ++ index_of (nodes_of n))"
  proof (cases "isDirectory (elem n)")
    case True
    have "recursiveAddToIndex n idx = Inr (idx ++ index_of (nodes_of n))"
      using 3(3-5) by (intro 3(1) [OF True]) auto
    with True show ?thesis by simp
  next
    case False
    then have "nodes_of n = [n]" using 3(5) by (intro leaf_nodes) auto
    then show ?thesis using False 3(4) by (simp add: insertIndex_fresh)
  qed
  have disj: "node_rp ` set (nodes_of n) \<inter> node_rp ` set (nodes_in ns) = {}"
    using 3(3) by simp
  have "addContentToIndex ns (idx ++ index_of (nodes_of n)) =
      Inr ((idx ++ index_of (nodes_of n)) ++ index_of (nodes_in ns))"
  proof (rule 3(2))
    show "\<forall>m \<in> set (nodes_in ns). (idx ++ index_of (nodes_of n)) (node_rp m) = None"
    proof
      fix m assume m: "m \<in> set (nodes_in ns)"
      then have "node_rp m \<notin> node_rp ` set (nodes_of n)" using disj by blast
      moreover have "idx (node_rp m) = None" using 3(4) m by auto
      ultimately show "(idx ++ index_of (nodes_of n)) (node_rp m) = None"
        by (simp only: map_add_None index_of_None simp_thms)
    qed
  qed (use 3(3,5) in simp_all)
  moreover have "index_of (nodes_of n) ++ index_of (nodes_in ns) = index_of (nodes_in ns) ++ index_of (nodes_of n)"
    using disj by (intro map_add_comm) (simp only: dom_index_of)
  ultimately show ?case
    by (simp only: addContentToIndex.simps step bindE_simps list.map concat.simps index_of_simps
        flip: map_add_assoc)
qed

lemma restrict_erase:
  "(idx |` (- A))(p := None) |` (- B) = idx |` (- (insert p A \<union> B))"
  by (auto simp: restrict_map_def fun_eq_iff)

lemma removeContentFromIndex_known:
  "distinct (map node_rp (nodes_in (content n))) \<Longrightarrow>
     \<forall>m \<in> set (nodes_in (content n)). idx (node_rp m) \<noteq> None \<Longrightarrow>
     \<forall>m \<in> set (nodes_in (content n)). content m \<noteq> [] \<longrightarrow> isDirectory (elem m) \<Longrightarrow>
     recursiveRemoveFromIndex n idx = Inr (idx |` (- node_rp ` set (nodes_in (content n))))"
  "distinct (map node_rp (nodes_in c)) \<Longrightarrow> \<forall>m \<in> set (nodes_in c). idx (node_rp m) \<noteq> None \<Longrightarrow>
     \<forall>m \<in> set (nodes_in c). content m \<noteq> [] \<longrightarrow> isDirectory (elem m) \<Longrightarrow>
     removeContentFromIndex c idx = Inr (idx |` (- node_rp ` set (nodes_in c)))"
proof (induction n idx and c idx rule: recursiveRemoveFromIndex_removeContentFromIndex.induct)
  case (1 a e c idx)
  then show ?case by simp
next
  case (2 idx)
  then show ?case by simp
next
  case (3 n ns idx)
  let ?A = "node_rp ` set (nodes_in (content n))" and ?B = "node_rp ` set (nodes_in ns)"
  have of_n: "set (nodes_of n) = insert n (set (nodes_in (content n)))"
    by (simp only: nodes_of_eq [of n] list.set)
  have self: "node_rp n \<notin> ?A" and d: "distinct (map node_rp (nodes_in (content n)))"
    using 3(3) by (simp_all add: nodes_of_eq [of n])
  have disj: "insert (node_rp n) ?A \<inter> ?B = {}" using 3(3) unfolding list.map concat.simps map_append
    distinct_append set_map of_n image_insert by blast
  have step: "(if isDirectory (elem n) then recursiveRemoveFromIndex n idx else Inr idx) =
      Inr (idx |` (- ?A))"
  proof (cases "isDirectory (elem n)")
    case True
    have "recursiveRemoveFromIndex n idx = Inr (idx |` (- ?A))"
      by (rule 3(1) [OF True d]) (use 3(4,5) of_n in auto)
    with True show ?thesis by simp
  next
    case False
    then have "nodes_of n = [n]" using 3(5) by (intro leaf_nodes) auto
    then have "nodes_in (content n) = []" by (simp only: nodes_of_eq [of n] list.inject)
    then show ?thesis using False by (simp add: restrict_map_def)
  qed
  have erase: "eraseIndex (node_rp n) (idx |` (- ?A)) = Inr ((idx |` (- ?A))(node_rp n := None))"
    using 3(4) self by (intro eraseIndex_present) (simp add: restrict_map_def)
  have rest: "removeContentFromIndex ns ((idx |` (- ?A))(node_rp n := None)) =
      Inr ((idx |` (- ?A))(node_rp n := None) |` (- ?B))"
  proof (rule 3(2))
    show "\<forall>m \<in> set (nodes_in ns). ((idx |` (- ?A))(node_rp n := None)) (node_rp m) \<noteq> None"
    proof
      fix m assume m: "m \<in> set (nodes_in ns)"
      then have "node_rp m \<notin> insert (node_rp n) ?A" using disj by blast
      moreover have "idx (node_rp m) \<noteq> None" using 3(4) m by auto
      ultimately show "((idx |` (- ?A))(node_rp n := None)) (node_rp m) \<noteq> None"
        by (simp only: fun_upd_apply restrict_map_def) simp
    qed
  qed (use 3(3,5) in simp_all)
  have "node_rp ` set (nodes_in (n # ns)) = insert (node_rp n) ?A \<union> ?B"
    by (simp add: nodes_of_eq [of n] image_Un)
  then show ?case
    by (simp only: removeContentFromIndex.simps step bindE_simps erase rest restrict_erase)
qed

section \<open>Removal\<close>

lemma deref_index [simp]: "deref (t\<lparr>index := idx\<rparr>) a = deref t a"
  by (simp add: deref_def)

lemma wf_forest_leaf:
  assumes "dir_path p" and "wf_forest p c"
  shows "\<forall>m \<in> set (nodes_in c). content m \<noteq> [] \<longrightarrow> isDirectory (elem m)"
  using wf_forest_sub(2) [OF assms] by (metis wf_node_iff)

lemma cells_of_in: "set_mset (cells_of n) = (\<lambda>n. (node_addr n, elem n)) ` set (nodes_of n)"
  by (simp add: cells_of_def)

lemma cells_of_rps: "(a, x) \<in># cells_of n \<Longrightarrow> rp x \<in> node_rp ` set (nodes_of n)"
  by (auto simp: cells_of_in)

lemma distinct_mset_sub:
  assumes "mset xs \<subseteq># mset ys" and "distinct ys"
  shows "distinct xs"
proof -
  have "count (mset xs) a = (if a \<in> set xs then 1 else 0)" for a
  proof -
    have "count (mset xs) a \<le> count (mset ys) a"
      by (rule mset_subset_eq_count [OF assms(1)])
    also have "\<dots> \<le> 1" using assms(2) by (simp add: distinct_count_atmost_1)
    finally have "count (mset xs) a \<le> 1" .
    moreover have "count (mset xs) a \<noteq> 0" if "a \<in> set xs" using that by simp
    ultimately show ?thesis by (cases "a \<in> set xs") (force simp: le_Suc_eq, simp)
  qed
  then show ?thesis by (simp add: distinct_count_atmost_1)
qed

text \<open>A tree that has lost exactly the subtree of one node, in its content and in its index.\<close>

lemma removed_subtree:
  assumes wf: "wf_tree t" and n: "n \<in> tree_nodes t" and c: "wf_forest [] c"
    and cells: "cells_in c + cells_of n = cells_in (topContent t)"
    and idx: "idx = index t |` (- node_rp ` set (nodes_of n))"
  shows "wf_tree (t\<lparr>topContent := c, index := idx\<rparr>)"
    and "tree_entries (t\<lparr>topContent := c, index := idx\<rparr>) =
      (\<lambda>x. if at_or_below (node_rp n) x then None else tree_entries t x)"
proof -
  note f = wf_treeD(1) [OF wf]
  have disj: "rp x \<notin> node_rp ` set (nodes_of n)" if x: "(b, x) \<in># cells_in c" for b x
  proof
    assume "rp x \<in> node_rp ` set (nodes_of n)"
    then obtain m where "m \<in> set (nodes_of n)" "node_rp m = rp x" by auto
    then obtain a y where y: "(a, y) \<in># cells_of n" "rp y = rp x"
      unfolding cells_of_in by blast
    obtain M where "cells_of n = add_mset (a, y) M" using mset_add [OF y(1)] by blast
    then have "cells_in (topContent t) = add_mset (a, y) (cells_in c + M)"
      using cells by simp
    from cells_rp_unique [OF dir_path_Nil f this, of b x] x y(2) show False by simp
  qed
  have split: "(b, x) \<in># cells_in c \<longleftrightarrow>
      (b, x) \<in># cells_in (topContent t) \<and> rp x \<notin> node_rp ` set (nodes_of n)" for b x
    using disj [of b x] cells_of_rps [of b x n] unfolding cells [symmetric] union_iff by blast
  have "mset (addrs_in c) \<subseteq># mset (addrs_in (topContent t))"
    unfolding mset_addrs cells [symmetric] by simp
  then have "distinct (addrs_in c)" and sub: "set (addrs_in c) \<subseteq> set (addrs_in (topContent t))"
    using wf_treeD(2) [OF wf] distinct_mset_sub set_mset_mono by (blast, fastforce)
  moreover have "index_ok idx (cells_in c)"
    using wf_treeD(4) [OF wf] unfolding idx index_ok_def split by (auto simp: restrict_map_def)
  moreover have "\<forall>a \<in> set (addrs_in c). a < next_addr t"
    using sub wf unfolding wf_tree_def by blast
  ultimately show "wf_tree (t\<lparr>topContent := c, index := idx\<rparr>)"
    using c by (simp add: wf_tree_def)
  have sub_iff: "rp x \<in> node_rp ` set (nodes_of n) \<longleftrightarrow> at_or_below (node_rp n) (rp x)"
    if x: "(b, x) \<in># cells_in (topContent t)" for b x
  proof -
    obtain m where m: "m \<in> set (nodes_in (topContent t))" "elem m = x"
      using x by (auto simp: in_cells_iff)
    have n': "n \<in> set (nodes_in (topContent t))" using n by (simp add: tree_nodes_def)
    show ?thesis
    proof
      assume "rp x \<in> node_rp ` set (nodes_of n)"
      then obtain k where "k \<in> set (nodes_of n)" "rp x = node_rp k" by blast
      then show "at_or_below (node_rp n) (rp x)"
        using wf_node_nodes_of [OF wf_forest_sub(1,2) [OF dir_path_Nil f n']] by simp
    next
      assume "at_or_below (node_rp n) (rp x)"
      then have "m \<in> set (nodes_of n)"
        using at_or_below_subtree [OF dir_path_Nil f n' m(1)] m(2) by simp
      then show "rp x \<in> node_rp ` set (nodes_of n)" using m(2) by blast
    qed
  qed
  have kept: "(b, x) \<in># cells_in c \<longleftrightarrow>
      (b, x) \<in># cells_in (topContent t) \<and> \<not> at_or_below (node_rp n) (rp x)" for b x
    using split [of b x] sub_iff [of b x] by blast
  show "tree_entries (t\<lparr>topContent := c, index := idx\<rparr>) =
      (\<lambda>x. if at_or_below (node_rp n) x then None else tree_entries t x)"
  proof (rule option_map_ext)
    fix q x
    show "tree_entries (t\<lparr>topContent := c, index := idx\<rparr>) q = Some x \<longleftrightarrow>
        (if at_or_below (node_rp n) q then None else tree_entries t q) = Some x"
      using forest_entries_cells [OF dir_path_Nil c, of q x]
        forest_entries_cells [OF dir_path_Nil f, of q x]
      unfolding tree_entries_def kept by auto
  qed
qed

text \<open>Deleting the elements equal to that of one entry deletes exactly this entry.\<close>

lemma filter_entry:
  assumes "wf_forest p c" and "n \<in> set c"
  shows "wf_forest p (filter (\<lambda>e. \<not> elem_eq (elem e) (elem n)) c)"
    and "cells_in (filter (\<lambda>e. \<not> elem_eq (elem e) (elem n)) c) + cells_of n = cells_in c"
proof -
  obtain c1 c2 where c: "c = c1 @ n # c2" using assms(2) by (meson split_list)
  have "node_rp x \<noteq> node_rp n" if "x \<in> set c1 \<union> set c2" for x
    using wf_forestD(2) [OF assms(1)] that unfolding c by (auto simp: image_iff)
  then have "\<not> elem_eq (elem x) (elem n)" if "x \<in> set c1 \<union> set c2" for x
    using that by (auto simp: elem_eq_def)
  then have eq: "filter (\<lambda>e. \<not> elem_eq (elem e) (elem n)) c = c1 @ c2"
    unfolding c by simp
  show "wf_forest p (filter (\<lambda>e. \<not> elem_eq (elem e) (elem n)) c)"
    unfolding eq using assms(1) unfolding c by (auto simp: wf_forest_def sorted_append)
  show "cells_in (filter (\<lambda>e. \<not> elem_eq (elem e) (elem n)) c) + cells_of n = cells_in c"
    unfolding eq unfolding c by (simp add: ac_simps)
qed

lemma removeFromTree_index:
  assumes "wf_tree t" and "n \<in> tree_nodes t"
  shows "(if isDirectory (elem n) then recursiveRemoveFromIndex n (index t) else Inr (index t)) =
    Inr (index t |` (- node_rp ` set (nodes_in (content n))))"
proof -
  have n: "n \<in> set (nodes_in (topContent t))" using assms(2) by (simp add: tree_nodes_def)
  note w = wf_forest_sub [OF dir_path_Nil wf_treeD(1) [OF assms(1)] n]
  have sub: "m \<in> tree_nodes t" if "m \<in> set (nodes_in (content n))" for m
    using nodes_in_trans [OF n] that unfolding tree_nodes_def nodes_of_eq [of n] by auto
  show ?thesis
  proof (cases "isDirectory (elem n)")
    case True
    have "\<forall>m \<in> set (nodes_in (content n)). index t (node_rp m) \<noteq> None"
      using index_node [OF assms(1) sub] by blast
    then show ?thesis
      using True removeContentFromIndex_known(1) [OF distinct_nodes_in [OF w(3,4)] _
          wf_forest_leaf [OF w(3,4)]] by presburger
  next
    case False
    then have "content n = []" using w(2) by (auto simp: wf_node_iff)
    with False show ?thesis by (simp add: restrict_map_def)
  qed
qed

lemma cells_of_set_content: "cells_of (set_content c n) = add_mset (node_addr n, elem n) (cells_in c)"
  by (simp add: set_content_def cells_of_node)

lemma remove_from_directory:
  assumes "wf_tree t" and "k \<in> tree_nodes t" and "n \<in> set (content k)"
  defines "m \<equiv> removeFromDirectoryContent k n"
  shows "wf_forest [] (topContent (assign t m))"
    and "cells_in (topContent (assign t m)) + cells_of n = cells_in (topContent t)"
proof -
  have k: "k \<in> set (nodes_in (topContent t))" using assms(2) by (simp add: tree_nodes_def)
  note wk = wf_forest_sub [OF dir_path_Nil wf_treeD(1) [OF assms(1)] k]
  show "wf_forest [] (topContent (assign t m))"
  proof (rule assign_wf_forest [OF assms(1,2)])
    show "wf_node (parent_path (node_rp k)) m"
      using wk(2) assms(3) filter_entry(1) [OF wk(4) assms(3)]
      by (auto simp: wf_node_iff m_def removeFromDirectoryContent_def)
  qed (simp_all add: m_def removeFromDirectoryContent_def node_key_def)
  have "cells_of m + cells_of n = cells_of k"
    using filter_entry(2) [OF wk(4) assms(3)]
    by (simp add: cells_of_content [of k] cells_of_set_content m_def removeFromDirectoryContent_def)
  moreover have "cells_in (topContent (assign t m)) + cells_of k = cells_in (topContent t) + cells_of m"
    by (rule assign_cells [OF assms(1,2)]) (simp add: m_def removeFromDirectoryContent_def)
  ultimately show "cells_in (topContent (assign t m)) + cells_of n = cells_in (topContent t)"
    by (metis (no_types, lifting) add.assoc add.commute add_right_cancel)
qed

lemma removeFromTree_entries:
  assumes "wf_tree t" and "tree_entries t p = Some e"
  shows "\<exists>t'. removeFromTree t p = Inr t' \<and> wf_tree t' \<and>
    tree_entries t' = (\<lambda>x. if at_or_below p x then None else tree_entries t x) \<and>
    topPath t' = topPath t"
proof -
  obtain n where n: "n \<in> tree_nodes t" "node_rp n = p" "elem n = e"
    using assms wf_tree_entries by blast
  then have n': "n \<in> set (nodes_in (topContent t))" by (simp add: tree_nodes_def)
  define i where "i = index t |` (- node_rp ` set (nodes_in (content n)))"
  have i: "i(p := None) = index t |` (- node_rp ` set (nodes_of n))"
    using n(2) by (auto simp: i_def nodes_of_eq [of n] restrict_map_def fun_eq_iff)
  note ri = removeFromTree_index [OF assms(1) n(1), folded i_def]
  have s: "searchNode t p w = Inr n" for w using searchNode_node [OF assms(1) n(1)] n(2) by simp
  note w = wf_forest_sub [OF dir_path_Nil wf_treeD(1) [OF assms(1)] n']
  consider (top) "n \<in> set (topContent t)" "parent_path p = []"
    | (dir) k where "k \<in> tree_nodes t" "node_rp k = parent_path p" "n \<in> set (content k)"
    using wf_forest_holder [OF dir_path_Nil wf_treeD(1) [OF assms(1)] n'] n(2)
    unfolding tree_nodes_def by blast
  then show ?thesis
  proof cases
    case top
    let ?c = "filter (\<lambda>e. \<not> elem_eq (elem e) (elem n)) (topContent t)"
    have "removeFromTree t p = Inr (t\<lparr>topContent := ?c, index := i(p := None)\<rparr>)"
      using top(2) by (simp add: removeFromTree_def s ri Let_def)
    then show ?thesis
      using removed_subtree [OF assms(1) n(1) filter_entry [OF wf_treeD(1) [OF assms(1)] top(1)] i]
        n(2) by simp
  next
    case dir
    let ?m = "removeFromDirectoryContent k n"
    have k: "k \<in> set (nodes_in (topContent t))" using dir(1) by (simp add: tree_nodes_def)
    note wk = wf_forest_sub [OF dir_path_Nil wf_treeD(1) [OF assms(1)] k]
    have ne: "parent_path p \<noteq> []" using wk(2,1) dir(2) by (metis child_not_Nil wf_node_iff)
    have "below (parent_path p) p" using wf_node_below [OF w(1,2)] n(2) by simp
    then have "\<not> at_or_below p (parent_path p)"
      using below_asym not_below_self by (auto simp: at_or_below_def)
    then have "parent_path p \<notin> node_rp ` set (nodes_in (content n))"
      using wf_forest_below [OF w(3,4)] n(2) by (force simp: at_or_below_def)
    then have sk: "searchNode (t\<lparr>index := i\<rparr>) (parent_path p) [] = Inr k"
      using index_node [OF assms(1) dir(1)] deref_node [OF assms(1) dir(1)] dir(2)
      by (simp add: searchNode_def restrict_map_def i_def)
    note fc = remove_from_directory(1) [OF assms(1) dir(1,3)]
      and cc = remove_from_directory(2) [OF assms(1) dir(1,3)]
    have "removeFromTree t p =
        Inr (t\<lparr>topContent := topContent (assign t ?m), index := i(p := None)\<rparr>)"
      using ne by (simp add: removeFromTree_def s ri Let_def sk assign_def)
    then show ?thesis
      using removed_subtree [OF assms(1) n(1) fc cc i] n(2) by simp
  qed
qed

lemma removeFromTree_missing:
  "wf_tree t \<Longrightarrow> tree_entries t p = None \<Longrightarrow> removeFromTree t p = Inl (Runtime_error
     (''DirectoryTree::searchNode could not find the path '' @ p @ ''. Called from removeFromTree''))"
  by (simp add: removeFromTree_def searchNode_missing)

end
