(* ===== verification/Ddm_Tree_Copy.thy ===== *)
theory Ddm_Tree_Copy
  imports Ddm_Tree_Ops
begin

text \<open>
  \<^verbatim>\<open>DirectoryTree::treeCopy\<close> and \<^verbatim>\<open>copyFromTree\<close> (core.cpp, core.h): a copy keeps the invariant,
  adds a relocated copy of the source subtree in fresh cells, and a copy to the place the source
  has makes the two trees agree at and below its path.
\<close>

section \<open>Copies between trees\<close>

text \<open>A tree that has an entry has all directories above it.\<close>

lemma ancestor_present:
  assumes "dir_path p" and "wf_forest p c" and "m \<in> set (nodes_in c)"
    and "at_or_below r (node_rp m)" and "below p r"
  shows "\<exists>k \<in> set (nodes_in c). node_rp k = r"
  using assms(3,4)
proof (induction "length (node_rp m)" arbitrary: m rule: less_induct)
  case less
  show ?case
  proof (cases "node_rp m = r")
    case True
    then show ?thesis using less.prems(1) by blast
  next
    case False
    note w = wf_forest_sub [OF assms(1,2) less.prems(1)]
    obtain nm where nm: "valid_name nm" "node_rp m = child (parent_path (node_rp m)) nm"
      using w(2) by (auto elim!: wf_nodeE)
    have "below r (node_rp m)" using False less.prems(2) by (simp add: at_or_below_def)
    then have ab: "at_or_below r (parent_path (node_rp m))"
      using below_child_iff [OF w(1) nm(1)] nm(2) by metis
    have "parent_path (node_rp m) \<noteq> p"
      using ab assms(5) below_asym not_below_self by (auto simp: at_or_below_def)
    then obtain k where k: "k \<in> set (nodes_in c)" "node_rp k = parent_path (node_rp m)"
      using wf_forest_holder [OF assms(1,2) less.prems(1)] by blast
    have "length (node_rp k) < length (node_rp m)"
      using below_length [OF wf_node_below [OF w(1,2)]] k(2) by simp
    from less.hyps [OF this k(1)] ab k(2) show ?thesis by simp
  qed
qed

lemma absent_below:
  assumes "wf_tree t" and "tree_entries t r = None" and "r \<noteq> []" and "at_or_below r x"
  shows "tree_entries t x = None"
proof (rule ccontr)
  assume "tree_entries t x \<noteq> None"
  then obtain m where m: "m \<in> tree_nodes t" "node_rp m = x"
    using wf_tree_entries [OF assms(1)] by blast
  have "\<exists>k \<in> tree_nodes t. node_rp k = r"
    using ancestor_present [OF dir_path_Nil wf_treeD(1) [OF assms(1)], of m r] m assms(3,4)
    by (simp add: tree_nodes_def below_def del: set_concat)
  then show False using tree_entries_node [OF assms(1)] assms(2) by fastforce
qed

text \<open>A tree that has gained exactly one forest, in fresh cells and at new paths.\<close>

lemma added_forest:
  assumes wf: "wf_tree t" and c: "wf_forest [] c"
    and cells: "cells_in c = cells_in (topContent t) + cells_in news"
    and fresh: "\<And>a. a \<in> set (addrs_in news) \<Longrightarrow> a \<notin> set (addrs_in (topContent t)) \<and> a < k"
    and da: "distinct (addrs_in news)" and k: "next_addr t \<le> k"
    and absent: "\<And>m. m \<in> set (nodes_in news) \<Longrightarrow> tree_entries t (node_rp m) = None"
    and distinct: "distinct (map node_rp (nodes_in news))"
  defines "t' \<equiv> t\<lparr>topContent := c, next_addr := k, index := index t ++ index_of (nodes_in news)\<rparr>"
  shows "wf_tree t'" and "tree_entries t' = tree_entries t ++ forest_entries news"
proof -
  have old: "a < next_addr t" if "a \<in> set (addrs_in (topContent t))" for a
    using wf that by (simp only: wf_tree_def)
  have "mset (addrs_in c) = mset (addrs_in (topContent t) @ addrs_in news)"
    unfolding mset_addrs cells by (simp add: cells_in_def comp_def flip: mset_map)
  then have "distinct (addrs_in c) \<longleftrightarrow> distinct (addrs_in (topContent t) @ addrs_in news)"
    and sa: "set (addrs_in c) = set (addrs_in (topContent t) @ addrs_in news)"
    using mset_eq_imp_distinct_iff mset_eq_setD by blast+
  moreover have "set (addrs_in (topContent t)) \<inter> set (addrs_in news) = {}" using fresh by blast
  ultimately have "distinct (addrs_in c)"
    using da wf_treeD(2) [OF wf] by (simp only: distinct_append)
  moreover have "\<forall>a \<in> set (addrs_in c). a < k"
    unfolding sa set_append using old fresh k by (meson UnE order_less_le_trans)
  moreover have inew: "index_of (nodes_in news) p = Some a \<longleftrightarrow> (\<exists>e. (a, e) \<in># cells_in news \<and> rp e = p)" for p a
    unfolding index_of_def in_cells_iff
    by (subst map_of_eq_Some_iff) (use distinct in \<open>auto simp: comp_def\<close>)
  have "index_ok (index t ++ index_of (nodes_in news)) (cells_in c)"
    unfolding index_ok_def
  proof (intro allI)
    fix p a
    have "index t p = None" if "(b, e) \<in># cells_in news" "rp e = p" for b e
      using absent that index_None_iff [OF wf] by (auto simp: in_cells_iff)
    then show "(index t ++ index_of (nodes_in news)) p = Some a \<longleftrightarrow> (\<exists>e. (a, e) \<in># cells_in c \<and> rp e = p)"
      using inew [of p] wf_treeD(4) [OF wf] unfolding index_ok_def cells union_iff map_add_Some_iff
      by (metis option.distinct(1) option.exhaust)
  qed
  ultimately show "wf_tree t'" using c by (simp add: wf_tree_def t'_def)
  have fnew: "forest_entries news p = Some e \<longleftrightarrow> (\<exists>a. (a, e) \<in># cells_in news \<and> rp e = p)" for p e
    unfolding forest_entries_def in_cells_iff
    by (subst map_of_eq_Some_iff) (use distinct in \<open>auto simp: comp_def\<close>)
  show "tree_entries t' = tree_entries t ++ forest_entries news"
  proof (rule option_map_ext)
    fix p x
    have "tree_entries t p = None" if "(b, e) \<in># cells_in news" "rp e = p" for b e
      using absent that by (auto simp: in_cells_iff)
    then show "tree_entries t' p = Some x \<longleftrightarrow> (tree_entries t ++ forest_entries news) p = Some x"
      using fnew [of p] forest_entries_cells [OF dir_path_Nil c, of p x]
        forest_entries_cells [OF dir_path_Nil wf_treeD(1) [OF wf], of p x]
      unfolding tree_entries_def cells union_iff map_add_Some_iff t'_def
      by (simp add: ex_disj_distrib conj_disj_distribR) (metis option.distinct(1) option.exhaust)
  qed
qed

lemma added_subtree:
  assumes wf: "wf_tree t" and c: "wf_forest [] c"
    and cells: "cells_in c = cells_in (topContent t) + cells_of new"
    and copies: "fresh_copies q [src] (next_addr t) [new] k"
    and absent: "\<And>m. m \<in> set (nodes_of new) \<Longrightarrow> tree_entries t (node_rp m) = None"
    and distinct: "distinct (map node_rp (nodes_of new))"
  defines "t' \<equiv> t\<lparr>topContent := c, next_addr := k, index := index t ++ index_of (nodes_of new)\<rparr>"
  shows "wf_tree t'" and "tree_entries t' = tree_entries t ++ forest_entries [new]"
proof -
  have fresh: "node_addr ` set (nodes_of new) \<subseteq> {next_addr t..<k}" "distinct (addrs_of new)"
    "next_addr t \<le> k"
    using copies by (simp_all add: fresh_copies_def)
  have old: "a < next_addr t" if "a \<in> set (addrs_in (topContent t))" for a
    using wf that by (simp only: wf_tree_def)
  have "a \<notin> set (addrs_in (topContent t)) \<and> a < k" if "a \<in> set (addrs_in [new])" for a
    using old [of a] fresh(1) that by fastforce
  from added_forest [OF wf c _ this, of "[new]"] fresh(2,3) cells absent distinct
  show "wf_tree t'" and "tree_entries t' = tree_entries t ++ forest_entries [new]"
    by (simp_all add: t'_def)
qed

text \<open>One copy appended to a directory and the directory sorted again.\<close>

lemma path_eq_child:
  "dir_path p \<Longrightarrow> valid_name n \<Longrightarrow> valid_name m \<Longrightarrow> path_eq (child p n) (child p m) \<longleftrightarrow> n = m"
  by (simp add: path_eq_def path_key_child_eq)

lemma wf_forest_insert:
  assumes "wf_forest q c" and "wf_node q new" and "node_rp new \<notin> node_rp ` set c"
  shows "wf_forest q (sort_nodes (c @ [new]))"
proof -
  have "mset (map node_rp (sort_nodes (c @ [new]))) = mset (map node_rp (c @ [new]))"
    by (simp only: mset_map mset_sort_nodes)
  then have "distinct (map node_rp (sort_nodes (c @ [new])))"
    using assms wf_forestD(2) [OF assms(1)] by (simp add: mset_eq_imp_distinct_iff [of _ "map node_rp (c @ [new])"])
  then show ?thesis
    using assms sorted_sort_nodes wf_forestD(3) [OF assms(1)] by (auto simp: wf_forest_def)
qed

lemma addToDirectoryContent_copy:
  assumes "dir_path (node_rp d)" and "isDirectory (elem d)" and "wf_forest (node_rp d) (content d)"
    and "dir_path p" and "wf_node p src"
    and "child (node_rp d) (path_filename (node_rp src)) \<notin> node_rp ` set (content d)"
  shows "\<exists>new k1. addToDirectoryContent d src k =
      Inr (set_content (sort_nodes (content d @ [new])) d, k1, Suc k1) \<and> node_addr new = k1 \<and>
      fresh_copies (node_rp d) [src] k [new] (Suc k1)"
proof -
  let ?nm = "path_filename (node_rp src)"
  have nm: "valid_name ?nm" using assms(5) by (simp add: wf_node_iff)
  have "\<forall>n \<in> set (content d). \<not> path_eq (node_rp n) (child (node_rp d) ?nm)"
  proof
    fix n assume n: "n \<in> set (content d)"
    then obtain m where m: "valid_name m" "node_rp n = child (node_rp d) m"
      using wf_forestD(3) [OF assms(3)] by (auto elim!: wf_nodeE)
    have "m \<noteq> ?nm" using assms(6) n m(2) by (metis imageI)
    then show "\<not> path_eq (node_rp n) (child (node_rp d) ?nm)"
      using path_eq_child [OF assms(1) m(1) nm] m(2) by simp
  qed
  moreover obtain new k1 where
    "recursiveAdd d src k = Inr (set_content (content d @ [new]) d, k1, Suc k1)"
    "node_addr new = k1" "fresh_copies (node_rp d) [src] k [new] (Suc k1)"
    using recursiveAdd_copies(1) [OF assms(1,2,4,5)] by blast
  ultimately show ?thesis
    by (intro exI [of _ new] exI [of _ k1]) (simp add: addToDirectoryContent_def Let_def set_content_def)
qed

lemma fresh_copies_single:
  assumes "fresh_copies q [src] k [new] k'"
  shows "wf_node q new" and "shape new = reloc q (shape src)"
    and "elem new = elementWithPath (elem src) (child q (path_filename (node_rp src)))"
    and "node_rp new = child q (path_filename (node_rp src))"
proof -
  show "wf_node q new" and s: "shape new = reloc q (shape src)"
    using assms by (simp_all add: fresh_copies_def)
  show e: "elem new = elementWithPath (elem src) (child q (path_filename (node_rp src)))"
    using s by (simp add: shape_eq Let_def)
  show "node_rp new = child q (path_filename (node_rp src))"
    unfolding e by (simp add: elementWithPath_def)
qed

text \<open>The loop that fills a copy at the top level keeps the order of the entries.\<close>

lemma addAllToContent_copies:
  assumes "dir_path q" and "dir_path p"
  shows "wf_forest p (ns @ ms) \<Longrightarrow> fresh_copies q ns k0 news k \<Longrightarrow> node_rp d = q \<Longrightarrow>
    content d = news \<Longrightarrow> isDirectory (elem d) \<or> ms = [] \<Longrightarrow>
    \<exists>news' k'. addAllToContent d ms k = Inr (set_content news' d, k') \<and>
      fresh_copies q (ns @ ms) k0 news' k'"
proof (induction ms arbitrary: ns news k d)
  case Nil
  then show ?case
    by (intro exI [of _ news] exI [of _ k]) (auto simp: addAllToContent_def set_content_def)
next
  case (Cons m ms)
  have wm: "wf_node p m" using Cons.prems(1) by (simp add: wf_forest_def)
  have "wf_forest p ns" using Cons.prems(1) by (auto simp: wf_forest_def sorted_append)
  then have wn: "wf_forest q news" by (rule fresh_copies_wf [OF Cons.prems(2) assms])
  have "node_rp new \<notin> node_rp ` set news \<and> sort_nodes (news @ [new]) = news @ [new]"
    if f: "fresh_copies q [m] k [new] k'" for new k'
  proof -
    have "wf_forest p (ns @ [m])" using Cons.prems(1) by (auto simp: wf_forest_def sorted_append)
    then have "wf_forest q (news @ [new])"
      by (rule fresh_copies_wf [OF fresh_copies_append [OF Cons.prems(2) f] assms])
    then show ?thesis using sort_nodes_id [OF wf_forestD(1)] by (auto simp: wf_forest_def)
  qed
  note sorted = this
  have dd: "isDirectory (elem d)" using Cons.prems(5) by simp
  obtain new0 k0' where "fresh_copies q [m] k [new0] k0'"
    using recursiveAdd_copies(1) [OF _ dd assms(2) wm] assms(1) Cons.prems(3) by metis
  then have abs: "child q (path_filename (node_rp m)) \<notin> node_rp ` set news"
    using sorted fresh_copies_single(4) by metis
  obtain new k1 where r: "addToDirectoryContent d m k = Inr (set_content (news @ [new]) d, k1, Suc k1)"
    and f: "fresh_copies q [m] k [new] (Suc k1)"
    using addToDirectoryContent_copy [of d p m k] assms wm wn abs dd Cons.prems(3,4) sorted by metis
  have w: "wf_forest p ((ns @ [m]) @ ms)" using Cons.prems(1) by simp
  obtain news' k' where "addAllToContent (set_content (news @ [new]) d) ms (Suc k1) =
      Inr (set_content news' (set_content (news @ [new]) d), k')"
    "fresh_copies q ((ns @ [m]) @ ms) k0 news' k'"
    using Cons.IH [OF w fresh_copies_append [OF Cons.prems(2) f], of "set_content (news @ [new]) d"]
      Cons.prems(3) dd by auto
  then show ?case using r by (auto simp: addAllToContent_def set_content_def)
qed

section \<open>The two cases of a copy\<close>

lemma deref_distinct:
  assumes "distinct (addrs_in (topContent t))" and "n \<in> set (nodes_in (topContent t))"
  shows "deref t (node_addr n) = Inr n"
proof -
  have "inj_on node_addr (set (nodes_in (topContent t)))"
    using assms(1) by (simp only: distinct_map)
  from find_unique [OF this assms(2)] show ?thesis by (simp add: deref_def)
qed

lemma put_node_in: "a \<in> set (addrs_of n) \<Longrightarrow> m \<in> set (nodes_of (put_node a m n))"
proof (induction n)
  case (DirectoryNode b e c)
  show ?case
  proof (cases "b = a")
    case False
    then obtain x where "x \<in> set c" "a \<in> set (addrs_of x)" using DirectoryNode.prems by auto
    then show ?thesis using DirectoryNode.IH False by auto
  qed simp
qed

lemma assign_in:
  assumes "k \<in> tree_nodes t" and "node_addr m = node_addr k"
  shows "m \<in> tree_nodes (assign t m)"
proof -
  obtain x where "x \<in> set (topContent t)" "k \<in> set (nodes_of x)"
    using assms(1) by (auto simp: tree_nodes_def)
  then have "m \<in> set (nodes_of (put_node (node_addr m) m x))"
    using assms(2) by (intro put_node_in) (auto simp: image_iff)
  with \<open>x \<in> set (topContent t)\<close> show ?thesis by (auto simp: tree_nodes_def assign_def)
qed

text \<open>What a copy of \<open>src\<close> below the directory \<open>q\<close> makes of a tree.\<close>

definition copied ::
  "DirectoryTree \<Rightarrow> path \<Rightarrow> DirectoryNode \<Rightarrow> DirectoryNode \<Rightarrow> DirectoryTree \<Rightarrow> bool" where
  "copied t q src new t' \<longleftrightarrow>
     wf_tree t' \<and> topPath t' = topPath t \<and> wf_node q new \<and> new \<in> tree_nodes t' \<and>
     shape new = reloc q (shape src) \<and> tree_entries t' = tree_entries t ++ forest_entries [new]"

lemma copied_subtree:
  assumes "wf_tree t" and "dir_path q" and "fresh_copies q [src] (next_addr t) [new] k"
    and "tree_entries t (child q (path_filename (node_rp src))) = None"
    and "wf_forest [] c" and "cells_in c = cells_in (topContent t) + cells_of new"
    and "new \<in> set (nodes_in c)"
  shows "recursiveAddToIndex new (index t) = Inr (index t ++ index_of (nodes_of new))"
    and "copied t q src new
      (t\<lparr>topContent := c, next_addr := k, index := index t ++ index_of (nodes_of new)\<rparr>)"
proof -
  note new = fresh_copies_single [OF assms(3)]
  have dist: "distinct (map node_rp (nodes_of new))" by (rule distinct_nodes_of [OF assms(2) new(1)])
  have ne: "node_rp new \<noteq> []" using below_not_Nil [OF wf_node_below [OF assms(2) new(1)]] .
  have absent: "tree_entries t (node_rp m) = None" if "m \<in> set (nodes_of new)" for m
    using absent_below [OF assms(1) _ ne wf_node_nodes_of [OF assms(2) new(1) that]] assms(4) new(4)
    by simp
  have leaf: "\<forall>m \<in> set (nodes_of new). content m \<noteq> [] \<longrightarrow> isDirectory (elem m)"
    using wf_node_sub [OF assms(2) new(1)] by (metis wf_node_iff)
  show "recursiveAddToIndex new (index t) = Inr (index t ++ index_of (nodes_of new))"
    using absent index_None_iff [OF assms(1)] by (intro recursiveAddToIndex_fresh(1) [OF dist _ leaf]) simp
  show "copied t q src new
      (t\<lparr>topContent := c, next_addr := k, index := index t ++ index_of (nodes_of new)\<rparr>)"
    using added_subtree [OF assms(1,5,6,3) absent dist] new(1,2) assms(7)
    by (simp add: copied_def tree_nodes_def)
qed

text \<open>Below a directory of the tree.\<close>

lemma insert_in_directory:
  assumes "wf_tree t" and "dst \<in> tree_nodes t" and "isDirectory (elem dst)"
    and "wf_node (node_rp dst) new" and "node_rp new \<notin> node_rp ` set (content dst)"
  defines "m \<equiv> set_content (sort_nodes (content dst @ [new])) dst"
  shows "wf_forest [] (topContent (assign t m))"
    and "cells_in (topContent (assign t m)) = cells_in (topContent t) + cells_of new"
    and "new \<in> set (nodes_in (topContent (assign t m)))"
proof -
  have dstn: "dst \<in> set (nodes_in (topContent t))" using assms(2) by (simp add: tree_nodes_def)
  note wd = wf_forest_sub [OF dir_path_Nil wf_treeD(1) [OF assms(1)] dstn]
  show "wf_forest [] (topContent (assign t m))"
  proof (rule assign_wf_forest [OF assms(1,2)])
    show "wf_node (parent_path (node_rp dst)) m"
      using wd(2) wf_forest_insert [OF wd(4) assms(4,5)] assms(3) by (simp add: wf_node_iff m_def)
  qed (simp_all add: node_key_def m_def)
  have "cells_of m = cells_of dst + cells_of new"
    using cells_in_mset [OF mset_sort_nodes, of "content dst @ [new]"]
    by (simp add: cells_of_set_content cells_of_content [of dst] m_def)
  then show "cells_in (topContent (assign t m)) = cells_in (topContent t) + cells_of new"
    using assign_cells [OF assms(1,2), of m] by (simp add: ac_simps m_def)
  show "new \<in> set (nodes_in (topContent (assign t m)))"
    using content_in_nodes_in [of m _ new] assign_in [OF assms(2), of m]
    by (simp add: tree_nodes_def m_def del: set_concat)
qed

lemma treeCopy_directory:
  assumes "wf_tree t" and "wf_tree s" and "src \<in> tree_nodes s" and "dst \<in> tree_nodes t"
    and "isDirectory (elem dst)"
    and "tree_entries t (child (node_rp dst) (path_filename (node_rp src))) = None"
  shows "\<exists>t' new. treeCopy t s (node_rp src) (node_rp dst) = Inr (t', src, new) \<and>
    copied t (node_rp dst) src new t'"
proof -
  have srcn: "src \<in> set (nodes_in (topContent s))" and dstn: "dst \<in> set (nodes_in (topContent t))"
    using assms(3,4) by (simp_all add: tree_nodes_def)
  note ws = wf_forest_sub [OF dir_path_Nil wf_treeD(1) [OF assms(2)] srcn]
    and wd = wf_forest_sub [OF dir_path_Nil wf_treeD(1) [OF assms(1)] dstn]
  have ne: "node_rp dst \<noteq> []" using below_not_Nil [OF wf_node_below [OF wd(1,2)]] .
  have abs: "child (node_rp dst) (path_filename (node_rp src)) \<notin> node_rp ` set (content dst)"
  proof
    assume "child (node_rp dst) (path_filename (node_rp src)) \<in> node_rp ` set (content dst)"
    then obtain x where "x \<in> set (content dst)"
      "node_rp x = child (node_rp dst) (path_filename (node_rp src))" by (metis imageE)
    then show False
      using tree_entries_node [OF assms(1)] content_in_nodes_in [OF dstn] assms(6)
      by (metis option.distinct(1) tree_nodes_def)
  qed
  obtain new k where a: "addToDirectoryContent dst src (next_addr t) =
      Inr (set_content (sort_nodes (content dst @ [new])) dst, k, Suc k)" "node_addr new = k"
    and f: "fresh_copies (node_rp dst) [src] (next_addr t) [new] (Suc k)"
    using addToDirectoryContent_copy [OF wd(3) assms(5) wd(4) ws(1,2) abs] by metis
  let ?m = "set_content (sort_nodes (content dst @ [new])) dst"
  note new = fresh_copies_single [OF f]
  note ins = insert_in_directory [OF assms(1,4,5) new(1) abs [folded new(4)]]
    and new_in = insert_in_directory(3) [OF assms(1,4,5) new(1) abs [folded new(4)]]
  note cs = copied_subtree [OF assms(1) wd(3) f assms(6) ins]
  have "distinct (addrs_in (topContent (assign t ?m)))"
    using cs(2) wf_treeD(2) by (fastforce simp: copied_def)
  then have "deref ((assign t ?m)\<lparr>next_addr := Suc k\<rparr>) k = Inr new"
    using deref_distinct [of "(assign t ?m)\<lparr>next_addr := Suc k\<rparr>" new] new_in a(2) by simp
  then have "treeCopy t s (node_rp src) (node_rp dst) = Inr (t\<lparr>topContent := topContent (assign t ?m),
      next_addr := Suc k, index := index t ++ index_of (nodes_of new)\<rparr>, src, new)"
    using ne assms(5) a(1) cs(1) searchNode_node [OF assms(2,3)] searchNode_node [OF assms(1,4)]
    by (simp add: treeCopy_def Let_def)
  then show ?thesis using cs(2) by blast
qed

text \<open>At the top level.\<close>

lemma top_level_copy:
  assumes "dir_path p" and "wf_node p src"
  defines "nm \<equiv> path_filename (node_rp src)"
  shows "\<exists>news k'. addAllToContent (DirectoryNode 0 (elementWithPath (elem src) nm) []) (content src) k =
      Inr (DirectoryNode 0 (elementWithPath (elem src) nm) news, k') \<and>
      fresh_copies [] [src] k [DirectoryNode k' (elementWithPath (elem src) nm) news] (Suc k')"
proof -
  let ?d = "DirectoryNode 0 (elementWithPath (elem src) nm) []"
  have nm: "valid_name nm" and leaf: "content src \<noteq> [] \<longrightarrow> isDirectory (elem src)"
    and ws: "dir_path (node_rp src)" "wf_forest (node_rp src) (content src)"
    using assms(2) wf_node_dir_path [OF assms(1,2)] by (simp_all add: wf_node_iff nm_def)
  have child: "child [] nm = nm" using nm by (simp add: child_eq)
  have dn: "dir_path nm" using dir_path_child [OF dir_path_Nil nm] child by simp
  have "\<exists>news' k'. addAllToContent ?d (content src) k = Inr (set_content news' ?d, k') \<and>
      fresh_copies nm ([] @ content src) k news' k'"
    using ws leaf dn by (intro addAllToContent_copies [OF _ ws(1)])
      (auto simp: fresh_copies_Nil elementWithPath_def isDirectory_def)
  then obtain news k' where r: "addAllToContent ?d (content src) k = Inr (set_content news ?d, k')"
    and f: "fresh_copies nm (content src) k news k'" by auto
  have "length news = length (content src)" using f by (metis fresh_copies_def length_map)
  then have "wf_node [] (DirectoryNode k' (elementWithPath (elem src) nm) news)"
    using nm child fresh_copies_wf [OF f dn ws] leaf
    by (auto simp: wf_node_iff elementWithPath_def isDirectory_def path_filename_name)
  then have "fresh_copies [] [src] k [DirectoryNode k' (elementWithPath (elem src) nm) news] (Suc k')"
    using fresh_copies_wrap [of "[]" "elem src" "content src" k news k' "node_addr src"] f child
    by (simp add: nm_def)
  then show ?thesis using r by (auto simp: set_content_def)
qed

lemma treeCopy_top:
  assumes "wf_tree t" and "wf_tree s" and "src \<in> tree_nodes s"
    and "tree_entries t (path_filename (node_rp src)) = None"
  shows "\<exists>t' new. treeCopy t s (node_rp src) [] = Inr (t', src, new) \<and> copied t [] src new t'"
proof -
  let ?nm = "path_filename (node_rp src)"
  have srcn: "src \<in> set (nodes_in (topContent s))" using assms(3) by (simp add: tree_nodes_def)
  note ws = wf_forest_sub [OF dir_path_Nil wf_treeD(1) [OF assms(2)] srcn]
  have nm: "valid_name ?nm" using ws(2) by (simp add: wf_node_iff)
  have child: "child [] ?nm = ?nm" using nm by (simp add: child_eq)
  have abs: "?nm \<notin> node_rp ` set (topContent t)"
  proof
    assume "?nm \<in> node_rp ` set (topContent t)"
    then obtain x where x: "x \<in> set (topContent t)" "node_rp x = ?nm" by (metis imageE)
    then have "x \<in> tree_nodes t" using in_nodes_in by (simp only: tree_nodes_def)
    from tree_entries_node [OF assms(1) this] x(2) assms(4) show False by simp
  qed
  have check: "\<forall>n \<in> set (topContent t). \<not> path_eq (node_rp n) ?nm"
  proof
    fix n assume n: "n \<in> set (topContent t)"
    then obtain m where m: "valid_name m" "node_rp n = child [] m"
      using wf_forestD(3) [OF wf_treeD(1) [OF assms(1)]] by (auto elim!: wf_nodeE)
    have "m \<noteq> ?nm" using abs n m(2) child by (metis imageI)
    then show "\<not> path_eq (node_rp n) ?nm"
      using path_eq_child [OF dir_path_Nil m(1) nm] m(2) child by simp
  qed
  obtain news k where r: "addAllToContent (DirectoryNode 0 (elementWithPath (elem src) ?nm) [])
      (content src) (next_addr t) = Inr (DirectoryNode 0 (elementWithPath (elem src) ?nm) news, k)"
    and fn: "fresh_copies [] [src] (next_addr t) [DirectoryNode k (elementWithPath (elem src) ?nm) news] (Suc k)"
    using top_level_copy [OF ws(1,2)] by blast
  define new where "new = DirectoryNode k (elementWithPath (elem src) ?nm) news"
  let ?c = "sort_nodes (topContent t @ [new])"
  note fn = fn [folded new_def]
  have "wf_forest [] ?c"
    using abs by (intro wf_forest_insert [OF wf_treeD(1) [OF assms(1)] fresh_copies_single(1) [OF fn]])
      (simp add: elementWithPath_def new_def)
  moreover have "cells_in ?c = cells_in (topContent t) + cells_of new"
    using cells_in_mset [OF mset_sort_nodes, of "topContent t @ [new]"] by simp
  moreover have "new \<in> set (nodes_in ?c)" by (rule in_nodes_in) simp
  ultimately have cs: "recursiveAddToIndex new (index t) = Inr (index t ++ index_of (nodes_of new))"
    "copied t [] src new (t\<lparr>topContent := ?c, next_addr := Suc k, index := index t ++ index_of (nodes_of new)\<rparr>)"
    using copied_subtree [OF assms(1) dir_path_Nil fn] assms(4) child by simp_all
  have "place_at k (DirectoryNode 0 (elementWithPath (elem src) ?nm) news) = new"
    by (simp add: place_at_def new_def)
  then have "treeCopy t s (node_rp src) [] = Inr (t\<lparr>topContent := ?c, next_addr := Suc k,
      index := index t ++ index_of (nodes_of new)\<rparr>, src, new)"
    using searchNode_node [OF assms(2,3)] nm check r cs(1)
    by (simp add: treeCopy_def Let_def valid_nameD(1))
  then show ?thesis using cs(2) by blast
qed

section \<open>Copies to the same place\<close>

lemma subtree_entries:
  assumes "wf_tree s" and "n \<in> tree_nodes s"
  shows "forest_entries [n] = (\<lambda>x. if at_or_below (node_rp n) x then tree_entries s x else None)"
proof (rule option_map_ext)
  fix x e
  have nn: "n \<in> set (nodes_in (topContent s))" using assms(2) by (simp add: tree_nodes_def)
  note f = wf_treeD(1) [OF assms(1)]
  note w = wf_forest_sub [OF dir_path_Nil f nn]
  have "wf_forest (parent_path (node_rp n)) [n]" using w(2) by (simp add: wf_forest_def)
  from forest_entries_iff [OF w(1) this, of x e]
  have "forest_entries [n] x = Some e \<longleftrightarrow> (\<exists>m \<in> set (nodes_of n). node_rp m = x \<and> elem m = e)"
    by simp
  also have "\<dots> \<longleftrightarrow> (\<exists>m \<in> tree_nodes s. at_or_below (node_rp n) x \<and> node_rp m = x \<and> elem m = e)"
    using nodes_in_trans [OF nn] wf_node_nodes_of [OF w(1,2)]
      at_or_below_subtree [OF dir_path_Nil f nn] unfolding tree_nodes_def by blast
  also have "\<dots> \<longleftrightarrow> (if at_or_below (node_rp n) x then tree_entries s x else None) = Some e"
    using wf_tree_entries [OF assms(1), of x e] by auto
  finally show "forest_entries [n] x = Some e \<longleftrightarrow>
      (if at_or_below (node_rp n) x then tree_entries s x else None) = Some e" .
qed

text \<open>
  A copy of a path that the tree does not have, into the directory that the path has in both
  trees, makes the trees agree at and below the path and changes nothing else.
\<close>

lemma treeCopy_entries:
  assumes "wf_tree t" and "wf_tree s" and "tree_entries s p = Some e" and "tree_entries t p = None"
    and "parent_path p = [] \<or> (\<exists>d. tree_entries t (parent_path p) = Some d \<and> isDirectory d)"
  shows "\<exists>t' src new. treeCopy t s p (parent_path p) = Inr (t', src, new) \<and>
    src \<in> tree_nodes s \<and> node_rp src = p \<and> elem new = elem src \<and> wf_tree t' \<and> topPath t' = topPath t \<and>
    tree_entries t' = (\<lambda>x. if at_or_below p x then tree_entries s x else tree_entries t x)"
proof -
  obtain src where src: "src \<in> tree_nodes s" "node_rp src = p"
    using wf_tree_entries [OF assms(2)] assms(3) by blast
  have srcn: "src \<in> set (nodes_in (topContent s))" using src(1) by (simp add: tree_nodes_def)
  note ws = wf_forest_sub [OF dir_path_Nil wf_treeD(1) [OF assms(2)] srcn]
  have p: "child (parent_path p) (path_filename p) = p"
    using ws(2) src(2) by (simp add: wf_node_iff)
  have ne: "p \<noteq> []" using below_not_Nil [OF wf_node_below [OF ws(1,2)]] src(2) by simp
  have "\<exists>t' new. treeCopy t s p (parent_path p) = Inr (t', src, new) \<and> copied t (parent_path p) src new t'"
  proof (cases "parent_path p = []")
    case True
    then have "path_filename p = p"
      using p ws(2) src(2) by (metis child_eq dir_path_Nil wf_node_iff)
    then show ?thesis using treeCopy_top [OF assms(1,2) src(1)] assms(4) src(2) True by simp
  next
    case False
    then obtain d where "tree_entries t (parent_path p) = Some d" "isDirectory d" using assms(5) by blast
    then obtain dst where "dst \<in> tree_nodes t" "node_rp dst = parent_path p" "isDirectory (elem dst)"
      using wf_tree_entries [OF assms(1)] by auto
    then show ?thesis using treeCopy_directory [OF assms(1,2) src(1), of dst] assms(4) src(2) p by simp
  qed
  then obtain t' new where t': "treeCopy t s p (parent_path p) = Inr (t', src, new)"
    and c: "copied t (parent_path p) src new t'" by blast
  have sh: "shape new = shape src"
    using c reloc_id [OF ws(1,2)] src(2) by (simp add: copied_def)
  then have el: "elem new = elem src" by (cases new; cases src) simp
  from sh have "forest_entries [new] = forest_entries [src]" by (intro forest_entries_shape) simp
  then have "tree_entries t' = tree_entries t ++ (\<lambda>x. if at_or_below p x then tree_entries s x else None)"
    using c subtree_entries [OF assms(2) src(1)] src(2) by (simp add: copied_def)
  also have "\<dots> = (\<lambda>x. if at_or_below p x then tree_entries s x else tree_entries t x)"
    using absent_below [OF assms(1,4) ne] by (auto simp: map_add_def fun_eq_iff split: option.splits)
  finally show ?thesis using t' c src el by (simp add: copied_def)
qed

lemma copyFromTree_entries:
  assumes "wf_tree t" and "wf_tree s" and "tree_entries s p = Some e" and "tree_entries t p = None"
    and "parent_path p = [] \<or> (\<exists>d. tree_entries t (parent_path p) = Some d \<and> isDirectory d)"
  shows "\<exists>t'. copyFromTree t s p (parent_path p) = Inr t' \<and> wf_tree t' \<and> topPath t' = topPath t \<and>
    tree_entries t' = (\<lambda>x. if at_or_below p x then tree_entries s x else tree_entries t x)"
  using treeCopy_entries [OF assms] by (auto simp: copyFromTree_def)

end
