(* ===== verification/Ddm_Clock.thy ===== *)
theory Ddm_Clock
  imports Ddm_Stream
begin

text \<open>
  The calendar functions of the C and C++ library behind the modification time of a metadata
  line: \<^verbatim>\<open>gmtime_r\<close> and \<^verbatim>\<open>timegm\<close> on the proleptic Gregorian calendar,
  \<^verbatim>\<open>put_time\<close> with the format \<^verbatim>\<open>%F %T +0000\<close> and \<^verbatim>\<open>get_time\<close> with the format
  \<^verbatim>\<open>%Y-%m-%d %T\<close>. The main result is that a time in the years 1000 to 9999 is read back as
  it was printed.
\<close>

section \<open>Broken-down time\<close>

record tm =
  tm_year :: int
  tm_mon :: int
  tm_mday :: int
  tm_hour :: int
  tm_min :: int
  tm_sec :: int

text \<open>
  Years start in March here, so that a leap day is the last day of its year. Days are counted
  from 1970-01-01; day 11017 is 2000-03-01, the start of a cycle of 400 years.
\<close>

definition march_days :: "int \<Rightarrow> int \<Rightarrow> int \<Rightarrow> int" where
  "march_days y mp d =
     365 * y + y div 4 - y div 100 + y div 400 + (153 * mp + 2) div 5 + (d - 1) - 719468"

definition timegm :: "tm \<Rightarrow> int" where
  "timegm t =
     (let m = tm_mon t + 1; y = tm_year t + 1900 - (if m \<le> 2 then 1 else 0)
      in 86400 * march_days y ((m + 9) mod 12) (tm_mday t)
         + 3600 * tm_hour t + 60 * tm_min t + tm_sec t)"

definition march_year :: "int \<Rightarrow> int \<times> int" where
  "march_year days =
     (let z = days - 11017; qc = z div 146097; r1 = z mod 146097;
          c = min 3 (r1 div 36524); r2 = r1 - 36524 * c;
          q = min 24 (r2 div 1461); r3 = r2 - 1461 * q;
          y = min 3 (r3 div 365); doy = r3 - 365 * y
      in (2000 + 400 * qc + 100 * c + 4 * q + y, doy))"

definition gmtime :: "int \<Rightarrow> tm" where
  "gmtime t =
     (let days = t div 86400; s = t mod 86400; (y, doy) = march_year days;
          mp = (5 * doy + 2) div 153; d = doy - (153 * mp + 2) div 5 + 1;
          m = (if mp < 10 then mp + 3 else mp - 9)
      in \<lparr>tm_year = y + (if m \<le> 2 then 1 else 0) - 1900, tm_mon = m - 1, tm_mday = d,
          tm_hour = s div 3600, tm_min = s div 60 mod 60, tm_sec = s mod 60\<rparr>)"

definition calendar_year :: "int \<Rightarrow> int" where
  "calendar_year t = tm_year (gmtime t) + 1900"

section \<open>Printing and scanning\<close>

definition pad2 :: "int \<Rightarrow> string" where
  "pad2 n = [digit_char (nat n div 10), digit_char (nat n mod 10)]"

text \<open>\<^verbatim>\<open>put_time\<close> with \<^verbatim>\<open>%F %T\<close>; the zone is printed as a literal.\<close>

definition put_date_time :: "tm \<Rightarrow> string" where
  "put_date_time t =
     to_string (tm_year t + 1900) @ ''-'' @ pad2 (tm_mon t + 1) @ ''-'' @ pad2 (tm_mday t) @ '' '' @
     pad2 (tm_hour t) @ '':'' @ pad2 (tm_min t) @ '':'' @ pad2 (tm_sec t)"

definition put_time :: "tm \<Rightarrow> string" where
  "put_time t = put_date_time t @ '' +0000''"

text \<open>A numeric field of \<^verbatim>\<open>get_time\<close>: exactly its width in digits, with a value in range.\<close>

definition read_field :: "nat \<Rightarrow> nat \<Rightarrow> nat \<Rightarrow> string \<Rightarrow> (int \<times> string) option" where
  "read_field w lo hi s =
     (let ds = take w s; n = nat_of_digits ds
      in if length ds = w \<and> (\<forall>c \<in> set ds. is_digit c) \<and> lo \<le> n \<and> n \<le> hi
         then Some (int n, drop w s) else None)"

definition expect :: "char \<Rightarrow> string \<Rightarrow> string option" where
  "expect c s = (case s of [] \<Rightarrow> None | d # t \<Rightarrow> if d = c then Some t else None)"

text \<open>The blank of the format matches any white space, but not the end of the input.\<close>

definition expect_blank :: "string \<Rightarrow> string option" where
  "expect_blank s = (if s = [] then None else Some (skip_ws s))"

definition get_time :: "string \<Rightarrow> (tm \<times> string) option" where
  "get_time s0 =
     Option.bind (read_field 4 0 9999 (skip_ws s0)) (\<lambda>(y, s1).
     Option.bind (expect CHR ''-'' s1) (\<lambda>s2.
     Option.bind (read_field 2 1 12 s2) (\<lambda>(m, s3).
     Option.bind (expect CHR ''-'' s3) (\<lambda>s4.
     Option.bind (read_field 2 1 31 s4) (\<lambda>(d, s5).
     Option.bind (expect_blank s5) (\<lambda>s6.
     Option.bind (read_field 2 0 23 s6) (\<lambda>(h, s7).
     Option.bind (expect CHR '':'' s7) (\<lambda>s8.
     Option.bind (read_field 2 0 59 s8) (\<lambda>(mi, s9).
     Option.bind (expect CHR '':'' s9) (\<lambda>s10.
     Option.bind (read_field 2 0 60 s10) (\<lambda>(se, s11).
       Some (\<lparr>tm_year = y - 1900, tm_mon = m - 1, tm_mday = d, tm_hour = h, tm_min = mi,
              tm_sec = se\<rparr>, s11))))))))))))"

section \<open>The calendar inverts\<close>

lemma capped_div:
  fixes k m r b :: int
  assumes "0 < k" and "0 \<le> m" and "0 \<le> r" and "r \<le> b" and "k - 1 \<le> b - k * m"
  defines "c \<equiv> min m (r div k)"
  shows "0 \<le> c" "c \<le> m" "0 \<le> r - k * c" "r - k * c \<le> b - k * m"
proof -
  have d: "0 \<le> r div k" using assms(1,3) by (simp add: pos_imp_zdiv_nonneg_iff)
  have r: "r = k * (r div k) + r mod k" "0 \<le> r mod k" "r mod k < k"
    using assms(1) by simp_all
  show "0 \<le> c" "c \<le> m" using d assms(2) by (simp_all add: c_def)
  have "0 \<le> r - k * c \<and> r - k * c \<le> b - k * m"
  proof (cases "r div k \<le> m")
    case True
    then have "r - k * c = r mod k" by (simp add: c_def minus_mult_div_eq_mod)
    then show ?thesis using r assms(5) by linarith
  next
    case False
    then have "c = m" by (simp add: c_def)
    moreover have "k * m \<le> k * (r div k)" using False assms(1) by simp
    ultimately show ?thesis using r assms(4) by (simp, linarith)
  qed
  then show "0 \<le> r - k * c" "r - k * c \<le> b - k * m" by simp_all
qed

lemma march_year_parts:
  obtains qc c q y where
    "march_year days = (2000 + 400 * qc + 100 * c + 4 * q + y,
       days - 11017 - 146097 * qc - 36524 * c - 1461 * q - 365 * y)"
    and "0 \<le> c" "c \<le> 3" "0 \<le> q" "q \<le> 24" "0 \<le> y" "y \<le> 3"
    and "0 \<le> days - 11017 - 146097 * qc - 36524 * c - 1461 * q - 365 * y"
    and "days - 11017 - 146097 * qc - 36524 * c - 1461 * q - 365 * y \<le> 365"
proof -
  define z where "z = days - 11017"
  define qc where "qc = z div 146097"
  define r1 where "r1 = z mod 146097"
  define c where "c = min 3 (r1 div 36524)"
  define r2 where "r2 = r1 - 36524 * c"
  define q where "q = min 24 (r2 div 1461)"
  define r3 where "r3 = r2 - 1461 * q"
  define y where "y = min 3 (r3 div 365)"
  have r1: "0 \<le> r1" "r1 < 146097" and zq: "z = 146097 * qc + r1"
    by (simp_all add: r1_def qc_def)
  have c: "0 \<le> c" "c \<le> 3" "0 \<le> r2" "r2 \<le> 36524"
    using capped_div [of 36524 3 r1 146096] r1 by (simp_all add: r2_def c_def)
  have q: "0 \<le> q" "q \<le> 24" "0 \<le> r3" "r3 \<le> 1460"
    using capped_div [of 1461 24 r2 36524] c(3,4) by (simp_all add: r3_def q_def)
  have y: "0 \<le> y" "y \<le> 3" "0 \<le> r3 - 365 * y" "r3 - 365 * y \<le> 365"
    using capped_div [of 365 3 r3 1460] q(3,4) by (simp_all add: y_def)
  have doy: "r3 - 365 * y = days - 11017 - 146097 * qc - 36524 * c - 1461 * q - 365 * y"
    using zq by (simp add: r3_def r2_def z_def)
  have "march_year days = (2000 + 400 * qc + 100 * c + 4 * q + y, r3 - 365 * y)"
    unfolding march_year_def Let_def
    by (simp only: flip: z_def qc_def r1_def c_def r2_def q_def r3_def y_def)
  then show ?thesis using that c(1,2) q(1,2) y doy by metis
qed

lemma march_days_year:
  assumes "march_year days = (y, doy)"
  shows "365 * y + y div 4 - y div 100 + y div 400 + doy - 719468 = days" "0 \<le> doy" "doy \<le> 365"
proof -
  obtain qc c q k where e: "march_year days = (2000 + 400 * qc + 100 * c + 4 * q + k,
       days - 11017 - 146097 * qc - 36524 * c - 1461 * q - 365 * k)"
    and b: "0 \<le> c" "c \<le> 3" "0 \<le> q" "q \<le> 24" "0 \<le> k" "k \<le> 3"
    and d: "0 \<le> days - 11017 - 146097 * qc - 36524 * c - 1461 * q - 365 * k"
           "days - 11017 - 146097 * qc - 36524 * c - 1461 * q - 365 * k \<le> 365"
    by (rule march_year_parts)
  have y: "y = 2000 + 400 * qc + 100 * c + 4 * q + k"
    and doy: "doy = days - 11017 - 146097 * qc - 36524 * c - 1461 * q - 365 * k"
    using e assms by auto
  have "y div 4 = 500 + 100 * qc + 25 * c + q"
    by (rule int_div_pos_eq [where r = k]) (use y b in simp_all)
  moreover have "y div 100 = 20 + 4 * qc + c"
    by (rule int_div_pos_eq [where r = "4 * q + k"]) (use y b in simp_all)
  moreover have "y div 400 = 5 + qc"
    by (rule int_div_pos_eq [where r = "100 * c + 4 * q + k"]) (use y b in simp_all)
  ultimately show "365 * y + y div 4 - y div 100 + y div 400 + doy - 719468 = days"
    using y doy by simp
  show "0 \<le> doy" "doy \<le> 365" using d doy by simp_all
qed

lemma day_of_year:
  fixes doy :: int
  assumes "0 \<le> doy" and "doy \<le> 365"
  defines "mp \<equiv> (5 * doy + 2) div 153"
  defines "d \<equiv> doy - (153 * mp + 2) div 5 + 1"
  shows "0 \<le> mp" "mp \<le> 11" "1 \<le> d" "d \<le> 31"
proof -
  define w where "w = (153 * mp + 2) div 5"
  have m: "5 * doy + 2 = 153 * mp + (5 * doy + 2) mod 153"
    "0 \<le> (5 * doy + 2) mod 153" "(5 * doy + 2) mod 153 < 153"
    by (simp_all add: mp_def)
  have v: "153 * mp + 2 = 5 * w + (153 * mp + 2) mod 5"
    "0 \<le> (153 * mp + 2) mod 5" "(153 * mp + 2) mod 5 < 5"
    by (simp_all add: w_def)
  have dw: "d = doy - w + 1" by (simp add: d_def w_def)
  show "0 \<le> mp" "mp \<le> 11" using m assms(1,2) by linarith+
  show "1 \<le> d" "d \<le> 31" using m v dw by linarith+
qed

lemma seconds_of_day:
  "3600 * (s div 3600) + 60 * (s div 60 mod 60) + s mod 60 = (s :: int)"
proof -
  have "s div 3600 = s div 60 div 60" by (simp add: div_mult2_eq [symmetric])
  moreover have "s div 60 = 60 * (s div 60 div 60) + s div 60 mod 60" by simp
  moreover have "s = 60 * (s div 60) + s mod 60" by simp
  ultimately show ?thesis by linarith
qed

lemma gmtime_parts:
  obtains y mp d m where
    "gmtime t = \<lparr>tm_year = y + (if m \<le> 2 then 1 else 0) - 1900, tm_mon = m - 1, tm_mday = d,
       tm_hour = t mod 86400 div 3600, tm_min = t mod 86400 div 60 mod 60,
       tm_sec = t mod 86400 mod 60\<rparr>"
    and "march_days y mp d = t div 86400" and "(m + 9) mod 12 = mp"
    and "1 \<le> m" "m \<le> 12" "1 \<le> d" "d \<le> 31"
proof -
  obtain y doy where yd: "march_year (t div 86400) = (y, doy)" by fastforce
  note md = march_days_year [OF yd]
  define mp where "mp = (5 * doy + 2) div 153"
  define d where "d = doy - (153 * mp + 2) div 5 + 1"
  define m where "m = (if mp < 10 then mp + 3 else mp - 9)"
  have mp: "0 \<le> mp" "mp \<le> 11" "1 \<le> d" "d \<le> 31"
    using day_of_year [OF md(2,3)] unfolding mp_def d_def by blast+
  have "gmtime t = \<lparr>tm_year = y + (if m \<le> 2 then 1 else 0) - 1900, tm_mon = m - 1, tm_mday = d,
       tm_hour = t mod 86400 div 3600, tm_min = t mod 86400 div 60 mod 60,
       tm_sec = t mod 86400 mod 60\<rparr>"
    unfolding gmtime_def yd Let_def by (simp only: mp_def d_def m_def prod.case)
  moreover have "march_days y mp d = t div 86400"
    using md(1) by (simp add: march_days_def d_def)
  moreover have "(m + 9) mod 12 = mp" "1 \<le> m" "m \<le> 12"
    using mp by (simp_all add: m_def)
  ultimately show ?thesis using that mp(3,4) by blast
qed

lemma timegm_gmtime: "timegm (gmtime t) = t"
proof -
  obtain y mp d m where g: "gmtime t = \<lparr>tm_year = y + (if m \<le> 2 then 1 else 0) - 1900,
      tm_mon = m - 1, tm_mday = d, tm_hour = t mod 86400 div 3600,
      tm_min = t mod 86400 div 60 mod 60, tm_sec = t mod 86400 mod 60\<rparr>"
    and d: "march_days y mp d = t div 86400" and m: "(m + 9) mod 12 = mp"
    by (rule gmtime_parts [of t])
  define s where "s = t mod 86400"
  have "timegm (gmtime t) = 86400 * march_days y mp d
      + (3600 * (s div 3600) + 60 * (s div 60 mod 60) + s mod 60)"
    unfolding g timegm_def Let_def using m by (simp add: s_def)
  also have "\<dots> = 86400 * march_days y mp d + s"
    by (simp only: seconds_of_day)
  finally show ?thesis using d by (simp add: s_def)
qed

lemma gmtime_ranges:
  "0 \<le> tm_mon (gmtime t)" "tm_mon (gmtime t) \<le> 11"
  "1 \<le> tm_mday (gmtime t)" "tm_mday (gmtime t) \<le> 31"
  "0 \<le> tm_hour (gmtime t)" "tm_hour (gmtime t) \<le> 23"
  "0 \<le> tm_min (gmtime t)" "tm_min (gmtime t) \<le> 59"
  "0 \<le> tm_sec (gmtime t)" "tm_sec (gmtime t) \<le> 59"
proof -
  obtain y mp d m where g: "gmtime t = \<lparr>tm_year = y + (if m \<le> 2 then 1 else 0) - 1900,
      tm_mon = m - 1, tm_mday = d, tm_hour = t mod 86400 div 3600,
      tm_min = t mod 86400 div 60 mod 60, tm_sec = t mod 86400 mod 60\<rparr>"
    and b: "1 \<le> m" "m \<le> 12" "1 \<le> d" "d \<le> 31"
    by (rule gmtime_parts [of t])
  show "0 \<le> tm_mon (gmtime t)" "tm_mon (gmtime t) \<le> 11"
    "1 \<le> tm_mday (gmtime t)" "tm_mday (gmtime t) \<le> 31"
    using b unfolding g by simp_all
  define s where "s = t mod 86400"
  have s: "0 \<le> s" "s < 86400" by (simp_all add: s_def)
  have "s = 3600 * (s div 3600) + s mod 3600" "0 \<le> s mod 3600" "s mod 3600 < 3600" by simp_all
  then have "0 \<le> s div 3600" "s div 3600 \<le> 23" using s by linarith+
  then show "0 \<le> tm_hour (gmtime t)" "tm_hour (gmtime t) \<le> 23"
    by (simp_all only: g s_def tm.select_convs)
  have m: "0 \<le> x mod 60" "x mod 60 \<le> 59" for x :: int
    using pos_mod_bound [of 60 x] by simp_all
  show "0 \<le> tm_min (gmtime t)" "tm_min (gmtime t) \<le> 59"
    "0 \<le> tm_sec (gmtime t)" "tm_sec (gmtime t) \<le> 59"
    by (simp_all only: g tm.select_convs m)
qed

section \<open>Printed times are read back\<close>

lemma read_field_append:
  assumes "length ds = w" and "\<forall>c \<in> set ds. is_digit c"
    and "lo \<le> nat_of_digits ds" and "nat_of_digits ds \<le> hi"
  shows "read_field w lo hi (ds @ s) = Some (int (nat_of_digits ds), s)"
  using assms by (simp add: read_field_def)

lemma pad2_digits:
  assumes "0 \<le> n" and "n \<le> 99"
  shows "length (pad2 n) = 2" and "\<forall>c \<in> set (pad2 n). is_digit c"
    and "nat_of_digits (pad2 n) = nat n"
proof -
  have "nat n div 10 < 10" using assms by linarith
  then show "length (pad2 n) = 2" and "\<forall>c \<in> set (pad2 n). is_digit c"
    and "nat_of_digits (pad2 n) = nat n"
    by (simp_all add: pad2_def nat_of_digits_def)
qed

lemma read_field_pad2:
  assumes "int lo \<le> n" and "n \<le> int hi" and "n \<le> 99"
  shows "read_field 2 lo hi (pad2 n @ s) = Some (n, s)"
proof -
  have n: "0 \<le> n" using assms(1) by linarith
  note p = pad2_digits [OF n assms(3)]
  have b: "lo \<le> nat n" "nat n \<le> hi" using assms(1,2) by linarith+
  have "read_field 2 lo hi (pad2 n @ s) = Some (int (nat n), s)"
    using read_field_append [OF p(1,2), of lo hi s] b unfolding p(3) by blast
  then show ?thesis using n by (simp only: nat_0_le)
qed

lemma length_string_of_nat_4:
  assumes "1000 \<le> n" and "n \<le> 9999"
  shows "length (string_of_nat n) = 4"
proof -
  have "\<not> n < 10" "\<not> n div 10 < 10" "\<not> n div 10 div 10 < 10" "n div 10 div 10 div 10 < 10"
    using assms by (simp_all add: div_less_iff_less_mult)
  then show ?thesis
    by (subst string_of_nat.simps, subst string_of_nat.simps, subst string_of_nat.simps,
        subst string_of_nat.simps) simp
qed

lemma read_field_year:
  assumes "1000 \<le> y" and "y \<le> 9999"
  shows "read_field 4 0 9999 (to_string y @ s) = Some (y, s)"
proof -
  have n: "1000 \<le> nat y" "nat y \<le> 9999" using assms by linarith+
  have "read_field 4 0 9999 (string_of_nat (nat y) @ s) =
      Some (int (nat_of_digits (string_of_nat (nat y))), s)"
    using n string_of_nat_digits by (intro read_field_append length_string_of_nat_4) simp_all
  then show ?thesis using assms by (simp add: to_string_def)
qed

lemma pad2_is_word: "0 \<le> n \<Longrightarrow> n \<le> 99 \<Longrightarrow> is_word (pad2 n)"
  using pad2_digits(2) [of n] is_digit_not_space by (auto simp: is_word_def pad2_def)

lemma get_time_put_date_time:
  assumes "1000 \<le> calendar_year t" and "calendar_year t \<le> 9999"
  shows "get_time (CHR '' '' # put_date_time (gmtime t) @ s) = Some (gmtime t, s)"
proof -
  let ?t = "gmtime t"
  note r = gmtime_ranges [of t]
  have sk: "skip_ws (to_string (tm_year ?t + 1900) @ u) = to_string (tm_year ?t + 1900) @ u" for u
    by (rule skip_ws_word [OF to_string_is_word])
  have sp: "skip_ws (pad2 (tm_hour ?t) @ u) = pad2 (tm_hour ?t) @ u" for u
    using r by (intro skip_ws_word pad2_is_word) simp_all
  have "read_field 4 0 9999 (to_string (tm_year ?t + 1900) @ u) = Some (tm_year ?t + 1900, u)" for u
    using assms by (intro read_field_year) (simp_all add: calendar_year_def)
  moreover have "read_field 2 1 12 (pad2 (tm_mon ?t + 1) @ u) = Some (tm_mon ?t + 1, u)" for u
    using r by (intro read_field_pad2) simp_all
  moreover have "read_field 2 1 31 (pad2 (tm_mday ?t) @ u) = Some (tm_mday ?t, u)" for u
    using r by (intro read_field_pad2) simp_all
  moreover have "read_field 2 0 23 (pad2 (tm_hour ?t) @ u) = Some (tm_hour ?t, u)" for u
    using r by (intro read_field_pad2) simp_all
  moreover have "read_field 2 0 59 (pad2 (tm_min ?t) @ u) = Some (tm_min ?t, u)" for u
    using r by (intro read_field_pad2) simp_all
  moreover have "read_field 2 0 60 (pad2 (tm_sec ?t) @ u) = Some (tm_sec ?t, u)" for u
    using r by (intro read_field_pad2) simp_all
  ultimately show ?thesis
    by (simp add: get_time_def put_date_time_def expect_def expect_blank_def sk sp)
qed

end
