(* ===== verification/Ddm_Metadata_Line.thy ===== *)
theory Ddm_Metadata_Line
  imports Ddm_Element Ddm_Clock
begin

text \<open>
  One line of a metadata file: \<^verbatim>\<open>FilesystemElement::writeTo\<close> and
  \<^verbatim>\<open>FilesystemElement::readFrom\<close> (core.cpp). The main results: a written line is read back as
  the same element up to the permission bits the format has no room for, every element that the
  reader accepts is well formed, and the one time stamp that the reader takes for an error.
\<close>

unbundle bit_operations_syntax

section \<open>Writing\<close>

definition typeChar :: "file_type \<Rightarrow> char" where
  "typeChar t = (case t of FT_regular \<Rightarrow> CHR ''-'' | FT_directory \<Rightarrow> CHR ''d''
     | FT_symlink \<Rightarrow> CHR ''l'' | _ \<Rightarrow> CHR ''?'')"

definition permFlag :: "perms \<Rightarrow> perms \<Rightarrow> char \<Rightarrow> char" where
  "permFlag pe m c = (if pe AND m \<noteq> 0 then c else CHR ''-'')"

definition permString :: "perms \<Rightarrow> string" where
  "permString pe =
     [permFlag pe 256 CHR ''r'', permFlag pe 128 CHR ''w'', permFlag pe 64 CHR ''x'',
      permFlag pe 32 CHR ''r'', permFlag pe 16 CHR ''w'', permFlag pe 8 CHR ''x'',
      permFlag pe 4 CHR ''r'', permFlag pe 2 CHR ''w'', permFlag pe 1 CHR ''x'']"

definition typeFields :: "FilesystemElement \<Rightarrow> string" where
  "typeFields e =
     (case ty e of
        FT_regular \<Rightarrow>
          (if fileHash e = [] then to_string (sz e) @ '' * ''
           else to_string (sz e) @ '' '' @ fileHash e @ '' '')
      | FT_symlink \<Rightarrow> write_quoted (symlink e) @ '' ''
      | _ \<Rightarrow> [])"

definition writeElement :: "FilesystemElement \<Rightarrow> string" where
  "writeElement e =
     typeChar (ty e) # permString (per e) @ '' '' @ us e @ '' '' @ gs e @ '' '' @
     put_time (gmtime (mt e)) @ '' '' @ typeFields e @ write_quoted (rp e)"

section \<open>Reading\<close>

definition lineError :: "string \<Rightarrow> int \<Rightarrow> string \<Rightarrow> string \<Rightarrow> exn" where
  "lineError metadataFileName lineNo metadataLine m =
     Runtime_error
       ((if metadataFileName = [] then [] else metadataFileName @ '': '') @ m @
        (if lineNo > 0 then '' at line '' @ to_string lineNo else []) @
        '', wrong line is '' @ [CHR 0x27] @ metadataLine @ [CHR 0x27])"

definition need :: "exn \<Rightarrow> 'a option \<Rightarrow> 'a result" where
  "need e x = (case x of None \<Rightarrow> Inl e | Some y \<Rightarrow> Inr y)"

definition readType :: "exn \<Rightarrow> char \<Rightarrow> file_type result" where
  "readType e c =
     (if c = CHR ''-'' then Inr FT_regular
      else if c = CHR ''d'' then Inr FT_directory
      else if c = CHR ''l'' then Inr FT_symlink
      else if c = CHR ''?'' then Inr FT_unknown
      else Inl e)"

definition readPermBit :: "exn \<Rightarrow> char \<Rightarrow> char \<Rightarrow> perms \<Rightarrow> perms \<Rightarrow> perms result" where
  "readPermBit e c x v pe =
     (if c = x then Inr (pe OR v) else if c \<noteq> CHR ''-'' then Inl e else Inr pe)"

definition readPermTriple :: "exn \<Rightarrow> string \<Rightarrow> nat \<Rightarrow> perms \<Rightarrow> perms result" where
  "readPermTriple e permStr i pe0 =
     (let permTriple = take 3 (drop (3 * i + 1) permStr); pe = push_bit 3 pe0
      in bindE (readPermBit e (permTriple ! 0) CHR ''r'' 4 pe) (\<lambda>pe.
         bindE (readPermBit e (permTriple ! 1) CHR ''w'' 2 pe) (\<lambda>pe.
         readPermBit e (permTriple ! 2) CHR ''x'' 1 pe)))"

definition readTypeFields ::
  "(string \<Rightarrow> exn) \<Rightarrow> file_type \<Rightarrow> string \<Rightarrow> (int \<times> string \<times> path \<times> string) result" where
  "readTypeFields err t s =
     (case t of
        FT_regular \<Rightarrow>
          bindE (need (err ''Error reading size'') (read_int64 s)) (\<lambda>(n, s1).
          bindE (need (err ''Error reading hash'') (read_word s1)) (\<lambda>(h, s2).
            if h = ''*'' then Inr (n, [], [], s2)
            else if length h \<noteq> 40 then Inl (err ''Error reading hash'')
            else Inr (n, h, [], s2)))
      | FT_symlink \<Rightarrow>
          bindE (need (err ''Error reading symlink target'') (read_quoted s)) (\<lambda>(l, s1).
            Inr (0, [], l, s1))
      | _ \<Rightarrow> Inr (0, [], [], s))"

definition readElement :: "string \<Rightarrow> string \<Rightarrow> int \<Rightarrow> FilesystemElement result" where
  "readElement metadataLine metadataFileName lineNo =
     (let err = lineError metadataFileName lineNo metadataLine in
      bindE (need (err ''Error reading permission string'') (read_word metadataLine)) (\<lambda>(permStr, s1).
      if length permStr \<noteq> 10 then Inl (err ''Error reading permission string'') else
      bindE (readType (err ''Unrecognized file type'') (permStr ! 0)) (\<lambda>t.
      bindE (foldE (readPermTriple (err ''Permissions not correct'') permStr) [0, 1, 2] 0) (\<lambda>pe.
      bindE (need (err ''Error reading user/group'') (read_word s1)) (\<lambda>(u, s2).
      bindE (need (err ''Error reading user/group'') (read_word s2)) (\<lambda>(g, s3).
      bindE (need (err ''Error reading mtime'') (get_time s3)) (\<lambda>(d, s4).
      if timegm d = -1 then Inl (err ''Error reading mtime'') else
      bindE (need (err ''Error reading mtime'') (read_chars 6 s4)) (\<lambda>(tz, s5).
      if tz \<noteq> '' +0000'' then Inl (err ''Error reading mtime'') else
      bindE (readTypeFields err t s5) (\<lambda>(n, h, l, s6).
      bindE (need (err ''Error reading path'') (read_quoted s6)) (\<lambda>(p, s7).
      if s7 \<noteq> [] then Inl (err ''Extra characters at end of line'') else
      Inr \<lparr>ty = t, per = pe, us = u, gs = g, mt = timegm d, sz = n, fileHash = h, rp = p,
           symlink = l, hardLinkCnt = 1\<rparr>))))))))))"

section \<open>Permissions\<close>

lemma need_simps [simp]: "need e None = Inl e" "need e (Some x) = Inr x"
  by (simp_all add: need_def)

lemma need_Inr_iff: "need e x = Inr y \<longleftrightarrow> x = Some y"
  by (cases x) simp_all

lemma permFlag_bit: "permFlag pe (2 ^ n) c = (if bit pe n then c else CHR ''-'')"
  by (simp add: permFlag_def and_exp_eq_0_iff_not_bit)

lemma permString_bits:
  "permString pe =
     [if bit pe 8 then CHR ''r'' else CHR ''-'', if bit pe 7 then CHR ''w'' else CHR ''-'',
      if bit pe 6 then CHR ''x'' else CHR ''-'', if bit pe 5 then CHR ''r'' else CHR ''-'',
      if bit pe 4 then CHR ''w'' else CHR ''-'', if bit pe 3 then CHR ''x'' else CHR ''-'',
      if bit pe 2 then CHR ''r'' else CHR ''-'', if bit pe 1 then CHR ''w'' else CHR ''-'',
      if bit pe 0 then CHR ''x'' else CHR ''-'']"
  using permFlag_bit [of pe 8] permFlag_bit [of pe 7] permFlag_bit [of pe 6]
    permFlag_bit [of pe 5] permFlag_bit [of pe 4] permFlag_bit [of pe 3]
    permFlag_bit [of pe 2] permFlag_bit [of pe 1] permFlag_bit [of pe 0]
  by (simp add: permString_def)

definition octal_digit :: "bool \<Rightarrow> bool \<Rightarrow> bool \<Rightarrow> perms" where
  "octal_digit a b c = 4 * of_bool a + 2 * of_bool b + of_bool c"

lemma bit_octal_digit: "bit (octal_digit a b c) n \<Longrightarrow> n < 3"
proof -
  have "take_bit 3 (octal_digit a b c) = octal_digit a b c"
    by (cases a; cases b; cases c) (simp_all add: octal_digit_def)
  then show "bit (octal_digit a b c) n \<Longrightarrow> n < 3" by (metis bit_take_bit_iff)
qed

lemma shift_or_octal: "push_bit 3 (pe :: perms) OR octal_digit a b c = 8 * pe + octal_digit a b c"
proof -
  have "push_bit 3 pe AND octal_digit a b c = 0"
    by (rule bit_eqI) (auto simp: bit_simps dest: bit_octal_digit)
  then have "push_bit 3 pe + octal_digit a b c = push_bit 3 pe OR octal_digit a b c"
    by (rule disjunctive_add_eq_or)
  then show ?thesis by (simp add: push_bit_eq_mult mult.commute)
qed

lemma readPermTriple_flags:
  assumes "take 3 (drop (3 * i + 1) permStr) =
    [if a then CHR ''r'' else CHR ''-'', if b then CHR ''w'' else CHR ''-'',
     if c then CHR ''x'' else CHR ''-'']"
  shows "readPermTriple e permStr i pe = Inr (8 * pe + octal_digit a b c)"
proof -
  have "readPermTriple e permStr i pe =
      Inr (((push_bit 3 pe OR (if a then 4 else 0)) OR (if b then 2 else 0)) OR (if c then 1 else 0))"
    unfolding readPermTriple_def assms Let_def by (simp add: readPermBit_def)
  moreover have "((push_bit 3 pe OR (if a then 4 else 0)) OR (if b then 2 else 0)) OR (if c then 1 else 0)
      = push_bit 3 pe OR octal_digit a b c"
    by (cases a; cases b; cases c) (simp_all add: octal_digit_def or.assoc)
  ultimately show ?thesis by (simp add: shift_or_octal)
qed

lemma take_bit_9_octal:
  "take_bit 9 (w :: perms) =
     8 * (8 * octal_digit (bit w 8) (bit w 7) (bit w 6) + octal_digit (bit w 5) (bit w 4) (bit w 3))
     + octal_digit (bit w 2) (bit w 1) (bit w 0)"
proof -
  have "take_bit 9 w = horner_sum of_bool 2 (map (bit w) [0..<9])"
    by (rule horner_sum_bit_eq_take_bit [symmetric])
  also have "[0..<9] = [0, 1, 2, 3, 4, 5, 6, 7, 8 :: nat]" by (simp add: upt_rec)
  finally show ?thesis by (simp add: octal_digit_def algebra_simps)
qed

lemma read_permString:
  assumes "length permStr = 10" and "tl permStr = permString w"
  shows "foldE (readPermTriple e permStr) [0, 1, 2] 0 = Inr (take_bit 9 w)"
proof -
  obtain t where p: "permStr = t # permString w"
    using assms by (cases permStr) auto
  have "readPermTriple e permStr 0 pe = Inr (8 * pe + octal_digit (bit w 8) (bit w 7) (bit w 6))" for pe
    by (rule readPermTriple_flags) (simp add: p permString_bits)
  moreover have "readPermTriple e permStr 1 pe = Inr (8 * pe + octal_digit (bit w 5) (bit w 4) (bit w 3))"
    for pe by (rule readPermTriple_flags) (simp add: p permString_bits)
  moreover have "readPermTriple e permStr 2 pe = Inr (8 * pe + octal_digit (bit w 2) (bit w 1) (bit w 0))"
    for pe by (rule readPermTriple_flags) (simp add: p permString_bits)
  ultimately show ?thesis by (simp add: take_bit_9_octal)
qed

section \<open>Round trip\<close>

text \<open>
  What the text format can carry: a time in the years of four digits other than the last second
  before 1970, user and group names without white space, a size of 64 bits, and either no hash or
  one of 40 characters.
\<close>

definition line_ok :: "FilesystemElement \<Rightarrow> bool" where
  "line_ok e \<longleftrightarrow>
     elem_ok e \<and> is_word (us e) \<and> is_word (gs e) \<and>
     1000 \<le> calendar_year (mt e) \<and> calendar_year (mt e) \<le> 9999 \<and> mt e \<noteq> -1 \<and>
     int64 (sz e) \<and> (fileHash e = [] \<or> is_word (fileHash e) \<and> length (fileHash e) = 40)"

lemma readType_typeChar:
  "ty e \<in> {FT_regular, FT_directory, FT_symlink, FT_unknown} \<Longrightarrow>
     readType x (typeChar (ty e)) = Inr (ty e)"
  by (auto simp: readType_def typeChar_def)

lemma is_word_first: "is_word (typeChar t # permString w)"
  by (auto simp: is_word_def typeChar_def permString_bits is_space_def split: file_type.splits)

lemma readTypeFields_typeFields:
  assumes "line_ok e"
  shows "readTypeFields err (ty e) (CHR '' '' # typeFields e @ write_quoted q) =
     Inr (sz e, fileHash e, symlink e, CHR '' '' # write_quoted q)"
proof -
  have blank: "read_int64 (CHR '' '' # s) = read_int64 s" for s
    by (simp add: read_int64_def)
  consider "ty e = FT_regular" "fileHash e = []" | "ty e = FT_regular" "fileHash e \<noteq> []"
    | "ty e = FT_symlink" | "ty e = FT_directory" | "ty e = FT_unknown"
    using assms by (auto simp: line_ok_def elem_ok_def)
  then show ?thesis
  proof cases
    case 1
    have "read_word (CHR '' '' # ''* '' @ write_quoted q) = Some (''*'', CHR '' '' # write_quoted q)"
      using read_word_append [of "''*''"] by (simp add: read_word_blank is_word_def is_space_def)
    moreover have "read_int64 (to_string (sz e) @ '' * '' @ write_quoted q) =
        Some (sz e, CHR '' '' # ''* '' @ write_quoted q)"
      using read_int64_to_string [of "sz e"] assms by (simp add: line_ok_def)
    ultimately show ?thesis
      using 1 assms by (simp add: readTypeFields_def typeFields_def blank line_ok_def elem_ok_def)
  next
    case 2
    have "read_word (CHR '' '' # fileHash e @ '' '' @ write_quoted q) =
        Some (fileHash e, CHR '' '' # write_quoted q)"
      using read_word_append [of "fileHash e"] assms 2 by (simp add: read_word_blank line_ok_def)
    moreover have "read_int64 (to_string (sz e) @ '' '' @ fileHash e @ '' '' @ write_quoted q) =
        Some (sz e, CHR '' '' # fileHash e @ '' '' @ write_quoted q)"
      using read_int64_to_string [of "sz e"] assms by (simp add: line_ok_def)
    moreover have "length (fileHash e) = 40" "fileHash e \<noteq> ''*''"
      using assms 2 by (auto simp: line_ok_def)
    ultimately show ?thesis
      using 2 assms by (simp add: readTypeFields_def typeFields_def blank line_ok_def elem_ok_def)
  next
    case 3
    have "read_quoted (CHR '' '' # write_quoted (symlink e) @ '' '' @ write_quoted q) =
        Some (symlink e, '' '' @ write_quoted q)"
      by (rule read_write_quoted_blank)
    then show ?thesis
      using 3 assms by (simp add: readTypeFields_def typeFields_def line_ok_def elem_ok_def)
  qed (use assms in \<open>simp_all add: readTypeFields_def typeFields_def line_ok_def elem_ok_def\<close>)
qed

text \<open>The fields that every line has.\<close>

lemma readElement_common:
  fixes e :: FilesystemElement and f :: string and n :: int
  assumes "ty e \<in> {FT_regular, FT_directory, FT_symlink, FT_unknown}"
    and "is_word (us e)" and "is_word (gs e)"
    and "1000 \<le> calendar_year (mt e)" and "calendar_year (mt e) \<le> 9999"
  defines "err \<equiv> lineError f n (writeElement e)"
  shows "readElement (writeElement e) f n =
    (if mt e = -1 then Inl (err ''Error reading mtime'')
     else bindE (readTypeFields err (ty e) (CHR '' '' # typeFields e @ write_quoted (rp e)))
       (\<lambda>(k, h, l, s6). bindE (need (err ''Error reading path'') (read_quoted s6)) (\<lambda>(p, s7).
          if s7 \<noteq> [] then Inl (err ''Extra characters at end of line'')
          else Inr \<lparr>ty = ty e, per = take_bit 9 (per e), us = us e, gs = gs e, mt = mt e, sz = k,
                    fileHash = h, rp = p, symlink = l, hardLinkCnt = 1\<rparr>)))"
proof -
  let ?w = "typeChar (ty e) # permString (per e)"
  define rest where "rest = CHR '' '' # typeFields e @ write_quoted (rp e)"
  define r4 where "r4 = '' +0000'' @ rest"
  define r3 where "r3 = CHR '' '' # put_date_time (gmtime (mt e)) @ r4"
  define r2 where "r2 = CHR '' '' # gs e @ r3"
  define r1 where "r1 = CHR '' '' # us e @ r2"
  have line: "writeElement e = ?w @ r1"
    by (simp add: writeElement_def put_time_def rest_def r4_def r3_def r2_def r1_def)
  have w: "read_word (writeElement e) = Some (?w, r1)"
    unfolding line r1_def by (rule read_word_append [OF is_word_first])
  have u: "read_word r1 = Some (us e, r2)"
    unfolding r1_def r2_def read_word_blank by (rule read_word_append [OF assms(2)])
  have g: "read_word r2 = Some (gs e, r3)"
    unfolding r2_def r3_def read_word_blank by (rule read_word_append [OF assms(3)])
  have d: "get_time r3 = Some (gmtime (mt e), r4)"
    unfolding r3_def by (rule get_time_put_date_time [OF assms(4,5)])
  have z: "read_chars 6 r4 = Some ('' +0000'', rest)"
    by (simp add: read_chars_def r4_def)
  have len: "length ?w = 10" by (simp add: permString_def)
  have pe: "foldE (readPermTriple x ?w) [0, 1, 2] 0 = Inr (take_bit 9 (per e))" for x
    by (rule read_permString [OF len]) simp
  show ?thesis
    unfolding readElement_def Let_def w u g d z need_simps bindE_simps prod.case len pe
      timegm_gmtime nth_Cons_0 readType_typeChar [OF assms(1)] err_def rest_def
    by simp
qed

lemma readElement_writeElement:
  assumes "line_ok e"
  shows "readElement (writeElement e) f n = Inr (e\<lparr>per := take_bit 9 (per e), hardLinkCnt := 1\<rparr>)"
proof -
  have "read_quoted (CHR '' '' # write_quoted (rp e)) = Some (rp e, [])"
    using read_write_quoted_blank [of "rp e" "[]"] by simp
  moreover note readTypeFields_typeFields [OF assms]
  moreover have "ty e \<in> {FT_regular, FT_directory, FT_symlink, FT_unknown}" "is_word (us e)"
    "is_word (gs e)" "1000 \<le> calendar_year (mt e)" "calendar_year (mt e) \<le> 9999" "mt e \<noteq> -1"
    using assms by (simp_all add: line_ok_def elem_ok_def)
  ultimately show ?thesis by (simp add: readElement_common)
qed

lemma newline_not_in_word: "is_word w \<Longrightarrow> nl \<notin> set w"
proof -
  have "is_space nl" by (simp add: is_space_def)
  then show "is_word w \<Longrightarrow> nl \<notin> set w" unfolding is_word_def by blast
qed

lemma newline_not_in_time: "nl \<notin> set (put_time (gmtime t))"
proof -
  note r = gmtime_ranges [of t]
  have "nl \<notin> set (to_string (tm_year (gmtime t) + 1900))"
    by (intro newline_not_in_word to_string_is_word)
  moreover have "nl \<notin> set (pad2 (tm_mon (gmtime t) + 1))" "nl \<notin> set (pad2 (tm_mday (gmtime t)))"
    "nl \<notin> set (pad2 (tm_hour (gmtime t)))" "nl \<notin> set (pad2 (tm_min (gmtime t)))"
    "nl \<notin> set (pad2 (tm_sec (gmtime t)))"
    using r by (intro newline_not_in_word pad2_is_word; linarith)+
  ultimately show ?thesis by (simp add: put_time_def put_date_time_def)
qed

lemma newline_not_in_line:
  assumes "line_ok e" and "nl \<notin> set (rp e)" and "nl \<notin> set (symlink e)"
  shows "nl \<notin> set (writeElement e)"
proof -
  have "nl \<notin> set (typeChar (ty e) # permString (per e))"
    by (rule newline_not_in_word [OF is_word_first])
  moreover have "nl \<notin> set (us e)" "nl \<notin> set (gs e)" "nl \<notin> set (fileHash e)"
    using assms(1) newline_not_in_word by (auto simp: line_ok_def)
  moreover from this have "nl \<notin> set (typeFields e)"
    using assms(3) newline_not_in_word [OF to_string_is_word]
    by (simp add: typeFields_def newline_write_quoted split: file_type.splits)
  ultimately show ?thesis
    using assms(2) newline_not_in_time [of "mt e"]
    by (simp add: writeElement_def newline_write_quoted)
qed

lemma writeElement_not_Nil [simp]: "writeElement e \<noteq> []"
  by (simp add: writeElement_def)

section \<open>What the reader accepts\<close>

lemma readPermBit_small:
  "readPermBit e c x v pe = Inr r \<Longrightarrow> take_bit k pe = pe \<Longrightarrow> take_bit k v = v \<Longrightarrow> take_bit k r = r"
  by (auto simp: readPermBit_def split: if_splits)

lemma readPermTriple_small:
  assumes "readPermTriple e p i pe = Inr r" and "take_bit k pe = pe"
  shows "take_bit (k + 3) r = r"
proof -
  have "take_bit (k + 3) (push_bit 3 pe) = push_bit 3 pe"
    using assms(2) by (metis add_diff_cancel_right' push_bit_take_bit add.commute)
  moreover have small: "take_bit (k + 3) v = v" if "take_bit 3 v = v" for v :: perms
  proof -
    have "take_bit (k + 3) (take_bit 3 v) = take_bit 3 v" by (simp add: take_bit_take_bit)
    with that show ?thesis by simp
  qed
  have "take_bit (k + 3) (4 :: perms) = 4" "take_bit (k + 3) (2 :: perms) = 2"
    "take_bit (k + 3) (1 :: perms) = 1"
    by (rule small, simp)+
  ultimately show ?thesis
    using assms(1) by (auto simp: readPermTriple_def Let_def bindE_Inr_iff elim!: readPermBit_small)
qed

lemma read_perms_small:
  assumes "foldE (readPermTriple e p) [0, 1, 2] 0 = Inr r"
  shows "take_bit 9 r = r"
proof -
  obtain x y where "readPermTriple e p 0 0 = Inr x" "readPermTriple e p 1 x = Inr y"
    "readPermTriple e p 2 y = Inr r"
    using assms by (auto simp: bindE_Inr_iff)
  then show ?thesis
    using readPermTriple_small [of e p 0 0 x 0] readPermTriple_small [of e p 1 x y 3]
      readPermTriple_small [of e p 2 y r 6]
    by simp
qed

lemma readTypeFields_ok:
  assumes "readTypeFields err t s = Inr (n, h, l, r)"
  shows "int64 n \<and> (h = [] \<or> is_word h \<and> length h = 40) \<and>
    (t \<noteq> FT_regular \<longrightarrow> n = 0 \<and> h = []) \<and> (t \<noteq> FT_symlink \<longrightarrow> l = [])"
proof (cases "t = FT_regular")
  case True
  then show ?thesis
    using assms
    by (auto simp: readTypeFields_def bindE_Inr_iff need_Inr_iff read_int64_def Let_def
        dest: read_word_is_word split: if_splits)
next
  case False
  then show ?thesis
    using assms
    by (auto simp: readTypeFields_def bindE_Inr_iff int64_def split: file_type.splits)
qed

text \<open>
  Whatever the text, an accepted line gives an element with the fields of its type only, at most
  nine permission bits, proper names, a known time and no more than one hard link.
\<close>

definition read_ok :: "FilesystemElement \<Rightarrow> bool" where
  "read_ok e \<longleftrightarrow>
     elem_ok e \<and> take_bit 9 (per e) = per e \<and> is_word (us e) \<and> is_word (gs e) \<and> mt e \<noteq> -1 \<and>
     int64 (sz e) \<and> (fileHash e = [] \<or> is_word (fileHash e) \<and> length (fileHash e) = 40) \<and>
     hardLinkCnt e = 1"

lemma readType_ok: "readType x c = Inr t \<Longrightarrow> t \<in> {FT_regular, FT_directory, FT_symlink, FT_unknown}"
  unfolding readType_def by (simp split: if_split_asm)

lemma readElement_ok:
  assumes "readElement line f n = Inr e"
  shows "read_ok e"
proof -
  obtain permStr s1 t pe u s2 g s3 d s4 k h l p s5 s6 err where
    "readType (err ''Unrecognized file type'') (permStr ! 0) = Inr t"
    and "foldE (readPermTriple (err ''Permissions not correct'') permStr) [0, 1, 2] 0 = Inr pe"
    and "read_word s1 = Some (u, s2)" and "read_word s2 = Some (g, s3)"
    and "timegm d \<noteq> -1" and "readTypeFields err t s5 = Inr (k, h, l, s6)"
    and "e = \<lparr>ty = t, per = pe, us = u, gs = g, mt = timegm d, sz = k, fileHash = h, rp = p,
           symlink = l, hardLinkCnt = 1\<rparr>"
    using assms unfolding readElement_def Let_def
    by (auto simp: need_Inr_iff elim!: bindE_InrE split: if_split_asm)
  then show ?thesis
    using readType_ok read_perms_small readTypeFields_ok [of err t s5 k h l s6] read_word_is_word
    unfolding read_ok_def elem_ok_def by simp
qed

end
