(* ===== verification/Ddm_Diff.thy ===== *)
theory Ddm_Diff
  imports Ddm_Tree_Copy Ddm_Metadata_Line
begin

text \<open>
  The comparison of two and of three directory trees and the printed form of differences
  (\<^verbatim>\<open>diff2\<close>, \<^verbatim>\<open>diff3\<close> and their helper classes in core.cpp). The names found in the
  directories are collected in an \<^verbatim>\<open>unordered_set\<close>, whose iteration order is the parameter
  \<open>visit\<close>. The recursion is not bounded by the shape of its arguments, as it goes through the
  index, so it has fuel; one unit per level is enough for well-formed trees.

  The result is characterised on the maps from paths to elements: the paths that are reported, and
  that each is reported once.
\<close>

type_synonym DirectoryDiffLine2 = "FilesystemElement option \<times> FilesystemElement option"
type_synonym DirectoryDiffLine3 =
  "FilesystemElement option \<times> FilesystemElement option \<times> FilesystemElement option"

section \<open>Printing\<close>

definition printSide :: "char \<Rightarrow> FilesystemElement option \<Rightarrow> string" where
  "printSide c d = (case d of Some e \<Rightarrow> c # CHR '' '' # writeElement e @ [nl]
     | None \<Rightarrow> c # '' /dev/null'' @ [nl])"

definition printDiffLine2 :: "DirectoryDiffLine2 \<Rightarrow> string" where
  "printDiffLine2 d = (case d of (a, b) \<Rightarrow> printSide (CHR ''-'') a @ printSide (CHR ''+'') b)"

definition printDiffLine3 :: "DirectoryDiffLine3 \<Rightarrow> string" where
  "printDiffLine3 d = (case d of (a, b, c) \<Rightarrow>
     printSide (CHR ''a'') a @ printSide (CHR ''b'') b @ printSide (CHR ''c'') c)"

definition printDiff2 :: "DirectoryDiffLine2 list \<Rightarrow> string" where
  "printDiff2 diff = concat (map (\<lambda>d. printDiffLine2 d @ [nl]) diff)"

definition printDiff3 :: "DirectoryDiffLine3 list \<Rightarrow> string" where
  "printDiff3 diff = concat (map (\<lambda>d. printDiffLine3 d @ [nl]) diff)"

section \<open>Two trees\<close>

text \<open>A lookup in the index of a tree, and a read through the pointer that was found.\<close>

definition lookupNode :: "DirectoryTree \<Rightarrow> path \<Rightarrow> DirectoryNode option result" where
  "lookupNode t p = (case index t p of None \<Rightarrow> Inr None
     | Some a \<Rightarrow> bindE (deref t a) (\<lambda>n. Inr (Some n)))"

definition diff2_item ::
  "DirectoryTree \<Rightarrow> DirectoryTree \<Rightarrow> CompareOpt \<Rightarrow> path \<Rightarrow>
     DirectoryDiffLine2 list \<times> (DirectoryNode \<times> DirectoryNode) list \<Rightarrow>
     (DirectoryDiffLine2 list \<times> (DirectoryNode \<times> DirectoryNode) list) result" where
  "diff2_item ta tb opt itn st = (case st of (res, commonDirectories) \<Rightarrow>
     bindE (lookupNode ta itn) (\<lambda>ita. bindE (lookupNode tb itn) (\<lambda>itb.
     case (ita, itb) of
       (Some a, Some b) \<Rightarrow> Inr
         (if \<not> compare (elem a) (elem b) opt then res @ [(Some (elem a), Some (elem b))] else res,
          if isDirectory (elem a) \<and> isDirectory (elem b) then commonDirectories @ [(a, b)]
          else commonDirectories)
     | (None, Some b) \<Rightarrow> Inr (res @ [(None, Some (elem b))], commonDirectories)
     | (Some a, None) \<Rightarrow> Inr (res @ [(Some (elem a), None)], commonDirectories)
     | (None, None) \<Rightarrow> Inl Abort)))"

fun recursiveCompare2 ::
  "nat \<Rightarrow> (path list \<Rightarrow> path list) \<Rightarrow> DirectoryTree \<Rightarrow> DirectoryTree \<Rightarrow> CompareOpt \<Rightarrow>
     DirectoryNode list \<Rightarrow> DirectoryNode list \<Rightarrow> DirectoryDiffLine2 list \<Rightarrow>
     DirectoryDiffLine2 list result" where
  "recursiveCompare2 0 visit ta tb opt a b res = Inl Diverged"
| "recursiveCompare2 (Suc fuel) visit ta tb opt a b res =
     (let itemNames = visit (map node_rp a @ map node_rp b) in
      bindE (foldE (diff2_item ta tb opt) itemNames (res, [])) (\<lambda>(res, commonDirectories).
      foldE (\<lambda>(da, db) res. recursiveCompare2 fuel visit ta tb opt (content da) (content db) res)
        commonDirectories res))"

text \<open>More levels than a tree has nodes are never needed.\<close>

definition tree_fuel :: "DirectoryTree \<Rightarrow> nat" where
  "tree_fuel t = Suc (length (nodes_in (topContent t)))"

definition diff2 ::
  "(path list \<Rightarrow> path list) \<Rightarrow> DirectoryTree \<Rightarrow> DirectoryTree \<Rightarrow> CompareOpt \<Rightarrow>
     DirectoryDiffLine2 list result" where
  "diff2 visit a b opt =
     recursiveCompare2 (tree_fuel a) visit a b opt (topContent a) (topContent b) []"

section \<open>Three trees\<close>

type_synonym common3 = "DirectoryNode option \<times> DirectoryNode option \<times> DirectoryNode option"

definition only_dir :: "DirectoryNode \<Rightarrow> DirectoryNode option" where
  "only_dir n = (if isDirectory (elem n) then Some n else None)"

definition opt_list :: "'a option list \<Rightarrow> 'a list" where
  "opt_list xs = concat (map (\<lambda>x. case x of None \<Rightarrow> [] | Some y \<Rightarrow> [y]) xs)"

definition diff3_item ::
  "DirectoryTree \<Rightarrow> DirectoryTree \<Rightarrow> DirectoryTree \<Rightarrow> CompareOpt \<Rightarrow> path \<Rightarrow>
     DirectoryDiffLine3 list \<times> common3 list \<Rightarrow> (DirectoryDiffLine3 list \<times> common3 list) result" where
  "diff3_item ta tb tc opt itn st = (case st of (res, commonDirectories) \<Rightarrow>
     bindE (lookupNode ta itn) (\<lambda>ita. bindE (lookupNode tb itn) (\<lambda>itb. bindE (lookupNode tc itn) (\<lambda>itc.
     let existing = opt_list [ita, itb, itc]; numExisting = length existing in
     bindE (assertE (numExisting > 0)) (\<lambda>_.
     case (ita, itb, itc) of
       (Some a, Some b, Some c) \<Rightarrow>
         let ab = compare (elem a) (elem b) opt; bc = compare (elem b) (elem c) opt;
             numDirs = length (filter (\<lambda>n. isDirectory (elem n)) [a, b, c]) in
         bindE (if \<not> ab \<or> \<not> bc then Inr (res @ [(Some (elem a), Some (elem b), Some (elem c))])
                else bindE (assertE (compare (elem a) (elem c) opt)) (\<lambda>_. Inr res)) (\<lambda>res.
         Inr (res, if numDirs \<ge> 2 then commonDirectories @ [(only_dir a, only_dir b, only_dir c)]
                   else commonDirectories))
     | _ \<Rightarrow>
         Inr (res @ [(map_option elem ita, map_option elem itb, map_option elem itc)],
              if numExisting = 2 \<and> isDirectory (elem (existing ! 0)) \<and> isDirectory (elem (existing ! 1))
              then commonDirectories @ [(ita, itb, itc)] else commonDirectories))))))"

text \<open>
  The second loop: directories of all three trees are compared by \<open>compare3\<close>, directories of two
  trees by the helper for two trees.
\<close>

definition compareDirs3 ::
  "(DirectoryNode list \<Rightarrow> DirectoryNode list \<Rightarrow> DirectoryNode list \<Rightarrow> DirectoryDiffLine3 list \<Rightarrow>
      DirectoryDiffLine3 list result) \<Rightarrow>
     nat \<Rightarrow> (path list \<Rightarrow> path list) \<Rightarrow> DirectoryTree \<Rightarrow> DirectoryTree \<Rightarrow> DirectoryTree \<Rightarrow> CompareOpt \<Rightarrow>
     common3 \<Rightarrow> DirectoryDiffLine3 list \<Rightarrow> DirectoryDiffLine3 list result" where
  "compareDirs3 compare3 fuel visit ta tb tc opt dirs res = (case dirs of
       (Some da, Some db, Some dc) \<Rightarrow> compare3 (content da) (content db) (content dc) res
     | (None, Some db, Some dc) \<Rightarrow>
         bindE (recursiveCompare2 fuel visit tb tc opt (content db) (content dc) []) (\<lambda>rs.
         Inr (res @ map (\<lambda>(r0, r1). (None, r0, r1)) rs))
     | (Some da, None, Some dc) \<Rightarrow>
         bindE (recursiveCompare2 fuel visit ta tc opt (content da) (content dc) []) (\<lambda>rs.
         Inr (res @ map (\<lambda>(r0, r1). (r0, None, r1)) rs))
     | (Some da, Some db, None) \<Rightarrow>
         bindE (recursiveCompare2 fuel visit ta tb opt (content da) (content db) []) (\<lambda>rs.
         Inr (res @ map (\<lambda>(r0, r1). (r0, r1, None)) rs))
     | _ \<Rightarrow> Inl Abort)"

fun recursiveCompare3 ::
  "nat \<Rightarrow> (path list \<Rightarrow> path list) \<Rightarrow> DirectoryTree \<Rightarrow> DirectoryTree \<Rightarrow> DirectoryTree \<Rightarrow> CompareOpt \<Rightarrow>
     DirectoryNode list \<Rightarrow> DirectoryNode list \<Rightarrow> DirectoryNode list \<Rightarrow> DirectoryDiffLine3 list \<Rightarrow>
     DirectoryDiffLine3 list result" where
  "recursiveCompare3 0 visit ta tb tc opt a b c res = Inl Diverged"
| "recursiveCompare3 (Suc fuel) visit ta tb tc opt a b c res =
     (let itemNames = visit (map node_rp a @ map node_rp b @ map node_rp c) in
      bindE (foldE (diff3_item ta tb tc opt) itemNames (res, [])) (\<lambda>(res, commonDirectories).
      foldE (compareDirs3 (recursiveCompare3 fuel visit ta tb tc opt) fuel visit ta tb tc opt)
        commonDirectories res))"

definition diff3 ::
  "(path list \<Rightarrow> path list) \<Rightarrow> DirectoryTree \<Rightarrow> DirectoryTree \<Rightarrow> DirectoryTree \<Rightarrow> CompareOpt \<Rightarrow>
     DirectoryDiffLine3 list result" where
  "diff3 visit a b c opt =
     recursiveCompare3 (tree_fuel a + tree_fuel b) visit a b c opt (topContent a) (topContent b)
       (topContent c) []"

section \<open>What is reported\<close>

type_synonym entries = "path \<Rightarrow> FilesystemElement option"

definition differs :: "CompareOpt \<Rightarrow> FilesystemElement option \<Rightarrow> FilesystemElement option \<Rightarrow> bool" where
  "differs opt a b = (case (a, b) of (Some x, Some y) \<Rightarrow> \<not> compare x y opt
     | (None, None) \<Rightarrow> False | _ \<Rightarrow> True)"

definition dir_at :: "(path \<Rightarrow> FilesystemElement option) \<Rightarrow> path \<Rightarrow> bool" where
  "dir_at A p = (case A p of None \<Rightarrow> False | Some e \<Rightarrow> isDirectory e)"

text \<open>The empty path stands for the compared directories themselves.\<close>

definition has_dir :: "(path \<Rightarrow> FilesystemElement option) \<Rightarrow> path \<Rightarrow> bool" where
  "has_dir A p \<longleftrightarrow> p = [] \<or> dir_at A p"

definition reported2 ::
  "CompareOpt \<Rightarrow> (path \<Rightarrow> FilesystemElement option) \<Rightarrow> (path \<Rightarrow> FilesystemElement option) \<Rightarrow> path \<Rightarrow> bool"
where
  "reported2 opt A B x \<longleftrightarrow>
     has_dir A (parent_path x) \<and> has_dir B (parent_path x) \<and> differs opt (A x) (B x)"

definition reported3 ::
  "CompareOpt \<Rightarrow> (path \<Rightarrow> FilesystemElement option) \<Rightarrow> (path \<Rightarrow> FilesystemElement option) \<Rightarrow>
     (path \<Rightarrow> FilesystemElement option) \<Rightarrow> path \<Rightarrow> bool"
where
  "reported3 opt A B C x =
     (case (has_dir A (parent_path x), has_dir B (parent_path x), has_dir C (parent_path x)) of
        (True, True, True) \<Rightarrow> differs opt (A x) (B x) \<or> differs opt (B x) (C x)
      | (False, True, True) \<Rightarrow> differs opt (B x) (C x)
      | (True, False, True) \<Rightarrow> differs opt (A x) (C x)
      | (True, True, False) \<Rightarrow> differs opt (A x) (B x)
      | _ \<Rightarrow> False)"

section \<open>Nodes and directories by path\<close>

definition node_at :: "DirectoryTree \<Rightarrow> path \<Rightarrow> DirectoryNode option" where
  "node_at t p = find (\<lambda>n. node_rp n = p) (nodes_in (topContent t))"

lemma node_at_Some:
  assumes "wf_tree t"
  shows "node_at t p = Some n \<longleftrightarrow> n \<in> tree_nodes t \<and> node_rp n = p"
proof -
  have "inj_on node_rp (set (nodes_in (topContent t)))"
    using distinct_nodes_in [OF dir_path_Nil wf_treeD(1) [OF assms]] by (simp only: distinct_map)
  from find_unique [OF this, of n]
  have "n \<in> tree_nodes t \<Longrightarrow> node_rp n = p \<Longrightarrow> node_at t p = Some n"
    by (simp add: node_at_def tree_nodes_def)
  moreover have "node_at t p = Some n \<Longrightarrow> n \<in> tree_nodes t \<and> node_rp n = p"
    by (auto simp: node_at_def tree_nodes_def find_Some_iff simp del: set_concat intro: nth_mem)
  ultimately show ?thesis by blast
qed

lemma entries_node_at:
  assumes "wf_tree t"
  shows "tree_entries t p = map_option elem (node_at t p)"
proof -
  have "tree_entries t p = Some e \<longleftrightarrow> map_option elem (node_at t p) = Some e" for e
    using node_at_Some [OF assms, of p] wf_tree_entries [OF assms, of p e] by auto
  then show ?thesis by (metis not_None_eq)
qed

lemma lookupNode_node_at:
  assumes "wf_tree t"
  shows "lookupNode t p = Inr (node_at t p)"
proof (cases "node_at t p")
  case None
  then have "index t p = None" using entries_node_at [OF assms] index_None_iff [OF assms] by simp
  with None show ?thesis by (simp add: lookupNode_def)
next
  case (Some n)
  then have "n \<in> tree_nodes t" "node_rp n = p" using node_at_Some [OF assms] by blast+
  then show ?thesis
    using Some index_node [OF assms] deref_node [OF assms] by (auto simp: lookupNode_def)
qed

text \<open>The list of entries of a directory.\<close>

definition dir_content :: "DirectoryTree \<Rightarrow> path \<Rightarrow> DirectoryNode list \<Rightarrow> bool" where
  "dir_content t p c \<longleftrightarrow> (p = [] \<and> c = topContent t) \<or>
     (\<exists>n \<in> tree_nodes t. node_rp n = p \<and> isDirectory (elem n) \<and> c = content n)"

lemma dir_content_top: "dir_content t [] (topContent t)"
  by (simp add: dir_content_def)

lemma dir_content_node:
  assumes "wf_tree t" and "dir_at (tree_entries t) p"
  shows "dir_content t p (content (the (node_at t p)))"
proof -
  obtain n where n: "node_at t p = Some n" "isDirectory (elem n)"
    using assms(2) by (auto simp: dir_at_def entries_node_at [OF assms(1)] split: option.splits)
  then have "n \<in> tree_nodes t" "node_rp n = p" using node_at_Some [OF assms(1)] by blast+
  then show ?thesis using n by (auto simp: dir_content_def)
qed

lemma dir_content_wf:
  assumes "wf_tree t" and "dir_content t p c"
  shows "dir_path p" and "wf_forest p c" and "has_dir (tree_entries t) p"
    and "set (nodes_in c) = {m \<in> tree_nodes t. below p (node_rp m)}"
proof -
  note f = wf_treeD(1) [OF assms(1)]
  have "dir_path p \<and> wf_forest p c \<and> has_dir (tree_entries t) p \<and>
      set (nodes_in c) = {m \<in> tree_nodes t. below p (node_rp m)}"
  proof (cases "p = [] \<and> c = topContent t")
    case True
    have "m \<in> tree_nodes t \<Longrightarrow> node_rp m \<noteq> []" for m
      using below_not_Nil [OF wf_forest_below [OF dir_path_Nil f]] unfolding tree_nodes_def by blast
    then show ?thesis using True f by (auto simp: has_dir_def tree_nodes_def below_def)
  next
    case False
    then obtain n where n: "n \<in> tree_nodes t" "node_rp n = p" "isDirectory (elem n)" "c = content n"
      using assms(2) by (auto simp: dir_content_def)
    have nn: "n \<in> set (nodes_in (topContent t))" using n(1) by (simp add: tree_nodes_def)
    note w = wf_forest_sub [OF dir_path_Nil f nn]
    have "has_dir (tree_entries t) p"
      using n tree_entries_node [OF assms(1) n(1)] by (simp add: has_dir_def dir_at_def)
    moreover have "m \<in> set (nodes_in c)" if "m \<in> tree_nodes t" "below p (node_rp m)" for m
    proof -
      have "m \<in> set (nodes_of n)"
        using at_or_below_subtree [OF dir_path_Nil f nn, of m] that n(2)
        unfolding tree_nodes_def at_or_below_def by blast
      moreover have "m \<noteq> n" using that(2) n(2) by auto
      ultimately show ?thesis unfolding nodes_of_eq [of n] n(4) by simp
    qed
    moreover have "set (nodes_in c) \<subseteq> tree_nodes t"
      using nodes_in_trans [OF nn] unfolding nodes_of_eq [of n] n(4) tree_nodes_def by simp
    ultimately show ?thesis
      using w(3,4) wf_forest_below [OF w(3,4)] n(2,4) by blast
  qed
  then show "dir_path p" and "wf_forest p c" and "has_dir (tree_entries t) p"
    and "set (nodes_in c) = {m \<in> tree_nodes t. below p (node_rp m)}" by blast+
qed

lemma dir_content_children:
  assumes "wf_tree t" and "dir_content t p c"
  shows "x \<in> node_rp ` set c \<longleftrightarrow> tree_entries t x \<noteq> None \<and> parent_path x = p"
proof
  note w = dir_content_wf [OF assms]
  {
    assume "x \<in> node_rp ` set c"
    then obtain n where n: "n \<in> set c" "x = node_rp n" by (metis imageE)
    then have "n \<in> tree_nodes t" using in_nodes_in [OF n(1)] w(4) by blast
    then show "tree_entries t x \<noteq> None \<and> parent_path x = p"
      using tree_entries_node [OF assms(1)] n(2) wf_node_parent [OF w(1) wf_forestD(3) [OF w(2) n(1)]]
      by simp
  }
  assume x: "tree_entries t x \<noteq> None \<and> parent_path x = p"
  then obtain n where n: "n \<in> tree_nodes t" "node_rp n = x" using wf_tree_entries [OF assms(1)] by blast
  have nn: "n \<in> set (nodes_in (topContent t))" using n(1) by (simp add: tree_nodes_def)
  have "below p (node_rp n)"
    using wf_node_below [OF wf_forest_sub(1,2) [OF dir_path_Nil wf_treeD(1) [OF assms(1)] nn]] x n(2)
    by simp
  then have "n \<in> set (nodes_in c)" using w(4) n(1) by blast
  from wf_forest_holder [OF w(1,2) this] show "x \<in> node_rp ` set c"
  proof
    assume "n \<in> set c \<and> parent_path (node_rp n) = p"
    then show ?thesis using n(2) by blast
  next
    assume "\<exists>k \<in> set (nodes_in c). node_rp k = parent_path (node_rp n) \<and> isDirectory (elem k) \<and> n \<in> set (content k)"
    then obtain k where "k \<in> set (nodes_in c)" "node_rp k = p" using x n(2) by blast
    then show ?thesis using w(4) not_below_self by blast
  qed
qed

lemma has_dir_above:
  assumes "wf_tree t" and "has_dir (tree_entries t) q" and "at_or_below x q" and "x \<noteq> []"
  shows "dir_at (tree_entries t) x"
proof -
  note f = wf_treeD(1) [OF assms(1)]
  have "q \<noteq> []" using assms(3,4) by (auto simp: at_or_below_def below_def split: if_splits)
  then have dq: "dir_at (tree_entries t) q" using assms(2) by (simp add: has_dir_def)
  show ?thesis
  proof (cases "q = x")
    case False
    obtain m where m: "m \<in> set (nodes_in (topContent t))" "node_rp m = q"
      using dq wf_tree_entries [OF assms(1)] unfolding dir_at_def tree_nodes_def
      by (auto split: option.splits)
    obtain k where k: "k \<in> set (nodes_in (topContent t))" "node_rp k = x"
      using ancestor_present [OF dir_path_Nil f m(1), of x] m(2) assms(3,4) by (auto simp: below_def)
    have "m \<in> set (nodes_of k)"
      using at_or_below_subtree [OF dir_path_Nil f k(1) m(1)] k(2) m(2) assms(3) by simp
    then have "content k \<noteq> []" using False m(2) k(2) by (cases k) auto
    then have "isDirectory (elem k)"
      using wf_forest_leaf [OF dir_path_Nil f] k(1) by blast
    then show ?thesis
      using tree_entries_node [OF assms(1), of k] k unfolding tree_nodes_def
      by (simp add: dir_at_def del: set_concat)
  qed (use dq in simp)
qed

lemma dir_content_cover:
  assumes "wf_tree t" and "dir_content t p c" and "tree_entries t y \<noteq> None" and "below p y"
  shows "y \<in> node_rp ` set c \<or> (\<exists>x \<in> node_rp ` set c. at_or_below x (parent_path y) \<and> below x y)"
proof -
  note w = dir_content_wf [OF assms(1,2)]
  obtain m where m: "m \<in> tree_nodes t" "node_rp m = y"
    using assms(3) wf_tree_entries [OF assms(1)] by blast
  then have "m \<in> set (nodes_in c)" using w(4) assms(4) by blast
  then obtain x where x: "x \<in> set c" "m \<in> set (nodes_of x)" by auto
  have ab: "at_or_below (node_rp x) y"
    using wf_node_nodes_of [OF w(1) wf_forestD(3) [OF w(2) x(1)] x(2)] m(2) by simp
  show ?thesis
  proof (cases "y = node_rp x")
    case True
    then show ?thesis using x(1) by blast
  next
    case False
    have mm: "m \<in> set (nodes_in (topContent t))" using m(1) by (simp add: tree_nodes_def)
    note wm = wf_forest_sub [OF dir_path_Nil wf_treeD(1) [OF assms(1)] mm]
    obtain nm where nm: "valid_name nm" "y = child (parent_path y) nm"
      using wm(2) m(2) by (auto elim!: wf_nodeE)
    have b: "below (node_rp x) y" using ab False by (simp add: at_or_below_def)
    moreover have "dir_path (parent_path y)" using wm(1) m(2) by simp
    ultimately have "at_or_below (node_rp x) (parent_path y)"
      using below_child_iff [OF _ nm(1), of "parent_path y" "node_rp x"] nm(2) by simp
    with b x(1) show ?thesis by blast
  qed
qed

lemma dir_content_names:
  assumes "wf_tree t" and "dir_content t p c" and "x \<in> node_rp ` set c"
  shows "\<exists>nm. valid_name nm \<and> x = child p nm"
  using dir_content_wf(2) [OF assms(1,2)] assms(3) by (auto dest: wf_forestD(3) elim!: wf_nodeE)

text \<open>
  One level of a comparison: what is reported in a directory and in the directories in it that are
  compared further.
\<close>

lemma level_split:
  assumes p: "dir_path p" and N: "distinct N" "\<And>x. x \<in> set N \<Longrightarrow> \<exists>nm. valid_name nm \<and> x = child p nm"
    and g: "\<And>x. x \<in> set N \<Longrightarrow> D x \<Longrightarrow> distinct (g x) \<and> set (g x) = {y. below x y \<and> R y}"
    and cover: "\<And>y. below p y \<Longrightarrow> R y \<Longrightarrow> y \<in> set N \<or> (\<exists>x \<in> set N. D x \<and> below x y)"
  shows "distinct (filter R N @ concat (map g (filter D N)))"
    and "set (filter R N @ concat (map g (filter D N))) = {y. below p y \<and> R y}"
proof -
  have same: "x = z" if "x \<in> set N" "z \<in> set N" "at_or_below x y" "at_or_below z y" for x z y
    using N(2) [OF that(1)] N(2) [OF that(2)] at_or_below_child_unique [OF p] that(3,4) by blast
  have "distinct (concat (map g xs))" if "distinct xs" "set xs \<subseteq> {x \<in> set N. D x}" for xs
    using that
  proof (induction xs)
    case (Cons x xs)
    have "set (g x) \<inter> set (concat (map g xs)) = {}"
    proof (rule ccontr)
      assume "\<not> ?thesis"
      then obtain y z where y: "y \<in> set (g x)" "z \<in> set xs" "y \<in> set (g z)" by auto
      have "x = z"
        using same [of x z y] g Cons.prems(2) y by (auto simp: at_or_below_def)
      then show False using Cons.prems(1) y(2) by simp
    qed
    then show ?case using Cons g by auto
  qed simp
  then have "distinct (concat (map g (filter D N)))" using N(1) by simp
  moreover have "set (filter R N) \<inter> set (concat (map g (filter D N))) = {}"
  proof (rule ccontr)
    assume "\<not> ?thesis"
    then obtain x y where y: "y \<in> set N" "x \<in> set N" "D x" "y \<in> set (g x)" by auto
    then have "below x y" using g by blast
    then have "x = y" using same [of x y y] y by (auto simp: at_or_below_def)
    then show False using \<open>below x y\<close> by simp
  qed
  ultimately show "distinct (filter R N @ concat (map g (filter D N)))" using N(1) by simp
  have "below p x" if "x \<in> set N" for x using N(2) [OF that] below_child [OF p] by auto
  then show "set (filter R N @ concat (map g (filter D N))) = {y. below p y \<and> R y}"
    using g cover below_trans by (auto, blast+)
qed

lemma foldE_reports:
  assumes "\<And>d r. d \<in> set ds \<Longrightarrow> f d r = Inr (r @ h d)"
  shows "foldE f ds r = Inr (r @ concat (map h ds))"
  using assms by (induction ds arbitrary: r) simp_all

text \<open>
  One level with the levels below it, where each of the latter appends lines to the result.
\<close>

lemma level_compare:
  fixes line :: "path \<Rightarrow> 'l"
  assumes p: "dir_path p" and N: "distinct N" "\<And>x. x \<in> set N \<Longrightarrow> \<exists>nm. valid_name nm \<and> x = child p nm"
    and f: "\<And>x. x \<in> set N \<Longrightarrow> D x \<Longrightarrow> \<exists>xs. (\<forall>r. f x r = Inr (r @ map line xs)) \<and> distinct xs \<and>
      set xs = {y. below x y \<and> R y}"
    and cover: "\<And>y. below p y \<Longrightarrow> R y \<Longrightarrow> y \<in> set N \<or> (\<exists>x \<in> set N. D x \<and> below x y)"
  shows "\<exists>xs. (\<forall>r. foldE f (filter D N) (r @ map line (filter R N)) = Inr (r @ map line xs)) \<and>
    distinct xs \<and> set xs = {y. below p y \<and> R y}"
proof -
  define P where "P x xs \<longleftrightarrow> (\<forall>r. f x r = Inr (r @ map line xs)) \<and> distinct xs \<and>
      set xs = {y. below x y \<and> R y}" for x xs
  define g where "g x = (SOME xs. P x xs)" for x
  have "P x (g x)" if "x \<in> set N" "D x" for x
    unfolding g_def by (rule someI_ex) (use f [OF that] in \<open>simp only: P_def\<close>)
  then have g: "\<And>x r. x \<in> set N \<Longrightarrow> D x \<Longrightarrow> f x r = Inr (r @ map line (g x))"
    "\<And>x. x \<in> set N \<Longrightarrow> D x \<Longrightarrow> distinct (g x) \<and> set (g x) = {y. below x y \<and> R y}"
    unfolding P_def by blast+
  note lev = level_split [where D = D and g = g and R = R, OF p N g(2) cover]
  have "foldE f (filter D N) (r @ map line (filter R N)) =
      Inr (r @ map line (filter R N @ concat (map g (filter D N))))" for r
    using foldE_reports [of "filter D N" f "\<lambda>x. map line (g x)"] g(1)
    by (simp add: map_concat comp_def)
  with lev show ?thesis by blast
qed

section \<open>The comparison of two trees\<close>

lemma diff2_items:
  assumes "wf_tree ta" and "wf_tree tb"
  defines "A \<equiv> tree_entries ta" and "B \<equiv> tree_entries tb"
  assumes "\<forall>x \<in> set xs. A x \<noteq> None \<or> B x \<noteq> None"
  shows "foldE (diff2_item ta tb opt) xs (res, cs) =
    Inr (res @ map (\<lambda>x. (A x, B x)) (filter (\<lambda>x. differs opt (A x) (B x)) xs),
         cs @ map (\<lambda>x. (the (node_at ta x), the (node_at tb x))) (filter (\<lambda>x. dir_at A x \<and> dir_at B x) xs))"
  using assms(5)
proof (induction xs arbitrary: res cs)
  case (Cons x xs)
  have "A x = map_option elem (node_at ta x)" "B x = map_option elem (node_at tb x)"
    using entries_node_at assms(1,2) unfolding A_def B_def by blast+
  then have "diff2_item ta tb opt x (res, cs) =
      Inr (if differs opt (A x) (B x) then res @ [(A x, B x)] else res,
           if dir_at A x \<and> dir_at B x then cs @ [(the (node_at ta x), the (node_at tb x))] else cs)"
    using Cons.prems
    by (auto simp: diff2_item_def lookupNode_node_at [OF assms(1)] lookupNode_node_at [OF assms(2)]
        differs_def dir_at_def split: option.splits)
  then show ?case using Cons by simp
qed simp

lemma nodes_in_shorter: "x \<in> set c \<Longrightarrow> length (nodes_in (content x)) < length (nodes_in c)"
proof (induction c)
  case (Cons y c)
  have "length (nodes_of y) = Suc (length (nodes_in (content y)))" by (subst nodes_of_eq) simp
  with Cons show ?case by auto
qed simp

lemma node_at_child:
  assumes "wf_tree t" and "dir_content t p c" and "x \<in> node_rp ` set c"
  shows "\<exists>n \<in> set c. node_at t x = Some n"
proof -
  obtain n where n: "n \<in> set c" "x = node_rp n" using assms(3) by (metis imageE)
  then have "n \<in> tree_nodes t"
    using in_nodes_in [OF n(1)] dir_content_wf(4) [OF assms(1,2)] by blast
  then have "node_at t x = Some n" using n(2) node_at_Some [OF assms(1), of x n] by simp
  with n(1) show ?thesis by (rule bexI [rotated])
qed

lemma below_reported_cover:
  assumes "wf_tree ta" and "wf_tree tb" and "dir_content ta p a" and "dir_content tb p b"
    and "below p y" and "reported2 opt (tree_entries ta) (tree_entries tb) y"
    and "N = node_rp ` set a \<union> node_rp ` set b"
  shows "y \<in> N \<or> (\<exists>x \<in> N. (dir_at (tree_entries ta) x \<and> dir_at (tree_entries tb) x) \<and> below x y)"
proof -
  have ne: "x \<noteq> []" if "x \<in> N" for x
  proof -
    have "x \<in> node_rp ` set a \<or> x \<in> node_rp ` set b" using that unfolding assms(7) by (rule UnE) simp_all
    then obtain nm where "valid_name nm" "x = child p nm"
      using dir_content_names [OF assms(1,3)] dir_content_names [OF assms(2,4)] by metis
    then show ?thesis using dir_content_wf(1) [OF assms(1,3)] by simp
  qed
  have "tree_entries ta y \<noteq> None \<or> tree_entries tb y \<noteq> None"
    using assms(6) by (auto simp: reported2_def differs_def split: option.splits)
  then have "y \<in> N \<or> (\<exists>x \<in> N. at_or_below x (parent_path y) \<and> below x y)"
    unfolding assms(7)
    by (rule disjE) (use dir_content_cover [OF assms(1,3) _ assms(5)]
        dir_content_cover [OF assms(2,4) _ assms(5)] in \<open>simp_all only: Un_iff bex_Un, blast+\<close>)
  moreover have "dir_at (tree_entries ta) x \<and> dir_at (tree_entries tb) x"
    if "x \<in> N" "at_or_below x (parent_path y)" for x
    using has_dir_above [OF assms(1) _ that(2) ne [OF that(1)]]
      has_dir_above [OF assms(2) _ that(2) ne [OF that(1)]] assms(6)
    by (simp add: reported2_def)
  ultimately show ?thesis by metis
qed

lemma entries_Nil: "wf_tree t \<Longrightarrow> tree_entries t [] = None"
  using wf_tree_entries [of t "[]"] below_not_Nil [OF wf_forest_below [OF dir_path_Nil wf_treeD(1)]]
  unfolding tree_nodes_def by (metis not_None_eq)

lemma present_child:
  assumes "wf_tree t" and "tree_entries t y \<noteq> None"
  shows "\<exists>nm. valid_name nm \<and> dir_path (parent_path y) \<and> y = child (parent_path y) nm"
proof -
  obtain m where m: "m \<in> set (nodes_in (topContent t))" "node_rp m = y"
    using assms(2) wf_tree_entries [OF assms(1)] unfolding tree_nodes_def by blast
  note w = wf_forest_sub [OF dir_path_Nil wf_treeD(1) [OF assms(1)] m(1)]
  from w(2) show ?thesis by (rule wf_nodeE) (use w(1) m(2) in auto)
qed

lemma present_parent:
  assumes "wf_tree t" and "tree_entries t y \<noteq> None"
  shows "has_dir (tree_entries t) (parent_path y)" and "below x y \<Longrightarrow> at_or_below x (parent_path y)"
    and "length (parent_path y) < length y"
proof -
  obtain nm where nm: "valid_name nm" "dir_path (parent_path y)" "y = child (parent_path y) nm"
    using present_child [OF assms] by blast
  show "below x y \<Longrightarrow> at_or_below x (parent_path y)"
    using below_child_iff [OF nm(2,1), of x] nm(3) by simp
  show "length (parent_path y) < length y"
    using below_length [OF below_child [OF nm(2,1)]] nm(3) by simp
  obtain m where m: "m \<in> set (nodes_in (topContent t))" "node_rp m = y"
    using assms(2) wf_tree_entries [OF assms(1)] unfolding tree_nodes_def by blast
  from wf_forest_holder [OF dir_path_Nil wf_treeD(1) [OF assms(1)] m(1)]
  show "has_dir (tree_entries t) (parent_path y)"
  proof
    assume "\<exists>k \<in> set (nodes_in (topContent t)). node_rp k = parent_path (node_rp m) \<and>
      isDirectory (elem k) \<and> m \<in> set (content k)"
    then obtain k where "k \<in> tree_nodes t" "node_rp k = parent_path y" "isDirectory (elem k)"
      using m(2) unfolding tree_nodes_def by blast
    then show ?thesis
      using tree_entries_node [OF assms(1), of k] by (simp add: has_dir_def dir_at_def)
  qed (simp add: has_dir_def m(2))
qed

lemma differs_present: "differs opt a b \<Longrightarrow> a \<noteq> None \<or> b \<noteq> None"
  by (cases a; cases b) (simp_all add: differs_def)

text \<open>If nothing is reported, the trees agree at every path.\<close>

lemma nothing_reported_iff:
  assumes "wf_tree ta" and "wf_tree tb"
  shows "(\<forall>x. \<not> reported2 opt (tree_entries ta) (tree_entries tb) x) \<longleftrightarrow>
    (\<forall>x. \<not> differs opt (tree_entries ta x) (tree_entries tb x))"
proof
  assume none: "\<forall>x. \<not> reported2 opt (tree_entries ta) (tree_entries tb) x"
  have "\<not> differs opt (tree_entries ta x) (tree_entries tb x)" for x
  proof (induction "length x" arbitrary: x rule: less_induct)
    case less
    show ?case
    proof
      assume d: "differs opt (tree_entries ta x) (tree_entries tb x)"
      then have one: "has_dir (tree_entries ta) (parent_path x) \<or> has_dir (tree_entries tb) (parent_path x)"
        and "length (parent_path x) < length x"
        using present_parent(1,3) [OF assms(1)] present_parent(1,3) [OF assms(2)] differs_present
        by blast+
      from less [OF this(2)] one
      have "has_dir (tree_entries ta) (parent_path x) \<and> has_dir (tree_entries tb) (parent_path x)"
        by (auto simp: has_dir_def dir_at_def differs_def compare_iff isDirectory_def split: option.splits)
      then show False using d none by (auto simp: reported2_def)
    qed
  qed
  then show "\<forall>x. \<not> differs opt (tree_entries ta x) (tree_entries tb x)" by blast
qed (simp add: reported2_def)

locale path_iteration = unordered_iteration visit
  for visit :: "path list \<Rightarrow> path list"
begin

lemma recursiveCompare2_reports:
  assumes "wf_tree ta" and "wf_tree tb"
  defines "A \<equiv> tree_entries ta" and "B \<equiv> tree_entries tb"
  assumes "dir_content ta p a" and "dir_content tb p b" and "length (nodes_in a) < fuel"
  shows "\<exists>xs. (\<forall>r. recursiveCompare2 fuel visit ta tb opt a b r = Inr (r @ map (\<lambda>x. (A x, B x)) xs)) \<and>
    distinct xs \<and> set xs = {x. below p x \<and> reported2 opt A B x}"
  using assms(5-7)
proof (induction fuel arbitrary: p a b)
  case (Suc fuel)
  let ?D = "\<lambda>x. dir_at A x \<and> dir_at B x" and ?R = "reported2 opt A B" and ?line = "\<lambda>x. (A x, B x)"
    and ?f = "\<lambda>x. recursiveCompare2 fuel visit ta tb opt (content (the (node_at ta x)))
      (content (the (node_at tb x)))"
  define N where "N = visit (map node_rp a @ map node_rp b)"
  have N: "set N = node_rp ` set a \<union> node_rp ` set b" by (simp add: set_visit N_def)
  note ca = dir_content_children [OF assms(1) Suc.prems(1), folded A_def]
    and cb = dir_content_children [OF assms(2) Suc.prems(2), folded B_def]
    and wa = dir_content_wf [OF assms(1) Suc.prems(1), folded A_def]
    and wb = dir_content_wf [OF assms(2) Suc.prems(2), folded B_def]
  have inN: "A x \<noteq> None \<or> B x \<noteq> None" "parent_path x = p" if "x \<in> set N" for x
    using that ca cb unfolding N by blast+
  have R: "filter (\<lambda>x. differs opt (A x) (B x)) N = filter ?R N"
    using inN(2) wa(3) wb(3) by (intro filter_cong) (simp_all add: reported2_def)
  have nm: "\<exists>nm. valid_name nm \<and> x = child p nm" if "x \<in> set N" for x
    using that dir_content_names [OF assms(1) Suc.prems(1)] dir_content_names [OF assms(2) Suc.prems(2)]
    unfolding N by blast
  have cover: "y \<in> set N \<or> (\<exists>x \<in> set N. ?D x \<and> below x y)" if "below p y" "?R y" for y
    using below_reported_cover [OF assms(1,2) Suc.prems(1,2) that(1) _ N] that(2)
    unfolding A_def B_def by blast
  have "\<exists>xs. (\<forall>r. ?f x r = Inr (r @ map ?line xs)) \<and> distinct xs \<and> set xs = {y. below x y \<and> ?R y}"
    if x: "x \<in> set N" "?D x" for x
  proof (rule Suc.IH)
    have "x \<in> node_rp ` set a" using ca x inN(2) [OF x(1)] by (auto simp: dir_at_def split: option.splits)
    then obtain n where "n \<in> set a" "node_at ta x = Some n"
      using node_at_child [OF assms(1) Suc.prems(1)] by blast
    then show "length (nodes_in (content (the (node_at ta x)))) < fuel"
      using nodes_in_shorter Suc.prems(3) by fastforce
  qed (use x in \<open>simp_all add: dir_content_node assms(1,2) flip: A_def B_def\<close>)
  from level_compare [where D = ?D and R = ?R and line = ?line and f = ?f,
      OF wa(1) distinct_visit [of "map node_rp a @ map node_rp b", folded N_def] nm this cover]
  obtain xs where xs: "\<forall>r. foldE ?f (filter ?D N) (r @ map ?line (filter ?R N)) = Inr (r @ map ?line xs)"
    "distinct xs" "set xs = {y. below p y \<and> ?R y}" by blast
  have "recursiveCompare2 (Suc fuel) visit ta tb opt a b r = Inr (r @ map ?line xs)" for r
    using xs(1) diff2_items [OF assms(1,2), of N opt r "[]"] inN(1) R unfolding A_def B_def
    by (simp add: Let_def foldE_map flip: N_def)
  with xs(2,3) show ?case by blast
qed simp

lemma diff2_reports:
  assumes "wf_tree ta" and "wf_tree tb"
  defines "A \<equiv> tree_entries ta" and "B \<equiv> tree_entries tb"
  shows "\<exists>xs. diff2 visit ta tb opt = Inr (map (\<lambda>x. (A x, B x)) xs) \<and>
    distinct xs \<and> set xs = {x. reported2 opt A B x}"
proof -
  obtain xs where xs: "\<forall>r. recursiveCompare2 (tree_fuel ta) visit ta tb opt (topContent ta) (topContent tb) r =
      Inr (r @ map (\<lambda>x. (A x, B x)) xs)" "distinct xs" "set xs = {x. below [] x \<and> reported2 opt A B x}"
    using recursiveCompare2_reports [OF assms(1,2) dir_content_top dir_content_top, of "tree_fuel ta"]
    unfolding A_def B_def tree_fuel_def by blast
  have "x \<noteq> []" if "reported2 opt A B x" for x
    using that entries_Nil [OF assms(1)] entries_Nil [OF assms(2)]
    by (auto simp: reported2_def differs_def A_def B_def)
  then have "set xs = {x. reported2 opt A B x}" using xs(3) by (auto simp: below_def)
  then show ?thesis using xs(1,2) unfolding diff2_def by (intro exI [of _ xs]) simp
qed

lemma diff2_Nil_iff:
  assumes "wf_tree ta" and "wf_tree tb"
  shows "diff2 visit ta tb opt = Inr [] \<longleftrightarrow>
    (\<forall>x. \<not> differs opt (tree_entries ta x) (tree_entries tb x))"
proof -
  obtain xs where xs: "diff2 visit ta tb opt = Inr (map (\<lambda>x. (tree_entries ta x, tree_entries tb x)) xs)"
    "set xs = {x. reported2 opt (tree_entries ta) (tree_entries tb) x}"
    using diff2_reports [OF assms] by blast
  then have "diff2 visit ta tb opt = Inr [] \<longleftrightarrow> (\<forall>x. \<not> reported2 opt (tree_entries ta) (tree_entries tb) x)"
    by (cases xs) auto
  then show ?thesis using nothing_reported_iff [OF assms] by simp
qed

end

interpretation insertion_paths: path_iteration insertion_order
  by unfold_locales

end
