(* ===== verification/Ddm_Diff3.thy ===== *)
theory Ddm_Diff3
  imports Ddm_Diff
begin

text \<open>
  The comparison of three trees (\<^verbatim>\<open>diff3\<close> in core.cpp): which paths are reported, as long as
  the comparison of elements is transitive on the compared trees, which the code asserts.
\<close>

text \<open>What the assertion in the loop asks of the three trees.\<close>

definition transitive_at :: "CompareOpt \<Rightarrow> entries \<Rightarrow> entries \<Rightarrow> entries \<Rightarrow> path \<Rightarrow> bool" where
  "transitive_at opt A B C x = (case (A x, B x, C x) of
     (Some a, Some b, Some c) \<Rightarrow> compare a b opt \<longrightarrow> compare b c opt \<longrightarrow> compare a c opt | _ \<Rightarrow> True)"

text \<open>It holds if the hash is not compared, or if the second tree has all hashes.\<close>

lemma transitive_at_hash:
  assumes "\<not> opt_hash opt \<or>
    (\<forall>b. B x = Some b \<longrightarrow> fileHash b \<noteq> [] \<or> (\<forall>a. A x = Some a \<longrightarrow> fileHash a = []))"
  shows "transitive_at opt A B C x"
  unfolding transitive_at_def using assms compare_trans
  by (auto split: option.splits)

definition two_dirs :: "entries \<Rightarrow> entries \<Rightarrow> entries \<Rightarrow> path \<Rightarrow> bool" where
  "two_dirs A B C x \<longleftrightarrow>
     dir_at A x \<and> dir_at B x \<or> dir_at A x \<and> dir_at C x \<or> dir_at B x \<and> dir_at C x"

definition dir_node :: "DirectoryTree \<Rightarrow> path \<Rightarrow> DirectoryNode option" where
  "dir_node t x = (if dir_at (tree_entries t) x then node_at t x else None)"

lemma diff3_items:
  assumes "wf_tree ta" and "wf_tree tb" and "wf_tree tc"
  defines "A \<equiv> tree_entries ta" and "B \<equiv> tree_entries tb" and "C \<equiv> tree_entries tc"
  assumes "\<forall>x \<in> set xs. A x \<noteq> None \<or> B x \<noteq> None \<or> C x \<noteq> None"
    and "\<forall>x \<in> set xs. transitive_at opt A B C x"
  shows "foldE (diff3_item ta tb tc opt) xs (res, cs) =
    Inr (res @ map (\<lambda>x. (A x, B x, C x)) (filter (\<lambda>x. differs opt (A x) (B x) \<or> differs opt (B x) (C x)) xs),
         cs @ map (\<lambda>x. (dir_node ta x, dir_node tb x, dir_node tc x)) (filter (two_dirs A B C) xs))"
  using assms(7,8)
proof (induction xs arbitrary: res cs)
  case (Cons x xs)
  have e: "A x = map_option elem (node_at ta x)" "B x = map_option elem (node_at tb x)"
    "C x = map_option elem (node_at tc x)"
    using entries_node_at assms(1-3) unfolding A_def B_def C_def by blast+
  have "diff3_item ta tb tc opt x (res, cs) =
      Inr (if differs opt (A x) (B x) \<or> differs opt (B x) (C x) then res @ [(A x, B x, C x)] else res,
           if two_dirs A B C x then cs @ [(dir_node ta x, dir_node tb x, dir_node tc x)] else cs)"
    using Cons.prems e
    by (cases "node_at ta x"; cases "node_at tb x"; cases "node_at tc x")
       (simp_all add: diff3_item_def lookupNode_node_at [OF assms(1)] lookupNode_node_at [OF assms(2)]
        lookupNode_node_at [OF assms(3)] differs_def dir_at_def two_dirs_def dir_node_def opt_list_def
        only_dir_def transitive_at_def flip: A_def B_def C_def)
  then show ?case using Cons by simp
qed simp

section \<open>Reduction to two trees\<close>

lemma reported3_iff:
  "reported3 opt A B C x \<longleftrightarrow>
     (let a = has_dir A (parent_path x); b = has_dir B (parent_path x); c = has_dir C (parent_path x) in
      a \<and> b \<and> c \<and> (differs opt (A x) (B x) \<or> differs opt (B x) (C x)) \<or>
      \<not> a \<and> b \<and> c \<and> differs opt (B x) (C x) \<or> a \<and> \<not> b \<and> c \<and> differs opt (A x) (C x) \<or>
      a \<and> b \<and> \<not> c \<and> differs opt (A x) (B x))"
  by (simp add: reported3_def Let_def split: bool.splits)

lemma reported3_present:
  "reported3 opt A B C x \<Longrightarrow> A x \<noteq> None \<or> B x \<noteq> None \<or> C x \<noteq> None"
  using differs_present unfolding reported3_iff Let_def by blast

text \<open>A path below something that is not a directory of a tree is not in the tree.\<close>

lemma not_dir_above:
  assumes "wf_tree t" and "\<not> dir_at (tree_entries t) x" and "x \<noteq> []"
  shows "at_or_below x q \<Longrightarrow> \<not> has_dir (tree_entries t) q"
    and "below x y \<Longrightarrow> tree_entries t y = None"
proof -
  show *: "at_or_below x q \<Longrightarrow> \<not> has_dir (tree_entries t) q" for q
    using has_dir_above [OF assms(1) _ _ assms(3)] assms(2) by blast
  show "below x y \<Longrightarrow> tree_entries t y = None"
    using present_parent(1,2) [OF assms(1), of y] * by blast
qed

lemma below_reported3:
  assumes "wf_tree ta" and "wf_tree tb" and "wf_tree tc"
    and "reported3 opt (tree_entries ta) (tree_entries tb) (tree_entries tc) y" and "below x y"
  shows "at_or_below x (parent_path y)"
  using reported3_present [OF assms(4)] present_parent(2) assms(1-3,5) by blast

lemma below_reported2:
  assumes "wf_tree ta" and "wf_tree tb" and "reported2 opt (tree_entries ta) (tree_entries tb) y"
    and "below x y"
  shows "at_or_below x (parent_path y)"
  using differs_present present_parent(2) assms unfolding reported2_def by blast

lemma reported3_reduce:
  assumes "wf_tree ta" and "wf_tree tb" and "wf_tree tc" and "x \<noteq> []"
  defines "A \<equiv> tree_entries ta" and "B \<equiv> tree_entries tb" and "C \<equiv> tree_entries tc"
  shows "\<not> dir_at A x \<Longrightarrow> {y. below x y \<and> reported2 opt B C y} = {y. below x y \<and> reported3 opt A B C y}"
    and "\<not> dir_at B x \<Longrightarrow> {y. below x y \<and> reported2 opt A C y} = {y. below x y \<and> reported3 opt A B C y}"
    and "\<not> dir_at C x \<Longrightarrow> {y. below x y \<and> reported2 opt A B y} = {y. below x y \<and> reported3 opt A B C y}"
proof -
  have parent: "at_or_below x (parent_path y)"
    if "below x y" "reported3 opt A B C y \<or> reported2 opt B C y \<or> reported2 opt A C y \<or> reported2 opt A B y" for y
    using that below_reported3 [OF assms(1-3)] below_reported2 [OF assms(2,3)]
      below_reported2 [OF assms(1,3)] below_reported2 [OF assms(1,2)]
    unfolding A_def B_def C_def by blast
  show "\<not> dir_at A x \<Longrightarrow> {y. below x y \<and> reported2 opt B C y} = {y. below x y \<and> reported3 opt A B C y}"
    and "\<not> dir_at B x \<Longrightarrow> {y. below x y \<and> reported2 opt A C y} = {y. below x y \<and> reported3 opt A B C y}"
    and "\<not> dir_at C x \<Longrightarrow> {y. below x y \<and> reported2 opt A B y} = {y. below x y \<and> reported3 opt A B C y}"
    using parent not_dir_above(1) [OF assms(1) _ assms(4)] not_dir_above(1) [OF assms(2) _ assms(4)]
      not_dir_above(1) [OF assms(3) _ assms(4)]
    unfolding reported2_def reported3_iff Let_def A_def B_def C_def by blast+
qed

text \<open>Every reported path is an entry of the directory or below a directory that is gone down to.\<close>

lemma below_reported_cover3:
  assumes "wf_tree ta" and "wf_tree tb" and "wf_tree tc"
    and "dir_content ta p a" and "dir_content tb p b" and "dir_content tc p c"
    and "below p y" and "reported3 opt (tree_entries ta) (tree_entries tb) (tree_entries tc) y"
    and "N = node_rp ` set a \<union> node_rp ` set b \<union> node_rp ` set c"
  shows "y \<in> N \<or> (\<exists>x \<in> N. two_dirs (tree_entries ta) (tree_entries tb) (tree_entries tc) x \<and> below x y)"
proof -
  have ne: "x \<noteq> []" if "x \<in> N" for x
  proof -
    have "x \<in> node_rp ` set a \<or> x \<in> node_rp ` set b \<or> x \<in> node_rp ` set c"
      using that unfolding assms(9) by (simp only: Un_iff disj_assoc)
    then obtain nm where "valid_name nm" "x = child p nm"
      using dir_content_names [OF assms(1,4)] dir_content_names [OF assms(2,5)]
        dir_content_names [OF assms(3,6)] by metis
    then show ?thesis using dir_content_wf(1) [OF assms(1,4)] by simp
  qed
  from reported3_present [OF assms(8)]
  have "y \<in> N \<or> (\<exists>x \<in> N. at_or_below x (parent_path y) \<and> below x y)"
    unfolding assms(9)
    by (elim disjE) (use dir_content_cover [OF assms(1,4) _ assms(7)]
        dir_content_cover [OF assms(2,5) _ assms(7)] dir_content_cover [OF assms(3,6) _ assms(7)]
        in \<open>simp_all only: Un_iff bex_Un, blast+\<close>)
  moreover have "two_dirs (tree_entries ta) (tree_entries tb) (tree_entries tc) x"
    if "x \<in> N" "at_or_below x (parent_path y)" for x
    using has_dir_above [OF assms(1) _ that(2) ne [OF that(1)]]
      has_dir_above [OF assms(2) _ that(2) ne [OF that(1)]]
      has_dir_above [OF assms(3) _ that(2) ne [OF that(1)]] assms(8)
    unfolding reported3_iff Let_def two_dirs_def by blast
  ultimately show ?thesis by metis
qed

section \<open>The comparison of three trees\<close>

lemma dir_node_child:
  assumes "wf_tree t" and "dir_content t p c" and "parent_path x = p" and "dir_at (tree_entries t) x"
  shows "\<exists>n. dir_node t x = Some n \<and> dir_content t x (content n) \<and>
    length (nodes_in (content n)) < length (nodes_in c)"
proof -
  have "x \<in> node_rp ` set c"
    using dir_content_children [OF assms(1,2)] assms(3,4) by (auto simp: dir_at_def split: option.splits)
  then obtain n where n: "n \<in> set c" "node_at t x = Some n"
    using node_at_child [OF assms(1,2)] by blast
  then show ?thesis
    using nodes_in_shorter [OF n(1)] dir_content_node [OF assms(1,4)] assms(4) by (simp add: dir_node_def)
qed

lemma dir_node_None: "\<not> dir_at (tree_entries t) x \<Longrightarrow> dir_node t x = None"
  by (simp add: dir_node_def)

context path_iteration
begin

lemma descend2:
  assumes "wf_tree t" and "wf_tree u"
  defines "A \<equiv> tree_entries t" and "B \<equiv> tree_entries u"
  assumes "dir_content t p a" and "dir_content u p b" and "parent_path x = p"
    and "dir_at A x" and "dir_at B x" and "length (nodes_in a) \<le> fuel"
  obtains da db xs where "dir_node t x = Some da" and "dir_node u x = Some db"
    and "recursiveCompare2 fuel visit t u opt (content da) (content db) [] = Inr (map (\<lambda>x. (A x, B x)) xs)"
    and "distinct xs" and "set xs = {y. below x y \<and> reported2 opt A B y}"
proof -
  obtain da db where d: "dir_node t x = Some da" "dir_node u x = Some db"
    "dir_content t x (content da)" "dir_content u x (content db)"
    "length (nodes_in (content da)) < length (nodes_in a)"
    using dir_node_child [OF assms(1,5,7)] dir_node_child [OF assms(2,6,7)] assms(8,9)
    unfolding A_def B_def by blast
  then show thesis
    using recursiveCompare2_reports [OF assms(1,2) d(3,4), of fuel opt] assms(10) that
    unfolding A_def B_def by fastforce
qed

text \<open>What one step down reports, given what the comparison of three directories reports.\<close>

lemma descend3:
  assumes "wf_tree ta" and "wf_tree tb" and "wf_tree tc"
  defines "A \<equiv> tree_entries ta" and "B \<equiv> tree_entries tb" and "C \<equiv> tree_entries tc"
  assumes "dir_content ta p a" and "dir_content tb p b" and "dir_content tc p c"
    and "parent_path x = p" and "x \<noteq> []" and "two_dirs A B C x"
    and fuel: "length (nodes_in a) + length (nodes_in b) < Suc fuel"
    and IH: "\<And>na nb nc. dir_content ta x (content na) \<Longrightarrow> dir_content tb x (content nb) \<Longrightarrow>
      dir_content tc x (content nc) \<Longrightarrow>
      length (nodes_in (content na)) + length (nodes_in (content nb)) < fuel \<Longrightarrow>
      \<exists>xs. (\<forall>r. recursiveCompare3 fuel visit ta tb tc opt (content na) (content nb) (content nc) r =
          Inr (r @ map (\<lambda>x. (A x, B x, C x)) xs)) \<and>
        distinct xs \<and> set xs = {y. below x y \<and> reported3 opt A B C y}"
  shows "\<exists>xs. (\<forall>r. compareDirs3 (recursiveCompare3 fuel visit ta tb tc opt) fuel visit ta tb tc opt
        (dir_node ta x, dir_node tb x, dir_node tc x) r = Inr (r @ map (\<lambda>x. (A x, B x, C x)) xs)) \<and>
      distinct xs \<and> set xs = {y. below x y \<and> reported3 opt A B C y}"
proof -
  note na = dir_node_child [OF assms(1,7,10)] and nb = dir_node_child [OF assms(2,8,10)]
    and nc = dir_node_child [OF assms(3,9,10)]
    and red = reported3_reduce [OF assms(1-3,11), of opt, folded A_def B_def C_def]
  have le: "length (nodes_in a) \<le> fuel" "length (nodes_in b) \<le> fuel" using fuel by simp_all
  consider (all) "dir_at A x" "dir_at B x" "dir_at C x" | (bc) "\<not> dir_at A x" "dir_at B x" "dir_at C x"
    | (ac) "dir_at A x" "\<not> dir_at B x" "dir_at C x" | (ab) "dir_at A x" "dir_at B x" "\<not> dir_at C x"
    using assms(12) unfolding two_dirs_def by blast
  then show ?thesis
  proof cases
    case all
    obtain da db dc where "dir_node ta x = Some da" "dir_node tb x = Some db" "dir_node tc x = Some dc"
      "dir_content ta x (content da)" "dir_content tb x (content db)" "dir_content tc x (content dc)"
      "length (nodes_in (content da)) < length (nodes_in a)"
      "length (nodes_in (content db)) < length (nodes_in b)"
      using na nb nc all unfolding A_def B_def C_def by blast
    then show ?thesis using IH [of da db dc] fuel by (simp add: compareDirs3_def)
  next
    case bc
    obtain db dc xs where d: "dir_node tb x = Some db" "dir_node tc x = Some dc"
      "recursiveCompare2 fuel visit tb tc opt (content db) (content dc) [] = Inr (map (\<lambda>x. (B x, C x)) xs)"
      "distinct xs" "set xs = {y. below x y \<and> reported2 opt B C y}"
      unfolding B_def C_def
      by (rule descend2 [OF assms(2,3,8,9,10) bc(2) [unfolded B_def] bc(3) [unfolded C_def] le(2)])
    moreover have "\<forall>y \<in> set xs. A y = None"
      using not_dir_above(2) [OF assms(1) _ assms(11)] bc(1) d(5) unfolding A_def by blast
    ultimately show ?thesis
      using dir_node_None [of ta x, folded A_def] bc(1) red(1) by (intro exI [of _ xs]) (simp add: compareDirs3_def)
  next
    case ac
    obtain da dc xs where d: "dir_node ta x = Some da" "dir_node tc x = Some dc"
      "recursiveCompare2 fuel visit ta tc opt (content da) (content dc) [] = Inr (map (\<lambda>x. (A x, C x)) xs)"
      "distinct xs" "set xs = {y. below x y \<and> reported2 opt A C y}"
      unfolding A_def C_def
      by (rule descend2 [OF assms(1,3,7,9,10) ac(1) [unfolded A_def] ac(3) [unfolded C_def] le(1)])
    moreover have "\<forall>y \<in> set xs. B y = None"
      using not_dir_above(2) [OF assms(2) _ assms(11)] ac(2) d(5) unfolding B_def by blast
    ultimately show ?thesis
      using dir_node_None [of tb x, folded B_def] ac(2) red(2) by (intro exI [of _ xs]) (simp add: compareDirs3_def)
  next
    case ab
    obtain da db xs where d: "dir_node ta x = Some da" "dir_node tb x = Some db"
      "recursiveCompare2 fuel visit ta tb opt (content da) (content db) [] = Inr (map (\<lambda>x. (A x, B x)) xs)"
      "distinct xs" "set xs = {y. below x y \<and> reported2 opt A B y}"
      unfolding A_def B_def
      by (rule descend2 [OF assms(1,2,7,8,10) ab(1) [unfolded A_def] ab(2) [unfolded B_def] le(1)])
    moreover have "\<forall>y \<in> set xs. C y = None"
      using not_dir_above(2) [OF assms(3) _ assms(11)] ab(3) d(5) unfolding C_def by blast
    ultimately show ?thesis
      using dir_node_None [of tc x, folded C_def] ab(3) red(3) by (intro exI [of _ xs]) (simp add: compareDirs3_def)
  qed
qed

lemma recursiveCompare3_reports:
  assumes "wf_tree ta" and "wf_tree tb" and "wf_tree tc"
  defines "A \<equiv> tree_entries ta" and "B \<equiv> tree_entries tb" and "C \<equiv> tree_entries tc"
  assumes trans: "\<And>x. transitive_at opt A B C x"
    and "dir_content ta p a" and "dir_content tb p b" and "dir_content tc p c"
    and "length (nodes_in a) + length (nodes_in b) < fuel"
  shows "\<exists>xs. (\<forall>r. recursiveCompare3 fuel visit ta tb tc opt a b c r =
      Inr (r @ map (\<lambda>x. (A x, B x, C x)) xs)) \<and>
    distinct xs \<and> set xs = {x. below p x \<and> reported3 opt A B C x}"
  using assms(8-11)
proof (induction fuel arbitrary: p a b c)
  case (Suc fuel)
  let ?D = "two_dirs A B C" and ?R = "reported3 opt A B C" and ?line = "\<lambda>x. (A x, B x, C x)"
  define N where "N = visit (map node_rp a @ map node_rp b @ map node_rp c)"
  have N: "set N = node_rp ` set a \<union> node_rp ` set b \<union> node_rp ` set c"
    by (simp add: set_visit N_def Un_assoc)
  note ca = dir_content_children [OF assms(1) Suc.prems(1), folded A_def]
    and cb = dir_content_children [OF assms(2) Suc.prems(2), folded B_def]
    and cc = dir_content_children [OF assms(3) Suc.prems(3), folded C_def]
    and wa = dir_content_wf [OF assms(1) Suc.prems(1), folded A_def]
    and wb = dir_content_wf [OF assms(2) Suc.prems(2), folded B_def]
    and wc = dir_content_wf [OF assms(3) Suc.prems(3), folded C_def]
  have inN: "A x \<noteq> None \<or> B x \<noteq> None \<or> C x \<noteq> None" "parent_path x = p" if "x \<in> set N" for x
    using that ca cb cc unfolding N by blast+
  have nm: "\<exists>nm. valid_name nm \<and> x = child p nm" if "x \<in> set N" for x
    using that dir_content_names [OF assms(1) Suc.prems(1)] dir_content_names [OF assms(2) Suc.prems(2)]
      dir_content_names [OF assms(3) Suc.prems(3)] unfolding N by blast
  have R: "filter (\<lambda>x. differs opt (A x) (B x) \<or> differs opt (B x) (C x)) N = filter ?R N"
    using inN(2) wa(3) wb(3) wc(3) by (intro filter_cong) (simp_all add: reported3_def)
  have ne: "x \<noteq> []" if "x \<in> set N" for x using nm [OF that] wa(1) by auto
  have cover: "y \<in> set N \<or> (\<exists>x \<in> set N. ?D x \<and> below x y)" if "below p y" "?R y" for y
    using below_reported_cover3 [OF assms(1-3) Suc.prems(1-3) that(1) _ N] that(2)
    unfolding A_def B_def C_def by blast
  note down = descend3 [OF assms(1-3) Suc.prems(1-3) inN(2) ne _ Suc.prems(4)
      Suc.IH [unfolded A_def B_def C_def], folded A_def B_def C_def]
  from level_compare [where D = ?D and R = ?R and line = ?line, OF wa(1)
      distinct_visit [of "map node_rp a @ map node_rp b @ map node_rp c", folded N_def] nm down cover]
  obtain xs where xs: "\<forall>r. foldE (\<lambda>x. compareDirs3 (recursiveCompare3 fuel visit ta tb tc opt) fuel visit
        ta tb tc opt (dir_node ta x, dir_node tb x, dir_node tc x)) (filter ?D N)
      (r @ map ?line (filter ?R N)) = Inr (r @ map ?line xs)"
    "distinct xs" "set xs = {y. below p y \<and> ?R y}" by blast
  have "recursiveCompare3 (Suc fuel) visit ta tb tc opt a b c r = Inr (r @ map ?line xs)" for r
    using xs(1) diff3_items [OF assms(1-3), of N opt r "[]"] inN(1) R trans
    unfolding A_def B_def C_def by (simp add: Let_def foldE_map flip: N_def)
  with xs(2,3) show ?case by blast
qed simp

lemma diff3_reports:
  assumes "wf_tree ta" and "wf_tree tb" and "wf_tree tc"
  defines "A \<equiv> tree_entries ta" and "B \<equiv> tree_entries tb" and "C \<equiv> tree_entries tc"
  assumes "\<And>x. transitive_at opt A B C x"
  shows "\<exists>xs. diff3 visit ta tb tc opt = Inr (map (\<lambda>x. (A x, B x, C x)) xs) \<and>
    distinct xs \<and> set xs = {x. reported3 opt A B C x}"
proof -
  let ?k = "tree_fuel ta + tree_fuel tb"
  obtain xs where xs: "\<forall>r. recursiveCompare3 ?k visit ta tb tc opt (topContent ta) (topContent tb) (topContent tc) r =
      Inr (r @ map (\<lambda>x. (A x, B x, C x)) xs)" "distinct xs" "set xs = {x. below [] x \<and> reported3 opt A B C x}"
    using recursiveCompare3_reports [OF assms(1-3) assms(7) [unfolded A_def B_def C_def]
        dir_content_top dir_content_top dir_content_top, of ?k]
    unfolding A_def B_def C_def tree_fuel_def by auto
  have "x \<noteq> []" if "reported3 opt A B C x" for x
    using reported3_present [OF that] entries_Nil [OF assms(1)] entries_Nil [OF assms(2)]
      entries_Nil [OF assms(3)] unfolding A_def B_def C_def by auto
  then have "set xs = {x. reported3 opt A B C x}" using xs(3) by (auto simp: below_def)
  then show ?thesis using xs(1,2) unfolding diff3_def by (intro exI [of _ xs]) simp
qed

end

end
