(* ===== verification/Ddm_Samples.thy ===== *)
theory Ddm_Samples
  imports Ddm_Diff
begin

text \<open>
  Small directory trees on which the properties are evaluated, and a criterion that makes the
  invariant of a tree computable: a tree whose index is the one computed from its nodes.
\<close>

definition indexed_tree :: "DirectoryNode list \<Rightarrow> nat \<Rightarrow> DirectoryTree" where
  "indexed_tree c k = \<lparr>topContent = c, index = index_of (nodes_in c), topPath = None, warnings = [],
     next_addr = k\<rparr>"

lemma wf_indexed_tree:
  assumes "wf_forest [] c" and "distinct (addrs_in c)" and "\<forall>a \<in> set (addrs_in c). a < k"
  shows "wf_tree (indexed_tree c k)"
proof -
  have d: "distinct (map fst (map (\<lambda>n. (node_rp n, node_addr n)) (nodes_in c)))"
    using distinct_nodes_in [OF dir_path_Nil assms(1)] by (simp add: comp_def)
  have "index_ok (index_of (nodes_in c)) (cells_in c)"
    unfolding index_ok_def index_of_def map_of_eq_Some_iff [OF d] in_cells_iff
    by (auto simp: image_iff)
  then show ?thesis using assms by (simp add: wf_tree_def indexed_tree_def)
qed

definition fileElem :: "path \<Rightarrow> string \<Rightarrow> FilesystemElement" where
  "fileElem p h = emptyElement\<lparr>ty := FT_regular, per := 420, us := ''u'', gs := ''g'',
     mt := 1600000000, sz := 3, fileHash := h, rp := p\<rparr>"

definition dirElem :: "path \<Rightarrow> FilesystemElement" where
  "dirElem p = emptyElement\<lparr>ty := FT_directory, per := 493, us := ''u'', gs := ''g'',
     mt := 1600000000, rp := p\<rparr>"

definition linkElem :: "path \<Rightarrow> path \<Rightarrow> FilesystemElement" where
  "linkElem p q = emptyElement\<lparr>ty := FT_symlink, per := 511, us := ''u'', gs := ''g'',
     mt := 1600000000, rp := p, symlink := q\<rparr>"

definition sampleForest :: "DirectoryNode list" where
  "sampleForest =
     [DirectoryNode 0 (dirElem ''d'') [DirectoryNode 1 (fileElem ''d/f'' []) []],
      DirectoryNode 2 (fileElem ''z'' []) []]"

definition sampleTree :: DirectoryTree where
  "sampleTree = indexed_tree sampleForest 3"

definition otherForest :: "DirectoryNode list" where
  "otherForest =
     [DirectoryNode 0 (dirElem ''d'') [], DirectoryNode 1 (linkElem ''y'' ''z'') [],
      DirectoryNode 2 ((fileElem ''z'' [])\<lparr>sz := 4\<rparr>) []]"

definition otherTree :: DirectoryTree where
  "otherTree = indexed_tree otherForest 3"

lemmas sample_defs =
  sampleTree_def sampleForest_def otherTree_def otherForest_def indexed_tree_def
  fileElem_def dirElem_def linkElem_def emptyElement_def

lemma wf_forest_sampleForest: "wf_forest [] sampleForest"
  by code_simp

lemma wf_forest_otherForest: "wf_forest [] otherForest"
  by code_simp

lemma wf_sampleTree: "wf_tree sampleTree"
  unfolding sampleTree_def
  by (rule wf_indexed_tree [OF wf_forest_sampleForest]) (simp_all add: sampleForest_def)

lemma wf_otherTree: "wf_tree otherTree"
  unfolding otherTree_def
  by (rule wf_indexed_tree [OF wf_forest_otherForest]) (simp_all add: otherForest_def)

end
