(* ===== verification/Ddm_IO.thy ===== *)
theory Ddm_IO
  imports Ddm_Prelude
begin

text \<open>
  Code with side effects: a computation takes a state to a result and a new state. The state is
  kept when the result is an exception, as in C++, where what was done before a throw stays done.
  The second half is a small logic for such computations: a specification has a precondition, a
  postcondition for the normal return, and a relation between the states before and after that
  holds on every way out.
\<close>

section \<open>Computations\<close>

type_synonym ('s, 'a) io = "'s \<Rightarrow> 'a result \<times> 's"

definition returnIO :: "'a \<Rightarrow> ('s, 'a) io" where
  "returnIO x = (\<lambda>s. (Inr x, s))"

definition throwIO :: "exn \<Rightarrow> ('s, 'a) io" where
  "throwIO e = (\<lambda>s. (Inl e, s))"

definition liftE :: "'a result \<Rightarrow> ('s, 'a) io" where
  "liftE r = (\<lambda>s. (r, s))"

definition bindIO :: "('s, 'a) io \<Rightarrow> ('a \<Rightarrow> ('s, 'b) io) \<Rightarrow> ('s, 'b) io" where
  "bindIO m f = (\<lambda>s. case m s of (Inl e, s') \<Rightarrow> (Inl e, s') | (Inr x, s') \<Rightarrow> f x s')"

definition getIO :: "('s \<Rightarrow> 'a) \<Rightarrow> ('s, 'a) io" where
  "getIO f = (\<lambda>s. (Inr (f s), s))"

definition modifyIO :: "('s \<Rightarrow> 's) \<Rightarrow> ('s, unit) io" where
  "modifyIO f = (\<lambda>s. (Inr (), f s))"

text \<open>
  \<^verbatim>\<open>catch(exception&)\<close>: a failed assertion, undefined behaviour and a run that does not end
  cannot be caught.
\<close>

definition is_exception :: "exn \<Rightarrow> bool" where
  "is_exception e = (case e of Runtime_error _ \<Rightarrow> True | Logic_error _ \<Rightarrow> True
     | Filesystem_error _ \<Rightarrow> True | _ \<Rightarrow> False)"

definition catchIO :: "('s, 'a) io \<Rightarrow> (exn \<Rightarrow> ('s, 'a) io) \<Rightarrow> ('s, 'a) io" where
  "catchIO m h = (\<lambda>s. case m s of
     (Inl e, s') \<Rightarrow> if is_exception e then h e s' else (Inl e, s')
   | (Inr x, s') \<Rightarrow> (Inr x, s'))"

definition exn_what :: "exn \<Rightarrow> string" where
  "exn_what e = (case e of Runtime_error m \<Rightarrow> m | Logic_error m \<Rightarrow> m | Filesystem_error m \<Rightarrow> m | _ \<Rightarrow> [])"

fun foldIO :: "('a \<Rightarrow> 'b \<Rightarrow> ('s, 'b) io) \<Rightarrow> 'a list \<Rightarrow> 'b \<Rightarrow> ('s, 'b) io" where
  "foldIO f [] b = returnIO b"
| "foldIO f (x # xs) b = bindIO (f x b) (foldIO f xs)"

fun mapIO :: "('a \<Rightarrow> ('s, 'b) io) \<Rightarrow> 'a list \<Rightarrow> ('s, 'b list) io" where
  "mapIO f [] = returnIO []"
| "mapIO f (x # xs) = bindIO (f x) (\<lambda>y. bindIO (mapIO f xs) (\<lambda>ys. returnIO (y # ys)))"

lemma io_simps:
  "returnIO x s = (Inr x, s)"
  "throwIO e s = (Inl e, s)"
  "liftE r s = (r, s)"
  "getIO f s = (Inr (f s), s)"
  "modifyIO g s = (Inr (), g s)"
  by (simp_all add: returnIO_def throwIO_def liftE_def getIO_def modifyIO_def)

lemma bindIO_apply:
  "bindIO m f s = (case m s of (Inl e, s') \<Rightarrow> (Inl e, s') | (Inr x, s') \<Rightarrow> f x s')"
  by (simp add: bindIO_def)

lemma bindIO_simps [simp]:
  "bindIO (returnIO x) f = f x"
  "bindIO (throwIO e) f = throwIO e"
  "bindIO (liftE (Inr x)) f = f x"
  "bindIO (liftE (Inl e)) f = throwIO e"
  by (simp_all add: bindIO_def io_simps fun_eq_iff)

lemma bindIO_Inr: "m s = (Inr x, s') \<Longrightarrow> bindIO m f s = f x s'"
  by (simp add: bindIO_def)

lemma bindIO_Inl: "m s = (Inl e, s') \<Longrightarrow> bindIO m f s = (Inl e, s')"
  by (simp add: bindIO_def)

lemma bindIO_Inr_iff:
  "bindIO m f s = (Inr y, s'') \<longleftrightarrow> (\<exists>x s'. m s = (Inr x, s') \<and> f x s' = (Inr y, s''))"
  by (auto simp: bindIO_def split: prod.splits sum.splits)

lemma bindIO_InrE:
  assumes "bindIO m f s = (Inr y, s'')"
  obtains x s' where "m s = (Inr x, s')" and "f x s' = (Inr y, s'')"
  using assms by (auto simp: bindIO_Inr_iff)

lemma bindIO_assoc: "bindIO (bindIO m f) g = bindIO m (\<lambda>x. bindIO (f x) g)"
  by (auto simp: bindIO_def fun_eq_iff split: prod.splits sum.splits)

lemma foldIO_append: "foldIO f (xs @ ys) b = bindIO (foldIO f xs b) (foldIO f ys)"
proof (induction xs arbitrary: b)
  case (Cons x xs)
  then have "foldIO f (xs @ ys) = (\<lambda>b. bindIO (foldIO f xs b) (foldIO f ys))" by (simp add: fun_eq_iff)
  then show ?case by (simp add: bindIO_assoc)
qed simp

lemma foldIO_cong [fundef_cong]:
  assumes "xs = ys" and "b = c" and "\<And>x u. x \<in> set ys \<Longrightarrow> f x u = g x u"
  shows "foldIO f xs b = foldIO g ys c"
proof -
  have "foldIO f ys = foldIO g ys"
    using assms(3) by (induction ys) (auto intro!: ext)
  with assms(1,2) show ?thesis by simp
qed

lemma mapIO_cong [fundef_cong]:
  assumes "xs = ys" and "\<And>x. x \<in> set ys \<Longrightarrow> f x = g x"
  shows "mapIO f xs = mapIO g ys"
proof -
  have "mapIO f ys = mapIO g ys" using assms(2) by (induction ys) simp_all
  with assms(1) show ?thesis by simp
qed

section \<open>Specifications\<close>

definition spec :: "('s \<Rightarrow> 's \<Rightarrow> bool) \<Rightarrow> ('s \<Rightarrow> bool) \<Rightarrow> ('s, 'a) io \<Rightarrow> ('a \<Rightarrow> 's \<Rightarrow> bool) \<Rightarrow> bool" where
  "spec R P m Q \<longleftrightarrow> (\<forall>s. P s \<longrightarrow> R s (snd (m s)) \<and> (\<forall>x. fst (m s) = Inr x \<longrightarrow> Q x (snd (m s))))"

lemma specI:
  assumes "\<And>s r s'. P s \<Longrightarrow> m s = (r, s') \<Longrightarrow> R s s' \<and> (\<forall>x. r = Inr x \<longrightarrow> Q x s')"
  shows "spec R P m Q"
  using assms unfolding spec_def by (metis prod.collapse)

lemma specD:
  assumes "spec R P m Q" and "P s" and "m s = (r, s')"
  shows "R s s'" and "r = Inr x \<Longrightarrow> Q x s'"
  using assms unfolding spec_def by (metis fst_conv snd_conv)+

lemma spec_conseq:
  assumes "spec R P m Q" and "\<And>s. P' s \<Longrightarrow> P s" and "\<And>x s. Q x s \<Longrightarrow> Q' x s"
  shows "spec R P' m Q'"
  using assms unfolding spec_def by blast

lemma spec_pre: "(\<And>s. P' s \<Longrightarrow> spec R P m Q \<and> P s) \<Longrightarrow> spec R P' m Q"
  unfolding spec_def by blast

text \<open>
  The relation is a preorder: what it says of a step it says of a sequence of steps, and of no
  step at all. Frame conditions have this form.
\<close>

locale frame =
  fixes R :: "'s \<Rightarrow> 's \<Rightarrow> bool"
  assumes refl: "R s s"
    and trans: "R s t \<Longrightarrow> R t u \<Longrightarrow> R s u"
begin

lemma spec_return: "(\<And>s. P s \<Longrightarrow> Q x s) \<Longrightarrow> spec R P (returnIO x) Q"
  by (auto simp: spec_def refl io_simps)

lemma spec_throw: "spec R P (throwIO e) Q"
  by (auto simp: spec_def refl io_simps)

lemma spec_lift: "(\<And>s x. P s \<Longrightarrow> r = Inr x \<Longrightarrow> Q x s) \<Longrightarrow> spec R P (liftE r) Q"
  by (auto simp: spec_def refl io_simps)

lemma spec_get: "(\<And>s. P s \<Longrightarrow> Q (f s) s) \<Longrightarrow> spec R P (getIO f) Q"
  by (auto simp: spec_def refl io_simps)

lemma spec_bind:
  assumes "spec R P m Q" and "\<And>x. spec R (Q x) (f x) Q'"
  shows "spec R P (bindIO m f) Q'"
proof (rule specI)
  fix s r s' assume s: "P s" "bindIO m f s = (r, s')"
  obtain r1 s1 where m: "m s = (r1, s1)" by fastforce
  from specD [OF assms(1) s(1) m] have R1: "R s s1" and Q1: "\<And>x. r1 = Inr x \<Longrightarrow> Q x s1" by auto
  show "R s s' \<and> (\<forall>x. r = Inr x \<longrightarrow> Q' x s')"
  proof (cases r1)
    case (Inl e)
    then show ?thesis using s(2) m R1 by (auto simp: bindIO_def)
  next
    case (Inr x)
    then have f: "f x s1 = (r, s')" using s(2) m by (simp add: bindIO_def)
    from specD [OF assms(2) Q1 [OF Inr] f] show ?thesis using trans [OF R1] by blast
  qed
qed

lemma spec_catch:
  assumes "spec R P m Q" and "\<And>e. spec R (\<lambda>s. \<exists>s0. P s0 \<and> R s0 s) (h e) Q"
  shows "spec R P (catchIO m h) Q"
proof (rule specI)
  fix s r s' assume s: "P s" "catchIO m h s = (r, s')"
  obtain r1 s1 where m: "m s = (r1, s1)" by fastforce
  from specD [OF assms(1) s(1) m] have R1: "R s s1" and Q1: "\<And>x. r1 = Inr x \<Longrightarrow> Q x s1" by auto
  show "R s s' \<and> (\<forall>x. r = Inr x \<longrightarrow> Q x s')"
  proof (cases r1)
    case (Inl e)
    show ?thesis
    proof (cases "is_exception e")
      case True
      then have h: "h e s1 = (r, s')" using s(2) m Inl by (simp add: catchIO_def)
      have "\<exists>s0. P s0 \<and> R s0 s1" using s(1) R1 by blast
      from specD [OF assms(2) this h] show ?thesis using trans [OF R1] by blast
    next
      case False
      then show ?thesis using s(2) m Inl R1 by (auto simp: catchIO_def)
    qed
  next
    case (Inr x)
    then show ?thesis using s(2) m R1 Q1 by (auto simp: catchIO_def)
  qed
qed

lemma spec_fold:
  assumes "\<And>x b. x \<in> set xs \<Longrightarrow> spec R (P b) (f x b) P"
  shows "spec R (P b) (foldIO f xs b) P"
  using assms
proof (induction xs arbitrary: b)
  case Nil
  then show ?case by (auto intro: spec_return)
next
  case (Cons x xs)
  then show ?case by (auto intro!: spec_bind [where Q = P])
qed

lemma spec_map:
  assumes "\<And>x. x \<in> set xs \<Longrightarrow> spec R P (f x) (\<lambda>_. P)"
  shows "spec R P (mapIO f xs) (\<lambda>_. P)"
  using assms
proof (induction xs)
  case Nil
  then show ?case by (auto intro: spec_return)
next
  case (Cons x xs)
  then show ?case by (auto intro!: spec_bind [where Q = "\<lambda>_. P"] spec_return)
qed

end

text \<open>No frame condition at all: partial correctness.\<close>

interpretation anything: frame "\<lambda>_ _. True"
  by unfold_locales simp_all

end
