(* ===== verification/Ddm_World.thy ===== *)
theory Ddm_World
  imports Ddm_Element Ddm_IO "HOL-Library.AList"
begin

text \<open>
  The part of the operating system that ddm uses: a POSIX file system with path resolution, and
  the calls of \<^verbatim>\<open>std::filesystem\<close>, of the file streams and of the C library on it. A file is
  known by the list of names on the way from the root directory; the order of the list of files is
  the order in which a directory lists its entries, which is arbitrary.

  Every call may fail for reasons outside the model (access rights, a full or broken disk). The
  list \<open>faults\<close> says of each call to come whether it does; a run without such failures starts with
  the empty list. Two hard links to one file are two files here, so a change through one link is
  not seen through the other; the link count is kept as data.
\<close>

unbundle bit_operations_syntax

section \<open>Files\<close>

type_synonym key = "string list"

datatype file_data = Regular string | Directory | Symlink path | Special file_type

record inode =
  i_perm :: perms
  i_uid :: nat
  i_gid :: nat
  i_mtime :: int
  i_nlink :: nat
  i_data :: file_data

record world =
  files :: "(key \<times> inode) list"
  cwd :: path
  umask :: perms
  euid :: nat
  egid :: nat
  clock :: "nat \<Rightarrow> int"
  ticks :: nat
  passwd :: "(nat \<times> string) list"
  groups :: "(nat \<times> string) list"
  userCache :: "nat \<Rightarrow> string option"
  groupCache :: "nat \<Rightarrow> string option"
  userReverseCache :: "string \<Rightarrow> nat option"
  groupReverseCache :: "string \<Rightarrow> nat option"
  faults :: "bool list"
  stdin :: string

type_synonym 'a wio = "(world, 'a) io"

definition lookup :: "world \<Rightarrow> key \<Rightarrow> inode option" where
  "lookup w k = map_of (files w) k"

definition is_dir :: "inode \<Rightarrow> bool" where
  "is_dir i \<longleftrightarrow> i_data i = Directory"

definition dir_at_key :: "world \<Rightarrow> key \<Rightarrow> bool" where
  "dir_at_key w k = (case lookup w k of None \<Rightarrow> False | Some i \<Rightarrow> is_dir i)"

definition children :: "world \<Rightarrow> key \<Rightarrow> string list" where
  "children w k = map last (filter (\<lambda>k'. k' \<noteq> [] \<and> butlast k' = k) (map fst (files w)))"

section \<open>Path resolution\<close>

text \<open>
  Names are looked up one by one. A symbolic link is replaced by its target, except as the last
  name when the call does not follow links. The last name need not exist. The number \<open>n\<close> bounds the
  links on the way, as the kernel does (\<^verbatim>\<open>ELOOP\<close>).
\<close>

function walk :: "world \<Rightarrow> bool \<Rightarrow> nat \<Rightarrow> key \<Rightarrow> string list \<Rightarrow> key option" where
  "walk w follow n cur [] = Some cur"
| "walk w follow n cur (c # cs) =
     (if c = [] \<or> c = ''.'' then walk w follow n cur cs
      else if c = ''..'' then walk w follow n (butlast cur) cs
      else case lookup w (cur @ [c]) of
        None \<Rightarrow> if cs = [] then Some (cur @ [c]) else None
      | Some i \<Rightarrow> (case i_data i of
          Directory \<Rightarrow> walk w follow n (cur @ [c]) cs
        | Symlink target \<Rightarrow>
            if cs = [] \<and> \<not> follow then Some (cur @ [c])
            else if n = 0 then None
            else walk w follow (n - 1) (if has_root target then [] else cur) (path_elements target @ cs)
        | _ \<Rightarrow> if cs = [] then Some (cur @ [c]) else None))"
  by pat_completeness auto
termination
  by (relation "measures [\<lambda>(w, f, n, cur, cs). n, \<lambda>(w, f, n, cur, cs). length cs]") auto

declare walk.simps(2) [simp del]

definition max_links :: nat where
  "max_links = 40"

definition absolute_path :: "world \<Rightarrow> path \<Rightarrow> path" where
  "absolute_path w p = (if has_root p then p else path_append (cwd w) p)"

definition resolve :: "world \<Rightarrow> bool \<Rightarrow> path \<Rightarrow> key option" where
  "resolve w follow p =
     (if p = [] then None else walk w follow max_links [] (path_elements (absolute_path w p)))"

definition file_at :: "world \<Rightarrow> bool \<Rightarrow> path \<Rightarrow> (key \<times> inode) option" where
  "file_at w follow p = (case resolve w follow p of None \<Rightarrow> None
     | Some k \<Rightarrow> map_option (Pair k) (lookup w k))"

section \<open>Failures and changes\<close>

definition faulty :: "exn \<Rightarrow> 'a wio \<Rightarrow> 'a wio" where
  "faulty err m = (\<lambda>w. case faults w of
     [] \<Rightarrow> m w
   | b # bs \<Rightarrow> if b then (Inl err, w\<lparr>faults := bs\<rparr>) else m (w\<lparr>faults := bs\<rparr>))"

definition set_file :: "key \<Rightarrow> inode \<Rightarrow> world \<Rightarrow> world" where
  "set_file k i w = w\<lparr>files := AList.update k i (files w)\<rparr>"

definition delete_file :: "key \<Rightarrow> world \<Rightarrow> world" where
  "delete_file k w = w\<lparr>files := AList.delete k (files w)\<rparr>"

definition tick :: "world \<Rightarrow> world" where
  "tick w = w\<lparr>ticks := Suc (ticks w)\<rparr>"

definition now :: "world \<Rightarrow> int" where
  "now w = clock w (ticks w)"

text \<open>Creating or removing an entry of a directory changes the modified time of the directory.\<close>

definition touch_parent :: "key \<Rightarrow> world \<Rightarrow> world" where
  "touch_parent k w = (case lookup w (butlast k) of None \<Rightarrow> w
     | Some i \<Rightarrow> tick (set_file (butlast k) (i\<lparr>i_mtime := now w\<rparr>) w))"

definition new_inode :: "world \<Rightarrow> perms \<Rightarrow> file_data \<Rightarrow> inode" where
  "new_inode w p d =
     \<lparr>i_perm = p, i_uid = euid w, i_gid = egid w, i_mtime = now w, i_nlink = 1, i_data = d\<rparr>"

definition create_file :: "key \<Rightarrow> perms \<Rightarrow> file_data \<Rightarrow> world \<Rightarrow> world" where
  "create_file k p d w = tick (set_file k (new_inode w p d) (touch_parent k w))"

definition remove_file :: "key \<Rightarrow> world \<Rightarrow> world" where
  "remove_file k w = delete_file k (touch_parent k w)"

definition update_inode :: "key \<Rightarrow> (inode \<Rightarrow> inode) \<Rightarrow> world \<Rightarrow> world" where
  "update_inode k f w = (case lookup w k of None \<Rightarrow> w | Some i \<Rightarrow> set_file k (f i) w)"

definition fs_error :: "string \<Rightarrow> path \<Rightarrow> exn" where
  "fs_error call p = Filesystem_error (''filesystem error: '' @ call @ '' ['' @ p @ '']'')"

text \<open>A new entry needs an existing parent directory and a free name.\<close>

definition free_key :: "world \<Rightarrow> path \<Rightarrow> key option" where
  "free_key w p = (case resolve w False p of None \<Rightarrow> None
     | Some k \<Rightarrow> if lookup w k = None \<and> k \<noteq> [] \<and> dir_at_key w (butlast k) then Some k else None)"

section \<open>Calls that read\<close>

definition absolute :: "path \<Rightarrow> path wio" where
  "absolute p = (if p = [] then throwIO (fs_error ''cannot make absolute path'' p)
     else getIO (\<lambda>w. absolute_path w p))"

definition is_directory :: "path \<Rightarrow> bool wio" where
  "is_directory p = faulty (fs_error ''status'' p) (getIO (\<lambda>w.
     case file_at w True p of None \<Rightarrow> False | Some (_, i) \<Rightarrow> is_dir i))"

definition exists_file :: "path \<Rightarrow> bool wio" where
  "exists_file p = faulty (fs_error ''status'' p) (getIO (\<lambda>w. file_at w True p \<noteq> None))"

definition directory_iterator :: "path \<Rightarrow> path list wio" where
  "directory_iterator p =
     faulty (fs_error ''directory iterator cannot open directory'' p) (\<lambda>w. case file_at w True p of
       None \<Rightarrow> (Inl (fs_error ''directory iterator cannot open directory'' p), w)
     | Some (k, i) \<Rightarrow>
         if is_dir i then (Inr (map (path_append p) (children w k)), w)
         else (Inl (fs_error ''directory iterator cannot open directory'' p), w))"

definition read_symlink :: "path \<Rightarrow> path wio" where
  "read_symlink p = faulty (fs_error ''read_symlink'' p) (\<lambda>w. case file_at w False p of
     Some (_, i) \<Rightarrow> (case i_data i of Symlink target \<Rightarrow> (Inr target, w)
       | _ \<Rightarrow> (Inl (fs_error ''read_symlink'' p), w))
   | None \<Rightarrow> (Inl (fs_error ''read_symlink'' p), w))"

text \<open>
  \<^verbatim>\<open>ifstream\<close>: opening gives the text, or None when the file cannot be opened. A directory can
  be opened and has no text. A read that fails ends the text like the end of the file, and the
  readers of ddm do not ask for the difference.
\<close>

definition ifstream :: "path \<Rightarrow> string option wio" where
  "ifstream p = (\<lambda>w. case faults w of
     True # bs \<Rightarrow> (Inr None, w\<lparr>faults := bs\<rparr>)
   | bs \<Rightarrow>
     let w = w\<lparr>faults := drop 1 bs\<rparr> in
     (case file_at w True p of None \<Rightarrow> (Inr None, w)
      | Some (_, i) \<Rightarrow>
          (case faults w of
             True # bs \<Rightarrow> (Inr (Some []), w\<lparr>faults := bs\<rparr>)
           | bs \<Rightarrow> (Inr (Some (case i_data i of Regular s \<Rightarrow> s | _ \<Rightarrow> [])), w\<lparr>faults := drop 1 bs\<rparr>))))"

section \<open>Calls that write\<close>

text \<open>
  Modes are written in hexadecimal: \<open>0x1B6\<close>, \<open>0x1FF\<close>, \<open>0x80\<close> and \<open>0xFFF\<close> are the octal 666, 777,
  200 and 7777.

  \<^verbatim>\<open>ofstream\<close>: opening creates or truncates the file and tells whether it worked. What is then
  written may be lost without an exception: the stream sets a flag.
\<close>

definition ofstream :: "path \<Rightarrow> bool wio" where
  "ofstream p = (\<lambda>w. case faults w of
     True # bs \<Rightarrow> (Inr False, w\<lparr>faults := bs\<rparr>)
   | bs \<Rightarrow>
     let w = w\<lparr>faults := drop 1 bs\<rparr> in
     (case resolve w True p of None \<Rightarrow> (Inr False, w)
      | Some k \<Rightarrow>
          (case lookup w k of
             None \<Rightarrow> if k \<noteq> [] \<and> dir_at_key w (butlast k)
               then (Inr True, create_file k (0x1B6 AND NOT (umask w)) (Regular []) w) else (Inr False, w)
           | Some i \<Rightarrow>
               (case i_data i of
                  Regular _ \<Rightarrow>
                    (Inr True, tick (set_file k (i\<lparr>i_data := Regular [], i_mtime := now w\<rparr>) w))
                | _ \<Rightarrow> (Inr False, w)))))"

definition stream_write :: "path \<Rightarrow> string \<Rightarrow> unit wio" where
  "stream_write p s = (\<lambda>w. case faults w of
     True # bs \<Rightarrow> (Inr (), w\<lparr>faults := bs\<rparr>)
   | bs \<Rightarrow>
     let w = w\<lparr>faults := drop 1 bs\<rparr> in
     (case resolve w True p of None \<Rightarrow> (Inr (), w)
      | Some k \<Rightarrow> (Inr (), tick (update_inode k (\<lambda>i. i\<lparr>i_data := Regular s, i_mtime := now w\<rparr>) w))))"

definition create_symlink :: "path \<Rightarrow> path \<Rightarrow> unit wio" where
  "create_symlink target p = faulty (fs_error ''cannot create symlink'' p) (\<lambda>w. case free_key w p of
     None \<Rightarrow> (Inl (fs_error ''cannot create symlink'' p), w)
   | Some k \<Rightarrow> (Inr (), create_file k 0x1FF (Symlink target) w))"

definition copy_symlink :: "path \<Rightarrow> path \<Rightarrow> unit wio" where
  "copy_symlink p q = bindIO (read_symlink p) (\<lambda>target. create_symlink target q)"

text \<open>
  \<^verbatim>\<open>copy_file\<close> opens the source, makes the new file, sets its mode and copies the bytes; it
  refuses an existing target.
\<close>

definition copy_file :: "path \<Rightarrow> path \<Rightarrow> bool wio" where
  "copy_file p q =
     (let err = fs_error ''cannot copy file'' p in
      bindIO (faulty err (\<lambda>w. case (file_at w True p, free_key w q) of
          (Some (_, i), Some k) \<Rightarrow>
            (case i_data i of
               Regular s \<Rightarrow> (Inr (s, i_perm i, k), create_file k 0x80 (Regular []) w)
             | _ \<Rightarrow> (Inl err, w))
        | _ \<Rightarrow> (Inl err, w))) (\<lambda>(s, perm, k).
      bindIO (faulty err (modifyIO (update_inode k (\<lambda>i. i\<lparr>i_perm := perm\<rparr>)))) (\<lambda>_.
      bindIO (faulty err (modifyIO (\<lambda>w. tick (update_inode k (\<lambda>i. i\<lparr>i_data := Regular s, i_mtime := now w\<rparr>) w))))
        (\<lambda>_. returnIO True))))"

definition create_directory :: "path \<Rightarrow> bool wio" where
  "create_directory p = faulty (fs_error ''cannot create directory'' p) (\<lambda>w. case free_key w p of
     Some k \<Rightarrow> (Inr True, create_file k (0x1FF AND NOT (umask w)) Directory w)
   | None \<Rightarrow> (case file_at w True p of
       Some (_, i) \<Rightarrow> if is_dir i then (Inr False, w) else (Inl (fs_error ''cannot create directory'' p), w)
     | None \<Rightarrow> (Inl (fs_error ''cannot create directory'' p), w)))"

text \<open>\<^verbatim>\<open>permissions\<close> follows symbolic links.\<close>

definition set_permissions :: "path \<Rightarrow> perms \<Rightarrow> unit wio" where
  "set_permissions p perm = faulty (fs_error ''cannot set permissions'' p) (\<lambda>w. case file_at w True p of
     None \<Rightarrow> (Inl (fs_error ''cannot set permissions'' p), w)
   | Some (k, _) \<Rightarrow> (Inr (), update_inode k (\<lambda>i. i\<lparr>i_perm := perm AND 0xFFF\<rparr>) w))"

text \<open>
  \<^verbatim>\<open>remove_all\<close> removes the entry and what is below it, the content of a directory before the
  directory, and counts the removed entries. A path that does not exist is no error.
\<close>

definition subtree_keys :: "world \<Rightarrow> key \<Rightarrow> key list" where
  "subtree_keys w k = rev (sort_key length (filter (prefix k) (map fst (files w))))"

definition remove_all :: "path \<Rightarrow> nat wio" where
  "remove_all p = (\<lambda>w. case file_at w False p of
     None \<Rightarrow> faulty (fs_error ''cannot remove all'' p) (returnIO 0) w
   | Some (k, _) \<Rightarrow>
       foldIO (\<lambda>k' cnt. faulty (fs_error ''cannot remove all'' p)
         (bindIO (modifyIO (remove_file k')) (\<lambda>_. returnIO (Suc cnt)))) (subtree_keys w k) 0 w)"

definition rename_key :: "key \<Rightarrow> key \<Rightarrow> world \<Rightarrow> world" where
  "rename_key a b w = w\<lparr>files := map (\<lambda>(k, i). (if prefix a k then b @ drop (length a) k else k, i))
     (AList.delete b (files w))\<rparr>"

definition may_replace :: "world \<Rightarrow> inode \<Rightarrow> key \<Rightarrow> bool" where
  "may_replace w i b = (case lookup w b of None \<Rightarrow> b \<noteq> [] \<and> dir_at_key w (butlast b)
     | Some j \<Rightarrow> if is_dir i then is_dir j \<and> children w b = [] else \<not> is_dir j)"

definition rename_file :: "path \<Rightarrow> path \<Rightarrow> unit wio" where
  "rename_file p q = faulty (fs_error ''cannot rename'' p) (\<lambda>w.
     case (file_at w False p, resolve w False q) of
       (Some (a, i), Some b) \<Rightarrow>
         if a = b then (Inr (), w)
         else if prefix a b \<or> \<not> may_replace w i b then (Inl (fs_error ''cannot rename'' p), w)
         else (Inr (), touch_parent b (touch_parent a (rename_key a b w)))
     | _ \<Rightarrow> (Inl (fs_error ''cannot rename'' p), w))"

section \<open>Answers of the user\<close>

text \<open>
  \<^verbatim>\<open>cin.get()\<close> at the end of the input gives a value that is neither answer, forever.
\<close>

fun read_answer :: "string \<Rightarrow> bool option \<times> string" where
  "read_answer [] = (None, [])"
| "read_answer (c # cs) =
     (if c = CHR ''y'' \<or> c = CHR ''Y'' then (Some True, cs)
      else if c = CHR ''n'' \<or> c = CHR ''N'' then (Some False, cs)
      else read_answer cs)"

definition askYesNo :: "bool wio" where
  "askYesNo = (\<lambda>w. case read_answer (stdin w) of
     (None, rest) \<Rightarrow> (Inl Diverged, w\<lparr>stdin := rest\<rparr>)
   | (Some b, rest) \<Rightarrow> (Inr b, w\<lparr>stdin := rest\<rparr>))"

end
