(* ===== verification/Ddm_Extfs.thy ===== *)
theory Ddm_Extfs
  imports Ddm_World
begin

text \<open>
  The extension of \<^verbatim>\<open>std::filesystem\<close> that the program brings (extfs.h, extfs.cpp): the status of
  a file with owner and time, the translation between user names and numbers with its caches, and
  the calls that set owner and time without following symbolic links. The mutex of the caches only
  matters for the two scanning threads; every lookup runs as a whole.
\<close>

section \<open>Status of a file\<close>

text \<open>What \<^verbatim>\<open>lstat\<close> reports: the type is in the four bits above the twelve of the mode.\<close>

record stat =
  st_mode :: "32 word"
  st_uid :: nat
  st_gid :: nat
  st_mtime :: int
  st_nlink :: nat
  st_size :: int

definition type_code :: "file_data \<Rightarrow> 32 word" where
  "type_code d = (case d of Regular _ \<Rightarrow> 8 | Directory \<Rightarrow> 4 | Symlink _ \<Rightarrow> 10
     | Special t \<Rightarrow> (case t of FT_fifo \<Rightarrow> 1 | FT_character \<Rightarrow> 2 | FT_block \<Rightarrow> 6 | FT_socket \<Rightarrow> 12 | _ \<Rightarrow> 0))"

definition stat_of :: "inode \<Rightarrow> stat" where
  "stat_of i = \<lparr>st_mode = push_bit 12 (type_code (i_data i)) OR (i_perm i AND 0xFFF),
     st_uid = i_uid i, st_gid = i_gid i, st_mtime = i_mtime i, st_nlink = i_nlink i,
     st_size = (case i_data i of Regular s \<Rightarrow> int (length s) | Symlink p \<Rightarrow> int (length p) | _ \<Rightarrow> 0)\<rparr>"

definition typeLut :: "file_type list" where
  "typeLut =
     [FT_unknown, FT_fifo, FT_character, FT_unknown, FT_directory, FT_unknown, FT_block, FT_unknown,
      FT_regular, FT_unknown, FT_symlink, FT_unknown, FT_socket, FT_unknown, FT_unknown, FT_unknown]"

definition status_type :: "stat \<Rightarrow> file_type" where
  "status_type st = typeLut ! unat (drop_bit 12 (st_mode st) AND 0xF)"

definition status_permissions :: "stat \<Rightarrow> perms" where
  "status_permissions st = st_mode st AND 0xFFF"

definition ext_symlink_status :: "path \<Rightarrow> stat wio" where
  "ext_symlink_status p = faulty (Runtime_error ''ext_symlink_status'') (\<lambda>w. case file_at w False p of
     None \<Rightarrow> (Inl (Runtime_error ''ext_symlink_status''), w)
   | Some (_, i) \<Rightarrow> (Inr (stat_of i), w))"

section \<open>Users and groups\<close>

text \<open>\<^verbatim>\<open>map::insert\<close> keeps an entry that is there.\<close>

definition insert_new :: "'a \<Rightarrow> 'b \<Rightarrow> ('a \<Rightarrow> 'b option) \<Rightarrow> 'a \<Rightarrow> 'b option" where
  "insert_new k v m = (if m k = None then m(k \<mapsto> v) else m)"

definition ext_lookup_user :: "nat \<Rightarrow> string wio" where
  "ext_lookup_user uid = (\<lambda>w. case userCache w uid of
     Some user \<Rightarrow> (Inr user, w)
   | None \<Rightarrow> faulty (Runtime_error ''ext_lookup_user(uid_t uid): getpwuid_r failed'') (\<lambda>w.
       case map_of (passwd w) uid of
         Some user \<Rightarrow> (Inr user, w\<lparr>userCache := insert_new uid user (userCache w),
             userReverseCache := insert_new user uid (userReverseCache w)\<rparr>)
       | None \<Rightarrow> let user = to_string (int uid) in
           (Inr user, w\<lparr>userCache := insert_new uid user (userCache w),
             userReverseCache := insert_new user uid (userReverseCache w)\<rparr>)) w)"

definition ext_lookup_user_id :: "string \<Rightarrow> nat wio" where
  "ext_lookup_user_id user = (\<lambda>w. case userReverseCache w user of
     Some uid \<Rightarrow> (Inr uid, w)
   | None \<Rightarrow> faulty (Runtime_error ''ext_lookup_user(const string& user): getpwnam_r failed'') (\<lambda>w.
       case map_of (map prod.swap (passwd w)) user of
         Some uid \<Rightarrow> (Inr uid, w\<lparr>userReverseCache := insert_new user uid (userReverseCache w),
             userCache := insert_new uid user (userCache w)\<rparr>)
       | None \<Rightarrow> (Inl (Runtime_error (''ext_lookup_user(const string& user): user '' @ user @
           '' not found in the system'')), w)) w)"

definition ext_lookup_group :: "nat \<Rightarrow> string wio" where
  "ext_lookup_group gid = (\<lambda>w. case groupCache w gid of
     Some grp \<Rightarrow> (Inr grp, w)
   | None \<Rightarrow> faulty (Runtime_error ''ext_lookup_group(gid_t gid): getgrgid_r failed'') (\<lambda>w.
       case map_of (groups w) gid of
         Some grp \<Rightarrow> (Inr grp, w\<lparr>groupCache := insert_new gid grp (groupCache w),
             groupReverseCache := insert_new grp gid (groupReverseCache w)\<rparr>)
       | None \<Rightarrow> let grp = to_string (int gid) in
           (Inr grp, w\<lparr>groupCache := insert_new gid grp (groupCache w),
             groupReverseCache := insert_new grp gid (groupReverseCache w)\<rparr>)) w)"

definition ext_lookup_group_id :: "string \<Rightarrow> nat wio" where
  "ext_lookup_group_id grp = (\<lambda>w. case groupReverseCache w grp of
     Some gid \<Rightarrow> (Inr gid, w)
   | None \<Rightarrow> faulty (Runtime_error ''ext_lookup_group(const string& group): getgrnam_r failed'') (\<lambda>w.
       case map_of (map prod.swap (groups w)) grp of
         Some gid \<Rightarrow> (Inr gid, w\<lparr>groupReverseCache := insert_new grp gid (groupReverseCache w),
             groupCache := insert_new gid grp (groupCache w)\<rparr>)
       | None \<Rightarrow> (Inl (Runtime_error (''ext_lookup_group(const string& group): group '' @ grp @
           '' not found in the system'')), w)) w)"

section \<open>Changes\<close>

definition ext_symlink_last_write_time :: "path \<Rightarrow> int \<Rightarrow> unit wio" where
  "ext_symlink_last_write_time p mtime =
     (let err = Runtime_error (''ext_symlink_last_write_time failed with path '' @ p) in
      faulty err (\<lambda>w. case file_at w False p of
        None \<Rightarrow> (Inl err, w)
      | Some (k, _) \<Rightarrow> (Inr (), update_inode k (\<lambda>i. i\<lparr>i_mtime := mtime\<rparr>) w)))"

text \<open>
  \<^verbatim>\<open>lchown\<close> on Linux takes the set-user-id bit off a regular file, and the set-group-id bit when
  the group may execute it. The order in which C++ evaluates the two lookups is not specified.
\<close>

definition drop_setid :: "inode \<Rightarrow> inode" where
  "drop_setid i = (case i_data i of
     Regular _ \<Rightarrow> i\<lparr>i_perm := i_perm i AND NOT (if i_perm i AND 0x8 \<noteq> 0 then 0xC00 else 0x800)\<rparr>
   | _ \<Rightarrow> i)"

definition ext_symlink_change_ownership :: "path \<Rightarrow> string \<Rightarrow> string \<Rightarrow> unit wio" where
  "ext_symlink_change_ownership p user grp =
     bindIO (ext_lookup_user_id user) (\<lambda>uid.
     bindIO (ext_lookup_group_id grp) (\<lambda>gid.
     let err = Runtime_error (''ext_symlink_change_ownership failed with path '' @ p) in
     faulty err (\<lambda>w. case file_at w False p of
       None \<Rightarrow> (Inl err, w)
     | Some (k, _) \<Rightarrow> (Inr (), update_inode k (\<lambda>i. drop_setid (i\<lparr>i_uid := uid, i_gid := gid\<rparr>)) w))))"

end
