(* ===== verification/Ddm_Metadata_File.thy ===== *)
theory Ddm_Metadata_File
  imports Ddm_Tree_Copy Ddm_Metadata_Line
begin

text \<open>
  Metadata files: \<^verbatim>\<open>DirectoryTree::readFrom(istream&)\<close> and
  \<^verbatim>\<open>DirectoryTree::writeTo(ostream&)\<close> with \<^verbatim>\<open>recursiveWrite\<close> (core.cpp). A file is a
  sequence of groups of lines, one group per directory with content, separated by empty lines. The
  main result is that a written tree is read back with the same entries.
\<close>

section \<open>Reading\<close>

definition groupError :: "string \<Rightarrow> int \<Rightarrow> string \<Rightarrow> exn" where
  "groupError metadataFileName lineNo m =
     Runtime_error ((if metadataFileName = [] then [] else metadataFileName @ '': '') @ m @
       '' before line '' @ to_string lineNo)"

text \<open>The loop of \<^verbatim>\<open>add\<close> that enters the nodes of a group in the index.\<close>

definition indexGroup ::
  "(string \<Rightarrow> exn) \<Rightarrow> path \<Rightarrow> DirectoryNode \<Rightarrow> DirectoryTree \<Rightarrow> DirectoryTree result" where
  "indexGroup err p n t =
     (let e = elem n in
      if \<not> path_eq p (parent_path (rp e)) then Inl (err ''different paths grouped'')
      else if index t (rp e) \<noteq> None then Inl (err ''index insert failed (duplicate?)'')
      else Inr (t\<lparr>index := (index t)(rp e \<mapsto> node_addr n),
                  warnings := warnings t @ (if ty e = FT_unknown
                    then [''Warning: '' @ rp e @ '' unsupported file type''] else [])\<rparr>))"

text \<open>
  The function \<^verbatim>\<open>add\<close>. A pointer found in the index that does not lead into the tree is one to
  a node of the group itself: the group would become its own content, outside of the model.
\<close>

definition addGroup ::
  "string \<Rightarrow> int \<Rightarrow> DirectoryTree \<Rightarrow> DirectoryNode list \<Rightarrow> DirectoryTree result" where
  "addGroup metadataFileName lineNo t nodes =
     (let err = groupError metadataFileName lineNo; p = parent_path (node_rp (hd nodes)) in
      if nodes = [] then Inr t else
      bindE (foldE (indexGroup err p) nodes t) (\<lambda>t.
      if topContent t = [] then
        if p \<noteq> [] then Inl (err ''file does not start with top level directory'')
        else Inr (t\<lparr>topContent := nodes\<rparr>)
      else
        case index t p of
          None \<Rightarrow> Inl (err ''directory content not preceded by index insert'')
        | Some a \<Rightarrow>
            bindE (deref t a) (\<lambda>dir.
            if content dir \<noteq> [] then Inl (err ''duplicate noncontiguous directory content'')
            else bindE (setDirectoryContent dir nodes) (\<lambda>dir. Inr (assign t dir)))))"

type_synonym read_state = "DirectoryTree \<times> DirectoryNode list \<times> int"

definition readLine :: "string \<Rightarrow> string \<Rightarrow> read_state \<Rightarrow> read_state result" where
  "readLine metadataFileName line st = (case st of (t, nodes, lineNo) \<Rightarrow>
     let lineNo = lineNo + 1 in
     if line = [] then
       bindE (addGroup metadataFileName lineNo t nodes) (\<lambda>t. Inr (t, [], lineNo))
     else
       bindE (readElement line metadataFileName lineNo) (\<lambda>e.
       Inr (t\<lparr>next_addr := Suc (next_addr t)\<rparr>, nodes @ [DirectoryNode (next_addr t) e []], lineNo)))"

definition readTree :: "DirectoryTree \<Rightarrow> string \<Rightarrow> string \<Rightarrow> DirectoryTree result" where
  "readTree t is metadataFileName =
     bindE (foldE (readLine metadataFileName) (stream_lines is) (clear t, [], 0)) (\<lambda>(t, nodes, lineNo).
     addGroup metadataFileName lineNo t nodes)"

section \<open>Writing\<close>

text \<open>The state is the output so far and \<^verbatim>\<open>printBreak\<close>.\<close>

definition printGroup :: "DirectoryNode list \<Rightarrow> string \<times> bool \<Rightarrow> string \<times> bool" where
  "printGroup nodes st = (case st of (os, printBreak) \<Rightarrow>
     (os @ (if printBreak then [nl] else []) @ concat (map (\<lambda>n. writeElement (elem n) @ [nl]) nodes),
      nodes \<noteq> []))"

text \<open>The loop over the subdirectories, which stops at the first entry that is not one.\<close>

fun writeSubdirs :: "DirectoryNode list \<Rightarrow> string \<times> bool \<Rightarrow> string \<times> bool" where
  "writeSubdirs [] st = st"
| "writeSubdirs (DirectoryNode a e c # ns) st =
     (if \<not> isDirectory e then st else writeSubdirs ns (writeSubdirs c (printGroup c st)))"

definition recursiveWrite :: "DirectoryNode list \<Rightarrow> string \<times> bool \<Rightarrow> string \<times> bool" where
  "recursiveWrite nodes st = writeSubdirs nodes (printGroup nodes st)"

definition writeTree :: "DirectoryTree \<Rightarrow> string" where
  "writeTree t = fst (recursiveWrite (topContent t) ([], False))"

section \<open>Adding a group to a well-formed tree\<close>

text \<open>What is left of an element in a metadata file.\<close>

definition stored :: "FilesystemElement \<Rightarrow> FilesystemElement" where
  "stored e = e\<lparr>per := take_bit 9 (per e), hardLinkCnt := 1\<rparr>"

lemma stored_simps [simp]:
  "rp (stored e) = rp e" "ty (stored e) = ty e" "isDirectory (stored e) = isDirectory e"
  "elem_key (stored e) = elem_key e"
  by (simp_all add: stored_def isDirectory_def elem_key_def)

fun fresh_nodes :: "nat \<Rightarrow> FilesystemElement list \<Rightarrow> DirectoryNode list" where
  "fresh_nodes k [] = []"
| "fresh_nodes k (e # es) = DirectoryNode k (stored e) [] # fresh_nodes (Suc k) es"

lemma fresh_nodes_simps:
  "nodes_in (fresh_nodes k es) = fresh_nodes k es"
  "map elem (fresh_nodes k es) = map stored es"
  "map node_addr (fresh_nodes k es) = [k..<k + length es]"
  "n \<in> set (fresh_nodes k es) \<Longrightarrow> content n = []"
  "fresh_nodes k es = [] \<longleftrightarrow> es = []"
  by (induction es arbitrary: k) (auto simp: upt_rec)

lemma map_elem_comp: "map elem xs = map g ys \<Longrightarrow> map (\<lambda>n. f (elem n)) xs = map (\<lambda>y. f (g y)) ys"
  by (metis (no_types, lifting) list.map_comp comp_def map_eq_conv)

lemma fresh_nodes_wf:
  assumes "wf_forest p c"
  shows "wf_forest p (fresh_nodes k (map elem c))"
proof -
  let ?ns = "fresh_nodes k (map elem c)"
  have el: "map elem ?ns = map (\<lambda>n. stored (elem n)) c"
    by (simp add: fresh_nodes_simps(2) comp_def)
  have "map node_rp ?ns = map node_rp c" "map node_key ?ns = map node_key c"
    using map_elem_comp [OF el, of rp] map_elem_comp [OF el, of elem_key]
    unfolding node_key_def [abs_def] by simp_all
  moreover have "wf_node p n" if "n \<in> set ?ns" for n
  proof -
    have "elem n \<in> set (map elem ?ns)" using that by simp
    then obtain m where "m \<in> set c" "elem n = stored (elem m)" unfolding el by auto
    moreover have "content n = []" using that by (rule fresh_nodes_simps(4))
    ultimately show ?thesis using wf_forestD(3) [OF assms, of m] by (simp add: wf_node_iff)
  qed
  ultimately show ?thesis using assms by (simp add: wf_forest_def)
qed

lemma forest_entries_fresh:
  "forest_entries (fresh_nodes k (map elem c)) =
     map_option stored \<circ> map_of (map (\<lambda>n. (node_rp n, elem n)) c)"
proof -
  have "map (\<lambda>n. (node_rp n, elem n)) (fresh_nodes k (map elem c)) =
      map (\<lambda>n. (node_rp n, stored (elem n))) c"
    using map_elem_comp [of "fresh_nodes k (map elem c)" "\<lambda>n. stored (elem n)" c "\<lambda>e. (rp e, e)"]
    by (simp add: fresh_nodes_simps(2) comp_def)
  moreover have "map_of (map (\<lambda>n. (node_rp n, stored (elem n))) c) =
      map_option stored \<circ> map_of (map (\<lambda>n. (node_rp n, elem n)) c)"
    by (induction c) (auto simp: fun_eq_iff)
  ultimately show ?thesis by (simp add: forest_entries_def fresh_nodes_simps(1))
qed

definition typeWarnings :: "DirectoryNode list \<Rightarrow> string list" where
  "typeWarnings ns = map (\<lambda>n. ''Warning: '' @ node_rp n @ '' unsupported file type'')
     (filter (\<lambda>n. ty (elem n) = FT_unknown) ns)"

lemma foldE_indexGroup:
  assumes "\<And>n. n \<in> set ns \<Longrightarrow> parent_path (node_rp n) = p \<and> index t (node_rp n) = None"
    and "distinct (map node_rp ns)"
  shows "foldE (indexGroup err p) ns t =
    Inr (t\<lparr>index := index t ++ index_of ns, warnings := warnings t @ typeWarnings ns\<rparr>)"
  using assms
proof (induction ns arbitrary: t)
  case Nil
  show ?case by (simp add: typeWarnings_def)
next
  case (Cons n ns)
  let ?t = "t\<lparr>index := (index t)(node_rp n \<mapsto> node_addr n), warnings := warnings t @ typeWarnings [n]\<rparr>"
  have step: "indexGroup err p n t = Inr ?t"
    using Cons.prems(1) [of n] by (simp add: indexGroup_def Let_def path_eq_def typeWarnings_def)
  have ok: "parent_path (node_rp m) = p \<and> index ?t (node_rp m) = None" if "m \<in> set ns" for m
    using Cons.prems(1) [of m] Cons.prems(2) that by (auto simp: image_iff)
  have "distinct (map node_rp ns)" using Cons.prems(2) by simp
  note IH = Cons.IH [of ?t, OF ok this]
  have "node_rp n \<notin> dom (index_of ns)" using Cons.prems(2) by (simp add: dom_index_of)
  moreover have it: "index ?t = (index t)(node_rp n \<mapsto> node_addr n)" by simp
  ultimately have "index ?t ++ index_of ns = index t ++ index_of (n # ns)"
    by (simp only: it index_of_simps(2) map_add_upd_swap map_add_upd simp_thms)
  moreover have "?t\<lparr>index := i, warnings := warnings ?t @ typeWarnings ns\<rparr> =
      t\<lparr>index := i, warnings := warnings t @ typeWarnings (n # ns)\<rparr>" for i
    by (simp add: typeWarnings_def)
  ultimately show ?case using IH by (simp only: foldE.simps step bindE_simps)
qed

lemma wf_tree_warnings [simp]: "wf_tree (t\<lparr>warnings := w\<rparr>) = wf_tree t"
  by (simp add: wf_tree_def)

lemma tree_entries_warnings [simp]: "tree_entries (t\<lparr>warnings := w\<rparr>) = tree_entries t"
  by (simp add: tree_entries_def)

lemma leaf_nodes_in: "(\<And>n. n \<in> set ns \<Longrightarrow> content n = []) \<Longrightarrow> nodes_in ns = ns"
proof (induction ns)
  case (Cons n ns)
  then have "nodes_of n = [n]" by (subst nodes_of_eq) simp
  with Cons show ?case by simp
qed simp

lemma no_entries_in_empty:
  assumes "wf_tree t" and "d \<in> tree_nodes t" and "content d = []" and "valid_name nm"
  shows "tree_entries t (child (node_rp d) nm) = None"
proof (rule ccontr)
  note f = wf_treeD(1) [OF assms(1)]
  assume "tree_entries t (child (node_rp d) nm) \<noteq> None"
  then obtain m where m: "m \<in> set (nodes_in (topContent t))" "node_rp m = child (node_rp d) nm"
    using wf_tree_entries [OF assms(1)] unfolding tree_nodes_def by blast
  have dn: "d \<in> set (nodes_in (topContent t))" using assms(2) by (simp add: tree_nodes_def)
  note wd = wf_forest_sub [OF dir_path_Nil f dn]
  have p: "parent_path (node_rp m) = node_rp d" using m(2) wd(3) assms(4) by simp
  have ne: "node_rp d \<noteq> []" using below_not_Nil [OF wf_node_below [OF wd(1,2)]] .
  from wf_forest_holder [OF dir_path_Nil f m(1)] p ne
  obtain k where "k \<in> tree_nodes t" "node_rp k = node_rp d" "m \<in> set (content k)"
    unfolding tree_nodes_def by auto
  then show False using wf_tree_inj [OF assms(1) _ assms(2), of k] assms(3) by auto
qed

text \<open>A group is added below a directory without entries, or as the top level.\<close>

lemma addGroup_top:
  assumes "wf_tree t" and ns: "ns \<noteq> []" "wf_forest [] ns" "\<And>n. n \<in> set ns \<Longrightarrow> content n = []"
    and fresh: "distinct (map node_addr ns)" "\<And>n. n \<in> set ns \<Longrightarrow> node_addr n < next_addr t"
    and top: "topContent t = []"
  shows "\<exists>t'. (\<forall>f ln. addGroup f ln t ns = Inr t') \<and> wf_tree t' \<and> next_addr t' = next_addr t \<and>
    topPath t' = topPath t \<and> tree_entries t' = tree_entries t ++ forest_entries ns"
proof -
  have nn: "nodes_in ns = ns" using ns(3) by (rule leaf_nodes_in)
  have none: "tree_entries t x = None" for x using top by (simp add: tree_entries_def forest_entries_def)
  have parent: "parent_path (node_rp n) = []" if "n \<in> set ns" for n
    using wf_node_parent [OF dir_path_Nil wf_forestD(3) [OF ns(2) that]] .
  have dist: "distinct (map node_rp ns)" by (rule wf_forestD(2) [OF ns(2)])
  let ?w = "warnings t @ typeWarnings ns"
  have w: "foldE (indexGroup err []) ns t = Inr (t\<lparr>index := index t ++ index_of ns, warnings := ?w\<rparr>)" for err
    using parent index_None_iff [OF assms(1)] none by (intro foldE_indexGroup [OF _ dist]) simp
  let ?t = "t\<lparr>topContent := ns, next_addr := next_addr t, index := index t ++ index_of (nodes_in ns)\<rparr>"
  have "addGroup f ln t ns = Inr (?t\<lparr>warnings := ?w\<rparr>)" for f ln
    using ns(1) w top parent [of "hd ns"] by (simp add: addGroup_def nn)
  moreover have "wf_tree ?t" "tree_entries ?t = tree_entries t ++ forest_entries ns"
    using added_forest [OF assms(1) ns(2), of ns "next_addr t"] fresh dist top nn none
    by (auto simp: nn)
  ultimately show ?thesis by (intro exI [of _ "?t\<lparr>warnings := ?w\<rparr>"]) simp
qed

lemma addGroup_directory:
  assumes "wf_tree t" and ns: "ns \<noteq> []" "wf_forest (node_rp d) ns" "\<And>n. n \<in> set ns \<Longrightarrow> content n = []"
    and fresh: "distinct (map node_addr ns)"
      "\<And>n. n \<in> set ns \<Longrightarrow> node_addr n \<notin> set (addrs_in (topContent t)) \<and> node_addr n < next_addr t"
    and d: "d \<in> tree_nodes t" "isDirectory (elem d)" "content d = []"
  shows "\<exists>t'. (\<forall>f ln. addGroup f ln t ns = Inr t') \<and> wf_tree t' \<and> next_addr t' = next_addr t \<and>
    topPath t' = topPath t \<and> tree_entries t' = tree_entries t ++ forest_entries ns"
proof -
  have nn: "nodes_in ns = ns" using ns(3) by (rule leaf_nodes_in)
  have dn: "d \<in> set (nodes_in (topContent t))" using d(1) by (simp add: tree_nodes_def)
  note wd = wf_forest_sub [OF dir_path_Nil wf_treeD(1) [OF assms(1)] dn]
  have none: "tree_entries t (node_rp n) = None" if "n \<in> set ns" for n
    using wf_forestD(3) [OF ns(2) that] no_entries_in_empty [OF assms(1) d(1,3)] by (auto elim!: wf_nodeE)
  have parent: "parent_path (node_rp n) = node_rp d" if "n \<in> set ns" for n
    using wf_node_parent [OF wd(3) wf_forestD(3) [OF ns(2) that]] .
  have dist: "distinct (map node_rp ns)" by (rule wf_forestD(2) [OF ns(2)])
  let ?w = "warnings t @ typeWarnings ns"
  have w: "foldE (indexGroup err (node_rp d)) ns t =
      Inr (t\<lparr>index := index t ++ index_of ns, warnings := ?w\<rparr>)" for err
    using parent index_None_iff [OF assms(1)] none by (intro foldE_indexGroup [OF _ dist]) simp
  let ?m = "set_content ns d"
  let ?t = "t\<lparr>topContent := topContent (assign t ?m), next_addr := next_addr t,
      index := index t ++ index_of (nodes_in ns)\<rparr>"
  have "node_rp d \<notin> node_rp ` set ns"
    using wf_node_below [OF wd(3) wf_forestD(3) [OF ns(2)]] by (metis imageE not_below_self)
  then have id: "(index t ++ index_of ns) (node_rp d) = Some (node_addr d)"
    using index_node [OF assms(1) d(1)] index_of_None [of ns "node_rp d"] by (simp add: map_add_Some_iff)
  have ne: "topContent t \<noteq> []" using d(1) by (auto simp: tree_nodes_def)
  have dr: "deref (t\<lparr>index := i, warnings := ?w\<rparr>) (node_addr d) = Inr d" for i
    using deref_node [OF assms(1) d(1)] by (simp add: deref_def)
  have "addGroup f ln t ns = Inr (?t\<lparr>warnings := ?w\<rparr>)" for f ln
    using ns(1) w ne parent [of "hd ns"] d(2,3) id dr
    by (simp add: addGroup_def nn setDirectoryContent_def assign_def)
  moreover have c: "wf_forest [] (topContent (assign t ?m))"
    using wd(2) ns(2) d(2) by (intro assign_wf_forest [OF assms(1) d(1)]) (simp_all add: node_key_def wf_node_iff)
  moreover have cc: "cells_in (topContent (assign t ?m)) = cells_in (topContent t) + cells_in ns"
    using assign_cells [OF assms(1) d(1), of ?m] d(3)
    by (simp add: cells_of_set_content cells_of_content [of d] ac_simps)
  have "a \<notin> set (addrs_in (topContent t)) \<and> a < next_addr t" if "a \<in> set (addrs_in ns)" for a
    using that fresh(2) unfolding nn set_map by (metis (no_types, lifting) imageE set_map)
  from added_forest [OF assms(1) c cc this] fresh(1) dist none
  have "wf_tree ?t" "tree_entries ?t = tree_entries t ++ forest_entries ns" by (simp_all add: nn)
  ultimately show ?thesis by (intro exI [of _ "?t\<lparr>warnings := ?w\<rparr>"]) simp
qed

section \<open>Reading what was written\<close>

definition file_ok :: "FilesystemElement \<Rightarrow> bool" where
  "file_ok e \<longleftrightarrow> line_ok e \<and> nl \<notin> set (rp e) \<and> nl \<notin> set (symlink e)"

lemma read_group:
  assumes "\<forall>e \<in> set es. line_ok e"
  shows "foldE (readLine f) (map writeElement es) (t, ns, ln) =
    Inr (t\<lparr>next_addr := next_addr t + length es\<rparr>, ns @ fresh_nodes (next_addr t) es, ln + int (length es))"
  using assms
proof (induction es arbitrary: t ns ln)
  case (Cons e es)
  have "readLine f (writeElement e) (t, ns, ln) =
      Inr (t\<lparr>next_addr := Suc (next_addr t)\<rparr>, ns @ [DirectoryNode (next_addr t) (stored e) []], ln + 1)"
    using Cons.prems readElement_writeElement [of e]
    by (simp add: readLine_def Let_def writeElement_not_Nil stored_def)
  then show ?case using Cons by (simp add: add.assoc)
qed simp

text \<open>
  The state of the writer against that of a reader of the text so far: once the reader has added
  the group that it is reading, it has the tree \<open>t1\<close>.
\<close>

definition synced :: "string \<Rightarrow> DirectoryTree \<Rightarrow> string \<times> bool \<Rightarrow> DirectoryTree \<Rightarrow> bool" where
  "synced f t0 st t1 \<longleftrightarrow> (\<exists>ls t pend ln.
     fst st = concat (map (\<lambda>l. l @ [nl]) ls) \<and> (\<forall>l \<in> set ls. nl \<notin> set l) \<and>
     foldE (readLine f) ls (clear t0, [], 0) = Inr (t, pend, ln) \<and> snd st = (pend \<noteq> []) \<and>
     (\<forall>f ln. addGroup f ln t pend = Inr t1) \<and> wf_tree t1)"

lemma synced_read:
  assumes "synced f t0 st t1"
  shows "readTree t0 (fst st) f = Inr t1"
proof -
  obtain ls t pend ln where ls: "fst st = concat (map (\<lambda>l. l @ [nl]) ls)" "\<forall>l \<in> set ls. nl \<notin> set l"
    "foldE (readLine f) ls (clear t0, [], 0) = Inr (t, pend, ln)" "\<forall>f ln. addGroup f ln t pend = Inr t1"
    using assms by (auto simp: synced_def)
  have "stream_lines (fst st) = ls"
    using stream_lines_concat [OF ls(2), of "[]"] ls(1) by simp
  then show ?thesis using ls(3,4) by (simp add: readTree_def)
qed

lemma addGroup_Nil [simp]: "addGroup f ln t [] = Inr t"
  by (simp add: addGroup_def Let_def)

lemma wf_tree_next: "wf_tree t \<Longrightarrow> next_addr t \<le> k \<Longrightarrow> wf_tree (t\<lparr>next_addr := k\<rparr>)"
  by (auto simp: wf_tree_def intro: less_le_trans)

lemma tree_entries_next [simp]: "tree_entries (t\<lparr>next_addr := k\<rparr>) = tree_entries t"
  by (simp add: tree_entries_def)

lemma tree_nodes_next [simp]: "tree_nodes (t\<lparr>next_addr := k\<rparr>) = tree_nodes t"
  by (simp add: tree_nodes_def)

text \<open>A group that the reader has just read is added.\<close>

lemma fresh_group_added:
  assumes "wf_tree t" and "c \<noteq> []" and "wf_forest p c"
    and place: "p = [] \<and> topContent t = [] \<or>
      (\<exists>d \<in> tree_nodes t. node_rp d = p \<and> isDirectory (elem d) \<and> content d = [])"
  defines "ns \<equiv> fresh_nodes (next_addr t) (map elem c)"
  shows "\<exists>t'. (\<forall>f ln. addGroup f ln (t\<lparr>next_addr := next_addr t + length c\<rparr>) ns = Inr t') \<and>
    wf_tree t' \<and> tree_entries t' = tree_entries t ++ forest_entries ns"
proof -
  let ?t = "t\<lparr>next_addr := next_addr t + length c\<rparr>"
  have wf: "wf_tree ?t" using assms(1) by (rule wf_tree_next) simp
  have ns: "ns \<noteq> []" "wf_forest p ns" "\<And>n. n \<in> set ns \<Longrightarrow> content n = []"
    using assms(2) fresh_nodes_wf [OF assms(3)] fresh_nodes_simps(4,5) unfolding ns_def by simp_all
  have addr: "map node_addr ns = [next_addr t..<next_addr t + length c]"
    by (simp add: ns_def fresh_nodes_simps(3))
  then have dist: "distinct (map node_addr ns)" by simp
  have "node_addr n \<in> set (map node_addr ns)" if "n \<in> set ns" for n using that by simp
  then have rng: "next_addr t \<le> node_addr n \<and> node_addr n < next_addr ?t" if "n \<in> set ns" for n
    using that unfolding addr by auto
  have new: "node_addr n \<notin> set (addrs_in (topContent ?t))" if "n \<in> set ns" for n
  proof
    assume "node_addr n \<in> set (addrs_in (topContent ?t))"
    then have "node_addr n \<in> node_addr ` tree_nodes t" by (simp add: tree_nodes_def)
    then obtain m where "m \<in> tree_nodes t" "node_addr m = node_addr n" by (metis imageE)
    then show False using wf_treeD(3) [OF assms(1)] rng [OF that] by fastforce
  qed
  from place show ?thesis
  proof
    assume "p = [] \<and> topContent t = []"
    then show ?thesis
      using addGroup_top [OF wf ns(1) _ ns(3) dist] ns(2) rng by auto
  next
    assume "\<exists>d \<in> tree_nodes t. node_rp d = p \<and> isDirectory (elem d) \<and> content d = []"
    then obtain d where d: "d \<in> tree_nodes ?t" "node_rp d = p" "isDirectory (elem d)" "content d = []"
      by auto
    have "node_addr n \<notin> set (addrs_in (topContent ?t)) \<and> node_addr n < next_addr ?t" if "n \<in> set ns" for n
      using new rng that by blast
    from addGroup_directory [OF wf ns(1) _ ns(3) dist this d(1,3,4)] ns(2) d(2) show ?thesis by auto
  qed
qed

text \<open>Printing the entries of a directory that the reader knows.\<close>

lemma printGroup_synced:
  assumes "synced f t0 st t1" and "wf_forest p c" and "\<forall>n \<in> set c. file_ok (elem n)"
    and place: "p = [] \<and> topContent t1 = [] \<or>
      (\<exists>d \<in> tree_nodes t1. node_rp d = p \<and> isDirectory (elem d) \<and> content d = [])"
  shows "\<exists>t2. synced f t0 (printGroup c st) t2 \<and>
    tree_entries t2 = tree_entries t1 ++ (map_option stored \<circ> map_of (map (\<lambda>n. (node_rp n, elem n)) c))"
proof -
  obtain ls t pend ln where ls: "fst st = concat (map (\<lambda>l. l @ [nl]) ls)" "\<forall>l \<in> set ls. nl \<notin> set l"
    "foldE (readLine f) ls (clear t0, [], 0) = Inr (t, pend, ln)" "snd st = (pend \<noteq> [])"
    "\<forall>f ln. addGroup f ln t pend = Inr t1" "wf_tree t1"
    using assms(1) by (auto simp: synced_def)
  let ?br = "if snd st then [[]] else []" and ?ws = "map writeElement (map elem c)"
  have br: "\<exists>ln'. foldE (readLine f) (ls @ ?br) (clear t0, [], 0) = Inr (t1, [], ln')"
    using ls(3-5) by (auto simp: foldE_append readLine_def Let_def)
  then obtain ln' where br: "foldE (readLine f) (ls @ ?br) (clear t0, [], 0) = Inr (t1, [], ln')" ..
  let ?ns = "fresh_nodes (next_addr t1) (map elem c)" and ?t = "t1\<lparr>next_addr := next_addr t1 + length c\<rparr>"
  have rd: "foldE (readLine f) (ls @ ?br @ ?ws) (clear t0, [], 0) = Inr (?t, ?ns, ln' + int (length c))"
    using br read_group [of "map elem c" f t1 "[]" ln'] assms(3)
    by (simp add: foldE_append file_ok_def flip: append_assoc)
  have nls: "\<forall>l \<in> set (ls @ ?br @ ?ws). nl \<notin> set l"
    using ls(2) newline_not_in_line assms(3) by (auto simp: file_ok_def)
  have out: "fst (printGroup c st) = concat (map (\<lambda>l. l @ [nl]) (ls @ ?br @ ?ws))"
    "snd (printGroup c st) = (?ns \<noteq> [])"
    using ls(1) by (auto simp: printGroup_def fresh_nodes_simps(5) comp_def split: prod.split)
  have "\<exists>t2. (\<forall>f ln. addGroup f ln ?t ?ns = Inr t2) \<and> wf_tree t2 \<and>
      tree_entries t2 = tree_entries t1 ++ forest_entries ?ns"
  proof (cases "c = []")
    case False
    then show ?thesis using fresh_group_added [OF ls(6) False assms(2) place] by blast
  qed (use ls(6) in \<open>simp add: forest_entries_def\<close>)
  then obtain t2 where t2: "\<forall>f ln. addGroup f ln ?t ?ns = Inr t2" "wf_tree t2"
    "tree_entries t2 = tree_entries t1 ++ forest_entries ?ns" by blast
  have "synced f t0 (printGroup c st) t2"
    unfolding synced_def by (intro exI conjI) (rule out(1), rule nls, rule rd, rule out(2), rule t2(1), rule t2(2))
  then show ?thesis using t2(3) unfolding forest_entries_fresh by blast
qed

text \<open>What a tree has below a node is below one of its entries.\<close>

lemma subtree_cover:
  assumes "wf_tree t" and "n \<in> tree_nodes t" and "below (node_rp n) x" and "tree_entries t x \<noteq> None"
  shows "x \<in> node_rp ` set (content n) \<or> (\<exists>m \<in> set (content n). below (node_rp m) x)"
proof -
  note f = wf_treeD(1) [OF assms(1)]
  have nn: "n \<in> set (nodes_in (topContent t))" using assms(2) by (simp add: tree_nodes_def)
  note w = wf_forest_sub [OF dir_path_Nil f nn]
  obtain k where k: "k \<in> set (nodes_in (topContent t))" "node_rp k = x"
    using assms(4) wf_tree_entries [OF assms(1)] unfolding tree_nodes_def by blast
  have "k \<in> set (nodes_of n)"
    using at_or_below_subtree [OF dir_path_Nil f nn k(1)] assms(3) k(2) by (simp add: at_or_below_def)
  moreover have "k \<noteq> n" using assms(3) k(2) by auto
  ultimately have "k \<in> set (nodes_in (content n))" by (simp add: nodes_of_eq [of n])
  then obtain m where m: "m \<in> set (content n)" "k \<in> set (nodes_of m)" by auto
  have "at_or_below (node_rp m) x"
    using wf_node_nodes_of [OF w(3) wf_forestD(3) [OF w(4) m(1)] m(2)] k(2) by simp
  then show ?thesis using m(1) by (auto simp: at_or_below_def)
qed

lemma empty_node:
  assumes "wf_tree t" and "tree_entries t p = Some e" and "\<And>x. below p x \<Longrightarrow> tree_entries t x = None"
  shows "\<exists>d \<in> tree_nodes t. node_rp d = p \<and> elem d = e \<and> content d = []"
proof -
  obtain d where d: "d \<in> tree_nodes t" "node_rp d = p" "elem d = e"
    using wf_tree_entries [OF assms(1)] assms(2) by blast
  have dn: "d \<in> set (nodes_in (topContent t))" using d(1) by (simp add: tree_nodes_def)
  note w = wf_forest_sub [OF dir_path_Nil wf_treeD(1) [OF assms(1)] dn]
  have "m \<notin> set (content d)" for m
  proof
    assume m: "m \<in> set (content d)"
    then have "m \<in> tree_nodes t" using content_in_nodes_in [OF dn] by (simp only: tree_nodes_def)
    then show False
      using tree_entries_node [OF assms(1)] assms(3) wf_node_below [OF w(3) wf_forestD(3) [OF w(4) m]] d(2)
      by fastforce
  qed
  then have "content d = []" by (cases "content d") auto
  with d show ?thesis by blast
qed

lemma siblings_apart:
  assumes "dir_path p" and "wf_forest p c" and "m \<in> set c" and "n \<in> set c" and "m \<noteq> n"
    and "at_or_below (node_rp m) x"
  shows "\<not> at_or_below (node_rp n) x"
proof
  assume n: "at_or_below (node_rp n) x"
  obtain a b where "valid_name a" "node_rp m = child p a" "valid_name b" "node_rp n = child p b"
    using wf_forestD(3) [OF assms(2)] assms(3,4) by (metis wf_nodeE)
  then have "node_rp m = node_rp n"
    using at_or_below_child_unique [OF assms(1), of a b x] assms(6) n by simp
  then show False
    using wf_forestD(2) [OF assms(2)] assms(3-5) by (simp add: distinct_map inj_on_def)
qed

text \<open>
  The reader has the entries of the nodes \<open>c\<close> and nothing below them. The writer goes through
  their contents; then the reader has what the written tree \<open>o\<close> has below them.
\<close>

definition level_known :: "DirectoryTree \<Rightarrow> DirectoryNode list \<Rightarrow> DirectoryTree \<Rightarrow> bool" where
  "level_known orig c t \<longleftrightarrow> (\<forall>n \<in> set c. tree_entries t (node_rp n) = Some (stored (elem n)) \<and>
     (\<forall>x. below (node_rp n) x \<longrightarrow> tree_entries t x = None))"

definition with_below ::
  "DirectoryTree \<Rightarrow> DirectoryNode list \<Rightarrow> (path \<Rightarrow> FilesystemElement option) \<Rightarrow> path \<Rightarrow> FilesystemElement option"
where
  "with_below orig c E x = (if \<exists>n \<in> set c. below (node_rp n) x
     then map_option stored (tree_entries orig x) else E x)"

lemma files_last:
  assumes "wf_forest p (n # ns)" and "\<not> isDirectory (elem n)" and "m \<in> set (n # ns)"
  shows "content m = []"
proof -
  have "node_key n \<le> node_key m" using wf_forestD(1) [OF assms(1)] assms(3) by auto
  then have "\<not> isDirectory (elem m)"
    using assms(2) by (auto simp: node_key_def elem_key_def less_eq_prod_def)
  then show ?thesis using wf_forestD(3) [OF assms(1,3)] by (auto simp: wf_node_iff)
qed

lemma with_below_leaf:
  assumes "wf_tree orig" and "set c \<subseteq> tree_nodes orig" and "\<And>m. m \<in> set c \<Longrightarrow> content m = []"
    and "level_known orig c t"
  shows "with_below orig c (tree_entries t) = tree_entries t"
proof
  fix x
  show "with_below orig c (tree_entries t) x = tree_entries t x"
  proof (cases "\<exists>n \<in> set c. below (node_rp n) x")
    case True
    then obtain n where n: "n \<in> set c" "below (node_rp n) x" by blast
    then have "tree_entries orig x = None"
      using subtree_cover [OF assms(1) _ n(2)] assms(2,3) by fastforce
    moreover have "tree_entries t x = None" using assms(4) n by (auto simp: level_known_def)
    ultimately show ?thesis by (simp add: with_below_def)
  qed (simp add: with_below_def)
qed

text \<open>The entries of a directory and what is below them, together.\<close>

lemma level_entries:
  assumes "wf_tree orig" and "set d \<subseteq> tree_nodes orig"
  shows "map_of (map (\<lambda>n. (node_rp n, elem n)) d) x =
    (if x \<in> node_rp ` set d then tree_entries orig x else None)"
  using assms(2)
proof (induction d)
  case (Cons n d)
  then show ?case using tree_entries_node [OF assms(1), of n] by auto
qed simp

lemma with_below_down:
  assumes "wf_tree orig" and "n \<in> tree_nodes orig" and "level_known orig [n] t1"
    and t2: "\<And>x. tree_entries t2 x = (if x \<in> node_rp ` set (content n)
      then map_option stored (tree_entries orig x) else tree_entries t1 x)"
  shows "with_below orig (content n) (tree_entries t2) = with_below orig [n] (tree_entries t1)"
    and "level_known orig (content n) t2"
proof -
  have nn: "n \<in> set (nodes_in (topContent orig))" using assms(2) by (simp add: tree_nodes_def)
  note w = wf_forest_sub [OF dir_path_Nil wf_treeD(1) [OF assms(1)] nn]
  have b: "below (node_rp n) (node_rp m)" if "m \<in> set (content n)" for m
    using wf_node_below [OF w(3) wf_forestD(3) [OF w(4) that]] .
  have none: "tree_entries t1 x = None" if "below (node_rp n) x" for x
    using assms(3) that by (simp add: level_known_def)
  have apart: "x \<notin> node_rp ` set (content n)" if m: "m \<in> set (content n)" "below (node_rp m) x" for m x
  proof
    assume "x \<in> node_rp ` set (content n)"
    then obtain k where k: "k \<in> set (content n)" "x = node_rp k" by blast
    have "at_or_below (node_rp k) x" and "at_or_below (node_rp m) x"
      using k(2) m(2) by (simp_all add: at_or_below_def)
    then have "k = m" using siblings_apart [OF w(3,4) k(1) m(1)] by blast
    then show False using m(2) k(2) by simp
  qed
  show "with_below orig (content n) (tree_entries t2) = with_below orig [n] (tree_entries t1)"
  proof
    fix x
    have "below (node_rp n) x" if "x \<in> node_rp ` set (content n)" using that b by (metis imageE)
    moreover have "below (node_rp n) x" if "m \<in> set (content n)" "below (node_rp m) x" for m
      using b that below_trans by blast
    moreover have "tree_entries orig x = None" if "below (node_rp n) x" "x \<notin> node_rp ` set (content n)"
      "\<not> (\<exists>m \<in> set (content n). below (node_rp m) x)"
      using subtree_cover [OF assms(1,2) that(1)] that(2,3) by blast
    ultimately show "with_below orig (content n) (tree_entries t2) x = with_below orig [n] (tree_entries t1) x"
      using none [of x] unfolding with_below_def t2 by auto
  qed
  show "level_known orig (content n) t2"
    unfolding level_known_def
  proof (intro ballI conjI allI impI)
    fix m assume m: "m \<in> set (content n)"
    then have "m \<in> tree_nodes orig" using content_in_nodes_in [OF nn] by (simp only: tree_nodes_def)
    then show "tree_entries t2 (node_rp m) = Some (stored (elem m))"
      using t2 tree_entries_node [OF assms(1)] m by simp
    fix x assume x: "below (node_rp m) x"
    then show "tree_entries t2 x = None"
      using t2 apart [OF m x] none below_trans [OF b [OF m] x] by simp
  qed
qed

lemma with_below_Cons:
  "with_below orig ns (with_below orig [n] E) = with_below orig (n # ns) E"
  by (auto simp: with_below_def fun_eq_iff)

lemma level_known_rest:
  assumes "dir_path p" and "wf_forest p (n # ns)" and "level_known orig (n # ns) t1"
    and "tree_entries t3 = with_below orig [n] (tree_entries t1)"
  shows "level_known orig ns t3"
proof -
  have "\<not> below (node_rp n) x" if m: "m \<in> set ns" "at_or_below (node_rp m) x" for m x
  proof -
    have "m \<noteq> n" using m(1) wf_forestD(2) [OF assms(2)] by (auto simp: image_iff)
    then show ?thesis using siblings_apart [OF assms(1,2), of m n x] m by (simp add: at_or_below_def)
  qed
  then show ?thesis
    using assms(3) unfolding level_known_def assms(4) with_below_def by (auto simp: at_or_below_def)
qed

lemma writeSubdirs_synced:
  assumes wf: "wf_tree orig" and ok: "\<And>n. n \<in> tree_nodes orig \<Longrightarrow> file_ok (elem n)"
  shows "dir_path p \<Longrightarrow> wf_forest p c \<Longrightarrow> set c \<subseteq> tree_nodes orig \<Longrightarrow> synced f t0 st t1 \<Longrightarrow>
    level_known orig c t1 \<Longrightarrow>
    \<exists>t2. synced f t0 (writeSubdirs c st) t2 \<and> tree_entries t2 = with_below orig c (tree_entries t1)"
proof (induction c st arbitrary: p t1 rule: writeSubdirs.induct)
  case (1 st)
  then show ?case by (auto simp: with_below_def)
next
  case (2 a e d ns st)
  let ?n = "DirectoryNode a e d"
  have n: "?n \<in> tree_nodes orig" using 2(5) by simp
  show ?case
  proof (cases "isDirectory e")
    case False
    have "with_below orig (?n # ns) (tree_entries t1) = tree_entries t1"
      using files_last [OF 2(4)] False by (intro with_below_leaf [OF wf 2(5) _ 2(7)]) auto
    then show ?thesis using False 2(6) by auto
  next
    case True
    have nn: "?n \<in> set (nodes_in (topContent orig))" using n by (simp add: tree_nodes_def)
    note w = wf_forest_sub [OF dir_path_Nil wf_treeD(1) [OF wf] nn, simplified]
    have sub: "set d \<subseteq> tree_nodes orig"
      using content_in_nodes_in [OF nn] unfolding tree_nodes_def by auto
    have k: "level_known orig [?n] t1" using 2(7) by (simp add: level_known_def)
    have "wf_tree t1" using 2(6) by (auto simp: synced_def)
    then have "\<exists>dd \<in> tree_nodes t1. node_rp dd = rp e \<and> elem dd = stored e \<and> content dd = []"
      using k by (intro empty_node) (simp_all add: level_known_def)
    then have "\<exists>dd \<in> tree_nodes t1. node_rp dd = rp e \<and> isDirectory (elem dd) \<and> content dd = []"
      using True by auto
    then obtain t2 where t2: "synced f t0 (printGroup d st) t2" "tree_entries t2 = tree_entries t1 ++
        (map_option stored \<circ> map_of (map (\<lambda>n. (node_rp n, elem n)) d))"
      using printGroup_synced [OF 2(6), of "rp e" d] w(4) ok sub by blast
    have e2: "tree_entries t2 x = (if x \<in> node_rp ` set (content ?n)
        then map_option stored (tree_entries orig x) else tree_entries t1 x)" for x
      using level_entries [OF wf sub, of x] wf_tree_entries [OF wf, of x] sub unfolding t2(2)
      by (auto simp: map_add_def tree_entries_node [OF wf] subset_iff)
    note down = with_below_down [OF wf n k e2, simplified]
    obtain t3 where t3: "synced f t0 (writeSubdirs d (printGroup d st)) t3"
      "tree_entries t3 = with_below orig [?n] (tree_entries t1)"
      using 2(1) [OF _ w(3,4) sub t2(1) down(2)] True down(1) by auto
    have "level_known orig ns t3" by (rule level_known_rest [OF 2(3,4,7) t3(2)])
    moreover have "wf_forest p ns" "set ns \<subseteq> tree_nodes orig"
      using 2(4,5) by (auto simp: wf_forest_def)
    ultimately show ?thesis
      using 2(2) [OF _ 2(3) _ _ t3(1)] True unfolding t3(2) with_below_Cons by auto
  qed
qed

lemma top_cover:
  assumes "wf_tree t" and "tree_entries t x \<noteq> None"
  shows "x \<in> node_rp ` set (topContent t) \<or> (\<exists>n \<in> set (topContent t). below (node_rp n) x)"
proof -
  obtain e where "tree_entries t x = Some e" using assms(2) by blast
  then obtain k where k: "k \<in> set (nodes_in (topContent t))" "node_rp k = x"
    using wf_tree_entries [OF assms(1), of x e] unfolding tree_nodes_def by blast
  then obtain n where n: "n \<in> set (topContent t)" "k \<in> set (nodes_of n)" by auto
  then have "at_or_below (node_rp n) x"
    using wf_node_nodes_of [OF dir_path_Nil wf_forestD(3) [OF wf_treeD(1) [OF assms(1)] n(1)] n(2)] k(2)
    by simp
  then show ?thesis using n(1) by (auto simp: at_or_below_def)
qed

lemma readTree_writeTree:
  assumes "wf_tree t" and "\<And>n. n \<in> tree_nodes t \<Longrightarrow> file_ok (elem n)"
  shows "\<exists>t'. readTree t0 (writeTree t) f = Inr t' \<and> wf_tree t' \<and>
    tree_entries t' = map_option stored \<circ> tree_entries t"
proof -
  let ?c = "topContent t"
  note w = wf_treeD(1) [OF assms(1)]
  have sub: "set ?c \<subseteq> tree_nodes t" using in_nodes_in unfolding tree_nodes_def by auto
  have "wf_tree (clear t0)" by (simp add: clear_def wf_tree_def index_ok_def)
  then have "synced f t0 ([], False) (clear t0)" by (auto simp: synced_def intro!: exI [of _ "[]"])
  moreover have "[] = ([] :: path) \<and> topContent (clear t0) = []" by (simp add: clear_def)
  ultimately obtain t2 where t2: "synced f t0 (printGroup ?c ([], False)) t2"
    "tree_entries t2 = tree_entries (clear t0) ++ (map_option stored \<circ> map_of (map (\<lambda>n. (node_rp n, elem n)) ?c))"
    using printGroup_synced [of f t0 "([], False)" "clear t0" "[]" ?c] w assms(2) sub by blast
  have "tree_entries (clear t0) = Map.empty"
    by (simp add: tree_entries_def clear_def forest_entries_def)
  then have e2: "tree_entries t2 x = (if x \<in> node_rp ` set ?c then map_option stored (tree_entries t x) else None)" for x
    using level_entries [OF assms(1) sub, of x] unfolding t2(2) by (simp add: map_add_def)
  note cover = top_cover [OF assms(1)]
  have "level_known t ?c t2"
    unfolding level_known_def
  proof (intro ballI conjI allI impI)
    fix n assume n: "n \<in> set ?c"
    then have "n \<in> tree_nodes t" using sub by (rule subsetD [rotated])
    from tree_entries_node [OF assms(1) this] n
    show "tree_entries t2 (node_rp n) = Some (stored (elem n))" by (simp add: e2)
    fix x assume x: "below (node_rp n) x"
    have "x \<noteq> node_rp k" if "k \<in> set ?c" for k
    proof
      assume xk: "x = node_rp k"
      then have "k = n" using siblings_apart [OF dir_path_Nil w that n, of x] x by (auto simp: at_or_below_def)
      with x xk show False by simp
    qed
    then have "x \<notin> node_rp ` set ?c" by (metis imageE)
    then show "tree_entries t2 x = None" by (simp add: e2)
  qed
  then obtain t3 where t3: "synced f t0 (recursiveWrite ?c ([], False)) t3"
    "tree_entries t3 = with_below t ?c (tree_entries t2)"
    using writeSubdirs_synced [OF assms dir_path_Nil w sub t2(1)] unfolding recursiveWrite_def by blast
  have "tree_entries t3 = map_option stored \<circ> tree_entries t"
  proof
    fix x
    show "tree_entries t3 x = (map_option stored \<circ> tree_entries t) x"
      using cover [of x] e2 [of x] unfolding t3(2) with_below_def by (cases "tree_entries t x") auto
  qed
  moreover have "wf_tree t3" using t3(1) by (auto simp: synced_def)
  ultimately show ?thesis
    using synced_read [OF t3(1)] unfolding writeTree_def by blast
qed

section \<open>Files whose groups are not sorted\<close>

text \<open>A text of one line per entry of the list, as an output stream has it.\<close>

definition lines_text :: "string list \<Rightarrow> string" where
  "lines_text ls = concat (map (\<lambda>l. l @ [nl]) ls)"

lemma stream_lines_text: "\<forall>l \<in> set ls. nl \<notin> set l \<Longrightarrow> stream_lines (lines_text ls) = ls"
  using stream_lines_concat [of ls "[]"] by (simp add: lines_text_def)

lemma written_lines: "\<forall>e \<in> set es. file_ok e \<Longrightarrow> \<forall>l \<in> set (map writeElement es). nl \<notin> set l"
  using newline_not_in_line by (auto simp: file_ok_def)

lemma read_one_group:
  assumes "\<forall>e \<in> set es. file_ok e"
  shows "readTree t0 (lines_text (map writeElement es)) f =
    addGroup f (int (length es)) ((clear t0)\<lparr>next_addr := next_addr t0 + length es\<rparr>)
      (fresh_nodes (next_addr t0) es)"
proof -
  have "\<forall>e \<in> set es. line_ok e" using assms by (simp add: file_ok_def)
  from read_group [OF this, of f "clear t0" "[]" 0] show ?thesis
    unfolding readTree_def stream_lines_text [OF written_lines [OF assms]] by (simp add: clear_def)
qed

lemma read_two_groups:
  assumes "\<forall>e \<in> set es. file_ok e" and "\<forall>e \<in> set es'. file_ok e"
  shows "readTree t0 (lines_text (map writeElement es @ [[]] @ map writeElement es')) f =
    bindE (addGroup f (int (length es) + 1) ((clear t0)\<lparr>next_addr := next_addr t0 + length es\<rparr>)
      (fresh_nodes (next_addr t0) es)) (\<lambda>t.
    addGroup f (int (length es) + 1 + int (length es')) (t\<lparr>next_addr := next_addr t + length es'\<rparr>)
      (fresh_nodes (next_addr t) es'))"
proof -
  have ok: "\<forall>e \<in> set es. line_ok e" "\<forall>e \<in> set es'. line_ok e" using assms by (simp_all add: file_ok_def)
  have "\<forall>l \<in> set (map writeElement es @ [[]] @ map writeElement es'). nl \<notin> set l"
    using written_lines [OF assms(1)] written_lines [OF assms(2)] by auto
  from stream_lines_text [OF this] show ?thesis
    using read_group [OF ok(1), of f "clear t0" "[]" 0] read_group [OF ok(2), of f]
    by (simp add: readTree_def foldE_append readLine_def bindE_assoc clear_def Let_def)
qed

lemma writeTree_file_first:
  assumes "topContent t \<noteq> []" and "\<not> isDirectory (elem (hd (topContent t)))"
  shows "writeTree t = lines_text (map writeElement (map elem (topContent t)))"
proof -
  obtain a e c ns where "topContent t = DirectoryNode a e c # ns"
    using assms(1) by (metis DirectoryNode.exhaust list.exhaust)
  then show ?thesis
    using assms(2) by (simp add: writeTree_def recursiveWrite_def printGroup_def lines_text_def comp_def)
qed

end
