(* ===== verification/Ddm_Filesystem.thy ===== *)
theory Ddm_Filesystem
  imports Ddm_Extfs Ddm_Metadata_File
begin

text \<open>
  What \<^verbatim>\<open>FilesystemElement\<close> and \<^verbatim>\<open>DirectoryTree\<close> (core.h, core.cpp) do with files: elements
  made from the status of a file, the scan of a directory, metadata files on disk, and the
  operations that change a tree and the directory it was scanned from together.

  The SHA1 sum of the content of a file is computed by a third-party library: the parameter
  \<open>sha\<close>. An operation that throws leaves the tree it was called on in a state that no caller reads;
  such a tree is not part of the result. The exception is the computation of missing hashes, whose
  partial result is saved.
\<close>

section \<open>Elements\<close>

definition hashFile :: "(string \<Rightarrow> string) \<Rightarrow> path \<Rightarrow> string wio" where
  "hashFile sha p =
     (let err = Runtime_error (''FileStore: error opening file for reading: '' @ p) in
      faulty err (\<lambda>w. case file_at w True p of
        Some (_, i) \<Rightarrow> (case i_data i of Regular s \<Rightarrow> (Inr (sha s), w) | _ \<Rightarrow> (Inl err, w))
      | None \<Rightarrow> (Inl err, w)))"

definition elementFromPath ::
  "(string \<Rightarrow> string) \<Rightarrow> path \<Rightarrow> path \<Rightarrow> ScanOpt \<Rightarrow> FilesystemElement wio" where
  "elementFromPath sha p topDir opt =
     bindIO (ext_symlink_status p) (\<lambda>s.
     bindIO (ext_lookup_user (st_uid s)) (\<lambda>user.
     bindIO (ext_lookup_group (st_gid s)) (\<lambda>grp.
     let e = emptyElement\<lparr>rp := lexically_relative p topDir, per := status_permissions s, us := user,
               gs := grp, mt := st_mtime s, ty := status_type s, hardLinkCnt := st_nlink s\<rparr> in
     (case status_type s of
        FT_regular \<Rightarrow>
          if opt = ComputeHash
          then bindIO (hashFile sha p) (\<lambda>h. returnIO (e\<lparr>sz := st_size s, fileHash := h\<rparr>))
          else returnIO (e\<lparr>sz := st_size s\<rparr>)
      | FT_directory \<Rightarrow> returnIO e
      | FT_symlink \<Rightarrow> bindIO (read_symlink p) (\<lambda>target. returnIO (e\<lparr>symlink := target\<rparr>))
      | _ \<Rightarrow> returnIO (e\<lparr>ty := FT_unknown\<rparr>)))))"

definition computeHashIfNeeded ::
  "(string \<Rightarrow> string) \<Rightarrow> path \<Rightarrow> FilesystemElement \<Rightarrow> FilesystemElement wio" where
  "computeHashIfNeeded sha topDir e =
     (if ty e \<noteq> FT_regular \<or> fileHash e \<noteq> [] then returnIO e
      else bindIO (hashFile sha (path_append topDir (rp e))) (\<lambda>h. returnIO (e\<lparr>fileHash := h\<rparr>)))"

text \<open>
  The nodes with the hashes computed so far, and the exception that ended the computation if
  there was one.
\<close>

fun computeMissingHashes ::
  "(string \<Rightarrow> string) \<Rightarrow> path \<Rightarrow> DirectoryNode \<Rightarrow> (DirectoryNode \<times> exn option) wio"
  and computeAllMissingHashes ::
  "(string \<Rightarrow> string) \<Rightarrow> path \<Rightarrow> DirectoryNode list \<Rightarrow> (DirectoryNode list \<times> exn option) wio"
where
  "computeMissingHashes sha topDir (DirectoryNode a e c) = (\<lambda>w.
     case computeHashIfNeeded sha topDir e w of
       (Inl x, w) \<Rightarrow> (Inr (DirectoryNode a e c, Some x), w)
     | (Inr e, w) \<Rightarrow>
         bindIO (computeAllMissingHashes sha topDir c) (\<lambda>(c, x). returnIO (DirectoryNode a e c, x)) w)"
| "computeAllMissingHashes sha topDir [] = returnIO ([], None)"
| "computeAllMissingHashes sha topDir (n # ns) =
     bindIO (computeMissingHashes sha topDir n) (\<lambda>(n, x).
     if x \<noteq> None then returnIO (n # ns, x)
     else bindIO (computeAllMissingHashes sha topDir ns) (\<lambda>(ns, x). returnIO (n # ns, x)))"

definition computeMissingHashesInTree ::
  "(string \<Rightarrow> string) \<Rightarrow> DirectoryTree \<Rightarrow> (DirectoryTree \<times> exn option) wio" where
  "computeMissingHashesInTree sha t =
     (case checkTopPath t ''computeMissingHashes'' of
        Inl x \<Rightarrow> returnIO (t, Some x)
      | Inr topDir \<Rightarrow> bindIO (computeAllMissingHashes sha topDir (topContent t)) (\<lambda>(c, x).
          returnIO (t\<lparr>topContent := c\<rparr>, x)))"

section \<open>Scanning a directory\<close>

text \<open>New list cells for the elements of a directory.\<close>

fun cells_for :: "nat \<Rightarrow> FilesystemElement list \<Rightarrow> DirectoryNode list" where
  "cells_for k [] = []"
| "cells_for k (e # es) = DirectoryNode k e [] # cells_for (Suc k) es"

text \<open>The loop that enters the entries of a directory in the index and warns about some of them.\<close>

definition indexScanned :: "DirectoryNode \<Rightarrow> DirectoryTree \<Rightarrow> DirectoryTree result" where
  "indexScanned n t =
     (let e = elem n in
      bindE (insertIndex (rp e) (node_addr n) (index t)) (\<lambda>idx.
      Inr (t\<lparr>index := idx, warnings := warnings t @
         (if ty e = FT_unknown then [''Warning: '' @ rp e @ '' unsupported file type''] else []) @
         (if ty e \<noteq> FT_directory \<and> hardLinkCnt e \<noteq> 1
          then [''Warning: '' @ rp e @ '' has multiple hardlinks''] else [])\<rparr>)))"

definition addScanned :: "path \<Rightarrow> FilesystemElement list \<Rightarrow> DirectoryTree \<Rightarrow>
    (DirectoryNode list \<times> DirectoryTree) result" where
  "addScanned p es t =
     (let nodes = sort_nodes (cells_for (next_addr t) es); t = t\<lparr>next_addr := next_addr t + length es\<rparr> in
      bindE (if topContent t = [] then Inr (t\<lparr>topContent := nodes\<rparr>)
             else case index t p of None \<Rightarrow> Inl Abort
             | Some a \<Rightarrow> bindE (deref t a) (\<lambda>n. bindE (setDirectoryContent n nodes) (\<lambda>n. Inr (assign t n)))) (\<lambda>t.
      bindE (foldE indexScanned nodes t) (\<lambda>t. Inr (nodes, t))))"

text \<open>
  The recursion goes down the directories of the file system and ends because there are finitely
  many; \<open>fuel\<close> bounds its depth.
\<close>

fun recursiveBuildFromPath ::
  "(string \<Rightarrow> string) \<Rightarrow> ScanOpt \<Rightarrow> path \<Rightarrow> nat \<Rightarrow> path \<Rightarrow> DirectoryTree \<Rightarrow> DirectoryTree wio" where
  "recursiveBuildFromPath sha opt topDir 0 p t = throwIO Diverged"
| "recursiveBuildFromPath sha opt topDir (Suc fuel) p t =
     bindIO (directory_iterator (path_append topDir p)) (\<lambda>its.
     bindIO (mapIO (\<lambda>it. elementFromPath sha it topDir opt) its) (\<lambda>es.
     bindIO (liftE (addScanned p es t)) (\<lambda>(nodes, t).
     foldIO (\<lambda>n t. if isDirectory (elem n)
       then recursiveBuildFromPath sha opt topDir fuel (node_rp n) t else returnIO t) nodes t)))"

definition scanDirectory ::
  "(string \<Rightarrow> string) \<Rightarrow> DirectoryTree \<Rightarrow> path \<Rightarrow> ScanOpt \<Rightarrow> DirectoryTree wio" where
  "scanDirectory sha t p opt =
     bindIO (absolute p) (\<lambda>topDir.
     bindIO (is_directory topDir) (\<lambda>b.
     if \<not> b then throwIO (Logic_error (p @ '' is not a directory''))
     else bindIO (getIO (\<lambda>w. Suc (length (files w)))) (\<lambda>fuel.
       recursiveBuildFromPath sha opt topDir fuel [] ((clear t)\<lparr>topPath := Some topDir\<rparr>))))"

section \<open>Metadata files on disk\<close>

definition readFrom :: "DirectoryTree \<Rightarrow> path \<Rightarrow> DirectoryTree wio" where
  "readFrom t metadataFile =
     bindIO (ifstream metadataFile) (\<lambda>is. case is of
       None \<Rightarrow> throwIO (Runtime_error (''file not found: '' @ metadataFile))
     | Some s \<Rightarrow> liftE (readTree t s metadataFile))"

definition writeTo :: "DirectoryTree \<Rightarrow> path \<Rightarrow> unit wio" where
  "writeTo t metadataFile =
     bindIO (ofstream metadataFile) (\<lambda>b.
     if \<not> b then throwIO (Runtime_error (''could not open for writing: '' @ metadataFile))
     else stream_write metadataFile (writeTree t))"

definition fromPath ::
  "(string \<Rightarrow> string) \<Rightarrow> DirectoryTree \<Rightarrow> path \<Rightarrow> ScanOpt \<Rightarrow> DirectoryTree wio" where
  "fromPath sha t inputPath opt =
     bindIO (is_directory inputPath) (\<lambda>b.
     if b then scanDirectory sha t inputPath opt else readFrom t inputPath)"

definition bindToTopPath :: "DirectoryTree \<Rightarrow> path \<Rightarrow> DirectoryTree wio" where
  "bindToTopPath t p = bindIO (absolute p) (\<lambda>topDir. returnIO (t\<lparr>topPath := Some topDir\<rparr>))"

section \<open>Changing a tree and its directory\<close>

text \<open>A failure to set the owner is a warning only.\<close>

definition changeOwner :: "path \<Rightarrow> string \<Rightarrow> string \<Rightarrow> DirectoryTree \<Rightarrow> DirectoryTree wio" where
  "changeOwner absPath user grp t =
     catchIO (bindIO (ext_symlink_change_ownership absPath user grp) (\<lambda>_. returnIO t)) (\<lambda>_.
       returnIO (t\<lparr>warnings := warnings t @ [''Warning: could not change ownership of '' @ absPath @
         '': maybe retry with sudo?'']\<rparr>))"

definition fixupParentMtime :: "DirectoryTree \<Rightarrow> path \<Rightarrow> path \<Rightarrow> unit wio" where
  "fixupParentMtime t topDir parent =
     (if parent = [] then returnIO ()
      else bindIO (liftE (searchNode t parent [])) (\<lambda>n.
        ext_symlink_last_write_time (path_append topDir parent) (mt (elem n))))"

fun recursiveFilesystemCopy ::
  "path \<Rightarrow> path \<Rightarrow> DirectoryNode \<Rightarrow> DirectoryNode \<Rightarrow> DirectoryTree \<Rightarrow> DirectoryTree wio"
  and copyContent ::
  "path \<Rightarrow> path \<Rightarrow> DirectoryNode list \<Rightarrow> FilesystemElement \<Rightarrow> DirectoryTree \<Rightarrow> DirectoryTree wio"
where
  "recursiveFilesystemCopy srcTop topDir (DirectoryNode a se sc) dst t =
     (let e = elem dst; srcPathAbs = path_append srcTop (rp se); dstPathAbs = path_append topDir (rp e) in
      bindIO (case ty e of
          FT_regular \<Rightarrow> bindIO (copy_file srcPathAbs dstPathAbs) (\<lambda>b.
            if b then returnIO t
            else throwIO (Runtime_error (''Error copying '' @ srcPathAbs @ '' to '' @ dstPathAbs)))
        | FT_symlink \<Rightarrow> bindIO (copy_symlink srcPathAbs dstPathAbs) (\<lambda>_. returnIO t)
        | FT_directory \<Rightarrow> bindIO (create_directory dstPathAbs) (\<lambda>b.
            if \<not> b then throwIO (Runtime_error (''Error creating directory '' @ dstPathAbs))
            else bindIO (copyContent srcTop topDir sc e t) (\<lambda>t.
                 bindIO (set_permissions dstPathAbs (per e)) (\<lambda>_. returnIO t)))
        | _ \<Rightarrow> throwIO (Runtime_error (''DirectoryTree::recursiveFilesystemCopy: unknown file type '' @
                 srcPathAbs))) (\<lambda>t.
      bindIO (changeOwner dstPathAbs (us e) (gs e) t) (\<lambda>t.
      bindIO (ext_symlink_last_write_time dstPathAbs (mt e)) (\<lambda>_. returnIO t))))"
| "copyContent srcTop topDir [] e t = returnIO t"
| "copyContent srcTop topDir (n # ns) e t =
     (let p = path_append (rp e) (path_filename (node_rp n)) in
      bindIO (liftE (searchNode t p [])) (\<lambda>d.
      bindIO (recursiveFilesystemCopy srcTop topDir n d t) (\<lambda>t. copyContent srcTop topDir ns e t)))"

definition copyFromTreeAndFilesystem ::
  "DirectoryTree \<Rightarrow> DirectoryTree \<Rightarrow> path \<Rightarrow> path \<Rightarrow> DirectoryTree wio" where
  "copyFromTreeAndFilesystem t srcTree relativeSrcPath relativeDstPath =
     bindIO (liftE (checkTopPath t ''copyFromTreeAndFilesystem'')) (\<lambda>topDir.
     bindIO (liftE (checkTopPath srcTree ''copyFromTreeAndFilesystem'')) (\<lambda>srcTop.
     bindIO (liftE (treeCopy t srcTree relativeSrcPath relativeDstPath)) (\<lambda>(t, src, dst).
     bindIO (recursiveFilesystemCopy srcTop topDir src dst t) (\<lambda>t.
     bindIO (fixupParentMtime t topDir relativeDstPath) (\<lambda>_. returnIO t)))))"

definition removeFromTreeAndFilesystem :: "DirectoryTree \<Rightarrow> path \<Rightarrow> (DirectoryTree \<times> nat) wio" where
  "removeFromTreeAndFilesystem t relativePath =
     bindIO (liftE (checkTopPath t ''removeFromTreeAndFilesystem'')) (\<lambda>topDir.
     bindIO (liftE (removeFromTree t relativePath)) (\<lambda>t.
     bindIO (remove_all (path_append topDir relativePath)) (\<lambda>cnt.
     bindIO (fixupParentMtime t topDir (parent_path relativePath)) (\<lambda>_. returnIO (t, cnt)))))"

definition addSymlinkToTreeAndFilesystem :: "DirectoryTree \<Rightarrow> FilesystemElement \<Rightarrow> DirectoryTree wio" where
  "addSymlinkToTreeAndFilesystem t lnk =
     bindIO (liftE (checkTopPath t ''addSymlinkToTreeAndFilesystem'')) (\<lambda>topDir.
     bindIO (liftE (addSymlinkToTree t lnk)) (\<lambda>t.
     let absPath = path_append topDir (rp lnk) in
     bindIO (create_symlink (symlink lnk) absPath) (\<lambda>_.
     bindIO (changeOwner absPath (us lnk) (gs lnk) t) (\<lambda>t.
     bindIO (ext_symlink_last_write_time absPath (mt lnk)) (\<lambda>_.
     bindIO (fixupParentMtime t topDir (parent_path (rp lnk))) (\<lambda>_. returnIO t))))))"

definition modifyPermissionsInTreeAndFilesystem ::
  "DirectoryTree \<Rightarrow> path \<Rightarrow> perms \<Rightarrow> DirectoryTree wio" where
  "modifyPermissionsInTreeAndFilesystem t relativePath perm =
     bindIO (liftE (checkTopPath t ''modifyPermissionsInTreeAndFilesystem'')) (\<lambda>topDir.
     bindIO (liftE (modifyPermissionsInTree t relativePath perm)) (\<lambda>t.
     bindIO (set_permissions (path_append topDir relativePath) perm) (\<lambda>_.
     bindIO (fixupParentMtime t topDir (parent_path relativePath)) (\<lambda>_. returnIO t))))"

definition modifyOwnerInTreeAndFilesystem ::
  "DirectoryTree \<Rightarrow> path \<Rightarrow> string \<Rightarrow> string \<Rightarrow> DirectoryTree wio" where
  "modifyOwnerInTreeAndFilesystem t relativePath user grp =
     bindIO (liftE (checkTopPath t ''modifyOwnerInTreeAndFilesystem'')) (\<lambda>topDir.
     bindIO (liftE (modifyOwnerInTree t relativePath user grp)) (\<lambda>t.
     bindIO (changeOwner (path_append topDir relativePath) user grp t) (\<lambda>t.
     bindIO (fixupParentMtime t topDir (parent_path relativePath)) (\<lambda>_. returnIO t))))"

definition modifyMtimeInTreeAndFilesystem :: "DirectoryTree \<Rightarrow> path \<Rightarrow> int \<Rightarrow> DirectoryTree wio" where
  "modifyMtimeInTreeAndFilesystem t relativePath mtime =
     bindIO (liftE (checkTopPath t ''modifyMtimeInTreeAndFilesystem'')) (\<lambda>topDir.
     bindIO (liftE (modifyMtimeInTree t relativePath mtime)) (\<lambda>t.
     bindIO (ext_symlink_last_write_time (path_append topDir relativePath) mtime) (\<lambda>_. returnIO t)))"

end
