(* ===== verification/Ddm_Backup.thy ===== *)
theory Ddm_Backup
  imports Ddm_Filesystem Ddm_Diff
begin

text \<open>
  Backup and scrub (backup.h, backup.cpp): the \<^verbatim>\<open>TreeManager\<close> that loads the trees and saves
  the metadata files, the repair of a backup directory against its metadata, and the backup
  itself. What is printed for the user is not part of the model; the questions and their answers
  are.

  Parameters: \<open>sha\<close> for the hash of a content and \<open>visit\<close> for the iteration order of the sets in
  the comparison of trees. The repair compares again after some repairs; \<open>fuel\<close> bounds how often.
\<close>

section \<open>Scanning two directories\<close>

text \<open>
  With \<open>threads\<close> both scans run to their end, and the messages of their exceptions are joined. The
  threads share only the caches of user and group names, so they are run one after the other here.
\<close>

definition scanSourceTargetDir ::
  "(string \<Rightarrow> string) \<Rightarrow> path \<Rightarrow> path \<Rightarrow> bool \<Rightarrow> ScanOpt \<Rightarrow> (DirectoryTree \<times> DirectoryTree) wio" where
  "scanSourceTargetDir sha src dst threads opt =
     (if threads then
        bindIO (catchIO (bindIO (scanDirectory sha emptyTree src opt) (\<lambda>t. returnIO (t, [])))
                 (\<lambda>e. returnIO (emptyTree, exn_what e))) (\<lambda>(srcTree, backgroundException).
        bindIO (catchIO (bindIO (scanDirectory sha emptyTree dst opt) (\<lambda>t. returnIO (t, [])))
                 (\<lambda>e. returnIO (emptyTree, exn_what e))) (\<lambda>(dstTree, foregroundException).
        let foregroundException =
          (if backgroundException \<noteq> [] then
             (if foregroundException \<noteq> [] then foregroundException @ '' '' else foregroundException) @
             backgroundException
           else foregroundException) in
        if foregroundException \<noteq> [] then throwIO (Runtime_error foregroundException)
        else returnIO (srcTree, dstTree)))
      else
        bindIO (scanDirectory sha emptyTree src opt) (\<lambda>srcTree.
        bindIO (scanDirectory sha emptyTree dst opt) (\<lambda>dstTree.
        returnIO (srcTree, dstTree))))"

section \<open>The tree manager\<close>

record TreeManager =
  srcTree :: DirectoryTree
  dstTree :: DirectoryTree
  meta1Tree :: DirectoryTree
  meta2Tree :: DirectoryTree
  meta1 :: path
  meta2 :: path
  srcTreePresent :: bool
  meta2TreePresent :: bool
  save :: bool
  meta1NeedsBackup :: bool
  meta2NeedsBackup :: bool

type_synonym 'a tmio = "(TreeManager \<times> world, 'a) io"

definition loadMetadataFiles :: "path \<Rightarrow> path \<Rightarrow> (DirectoryTree \<times> DirectoryTree) wio" where
  "loadMetadataFiles m1 m2 =
     bindIO (readFrom emptyTree m1) (\<lambda>t1.
     bindIO (readFrom emptyTree m2) (\<lambda>t2. returnIO (t1, t2)))"

definition newTreeManager ::
  "DirectoryTree \<Rightarrow> DirectoryTree \<Rightarrow> DirectoryTree \<Rightarrow> DirectoryTree \<Rightarrow> path \<Rightarrow> path \<Rightarrow> bool \<Rightarrow> TreeManager" where
  "newTreeManager s d t1 t2 m1 m2 present =
     \<lparr>srcTree = s, dstTree = d, meta1Tree = t1, meta2Tree = t2, meta1 = m1, meta2 = m2,
      srcTreePresent = present, meta2TreePresent = True, save = False,
      meta1NeedsBackup = False, meta2NeedsBackup = False\<rparr>"

definition treeManagerWithSource ::
  "(string \<Rightarrow> string) \<Rightarrow> path \<Rightarrow> path \<Rightarrow> path \<Rightarrow> path \<Rightarrow> ScanOpt \<Rightarrow> bool \<Rightarrow> TreeManager wio" where
  "treeManagerWithSource sha src dst m1 m2 opt threads =
     bindIO (loadMetadataFiles m1 m2) (\<lambda>(t1, t2).
     bindIO (scanSourceTargetDir sha src dst threads opt) (\<lambda>(s, d).
     returnIO (newTreeManager s d t1 t2 m1 m2 True)))"

definition treeManagerWithoutSource ::
  "(string \<Rightarrow> string) \<Rightarrow> path \<Rightarrow> path \<Rightarrow> path \<Rightarrow> ScanOpt \<Rightarrow> TreeManager wio" where
  "treeManagerWithoutSource sha dst m1 m2 opt =
     bindIO (loadMetadataFiles m1 m2) (\<lambda>(t1, t2).
     bindIO (scanDirectory sha emptyTree dst opt) (\<lambda>d.
     returnIO (newTreeManager emptyTree d t1 t2 m1 m2 False)))"

definition discardMeta2Tree :: "TreeManager \<Rightarrow> TreeManager" where
  "discardMeta2Tree tm = tm\<lparr>meta2Tree := clear (meta2Tree tm), meta2TreePresent := False\<rparr>"

definition saveMetadataOnExit :: "TreeManager \<Rightarrow> TreeManager" where
  "saveMetadataOnExit tm = tm\<lparr>save := True\<rparr>"

definition saveMeta1PreviousVersion :: "TreeManager \<Rightarrow> TreeManager" where
  "saveMeta1PreviousVersion tm = tm\<lparr>meta1NeedsBackup := True\<rparr>"

definition saveMeta2PreviousVersion :: "TreeManager \<Rightarrow> TreeManager" where
  "saveMeta2PreviousVersion tm = tm\<lparr>meta2NeedsBackup := True\<rparr>"

definition destroyTreeManager :: "TreeManager \<Rightarrow> unit wio" where
  "destroyTreeManager tm =
     (if \<not> save tm then returnIO ()
      else
        bindIO (if meta1NeedsBackup tm then rename_file (meta1 tm) (meta1 tm @ ''.bak'') else returnIO ()) (\<lambda>_.
        bindIO (writeTo (meta1Tree tm) (meta1 tm)) (\<lambda>_.
        bindIO (if meta2NeedsBackup tm then rename_file (meta2 tm) (meta2 tm @ ''.bak'') else returnIO ()) (\<lambda>_.
        if meta2TreePresent tm then writeTo (meta2Tree tm) (meta2 tm)
        else writeTo (meta1Tree tm) (meta2 tm)))))"

text \<open>
  The life of a tree manager: the destructor runs when the block ends, also by an exception. An
  exception that leaves a destructor ends the process. An aborted process runs no destructor.
\<close>

definition withTreeManager :: "TreeManager wio \<Rightarrow> 'a tmio \<Rightarrow> 'a wio" where
  "withTreeManager construct body = bindIO construct (\<lambda>tm w.
     case body (tm, w) of (r, (tm, w)) \<Rightarrow>
       if (case r of Inl e \<Rightarrow> \<not> is_exception e | Inr _ \<Rightarrow> False) then (r, w)
       else (case destroyTreeManager tm w of
           (Inr _, w) \<Rightarrow> (r, w)
         | (Inl e, w) \<Rightarrow> (Inl (if is_exception e then Abort else e), w)))"

text \<open>Operations on one of the trees of the manager.\<close>

definition inWorld :: "'a wio \<Rightarrow> 'a tmio" where
  "inWorld m = (\<lambda>(tm, w). case m w of (r, w) \<Rightarrow> (r, (tm, w)))"

definition updateDst :: "(DirectoryTree \<Rightarrow> DirectoryTree wio) \<Rightarrow> unit tmio" where
  "updateDst f = (\<lambda>(tm, w). case f (dstTree tm) w of
     (Inl e, w) \<Rightarrow> (Inl e, (tm, w))
   | (Inr t, w) \<Rightarrow> (Inr (), (tm\<lparr>dstTree := t\<rparr>, w)))"

definition updateMeta1 :: "(DirectoryTree \<Rightarrow> DirectoryTree result) \<Rightarrow> unit tmio" where
  "updateMeta1 f = (\<lambda>(tm, w). case f (meta1Tree tm) of
     Inl e \<Rightarrow> (Inl e, (tm, w))
   | Inr t \<Rightarrow> (Inr (), (tm\<lparr>meta1Tree := t\<rparr>, w)))"

definition updateMeta2 :: "(DirectoryTree \<Rightarrow> DirectoryTree result) \<Rightarrow> unit tmio" where
  "updateMeta2 f = (\<lambda>(tm, w).
     if \<not> meta2TreePresent tm then (Inl Abort, (tm, w))
     else case f (meta2Tree tm) of
       Inl e \<Rightarrow> (Inl e, (tm, w))
     | Inr t \<Rightarrow> (Inr (), (tm\<lparr>meta2Tree := t\<rparr>, w)))"

definition updateMetas :: "(DirectoryTree \<Rightarrow> DirectoryTree result) \<Rightarrow> unit tmio" where
  "updateMetas f = bindIO (updateMeta1 f) (\<lambda>_. updateMeta2 f)"

definition removeDst :: "path \<Rightarrow> unit tmio" where
  "removeDst relPath = updateDst (\<lambda>t. bindIO (removeFromTreeAndFilesystem t relPath) (\<lambda>(t, _). returnIO t))"

definition copyToDst :: "DirectoryTree \<Rightarrow> path \<Rightarrow> unit tmio" where
  "copyToDst src relPath = updateDst (\<lambda>t. copyFromTreeAndFilesystem t src relPath (parent_path relPath))"

text \<open>
  The entry in both metadata trees is replaced by that of the source, one tree after the other.
\<close>

definition replaceInMetas :: "DirectoryTree \<Rightarrow> path \<Rightarrow> unit tmio" where
  "replaceInMetas src relPath =
     bindIO (updateMeta1 (\<lambda>t. removeFromTree t relPath)) (\<lambda>_.
     bindIO (updateMeta1 (\<lambda>t. copyFromTree t src relPath (parent_path relPath))) (\<lambda>_.
     bindIO (updateMeta2 (\<lambda>t. removeFromTree t relPath)) (\<lambda>_.
     updateMeta2 (\<lambda>t. copyFromTree t src relPath (parent_path relPath)))))"

section \<open>Repairing one entry of the backup directory\<close>

datatype FixupResult =
    Failed
  | Success
  | SuccessDiffInvalidated
  | SuccessMetadataInvalidated
  | SuccessDiffMetadataInvalidated

type_synonym diff_line3 =
  "FilesystemElement option \<times> FilesystemElement option \<times> FilesystemElement option"

definition contentOpt :: CompareOpt where
  "contentOpt = compareAll\<lparr>opt_perm := False, opt_owner := False, opt_mtime := False\<rparr>"

definition metadataOpt :: CompareOpt where
  "metadataOpt = compareAll\<lparr>opt_size := False, opt_hash := False, opt_symlink := False\<rparr>"

text \<open>The three conditional updates that make the properties of an entry those of another.\<close>

definition updateMetasProperties :: "FilesystemElement \<Rightarrow> FilesystemElement \<Rightarrow> path \<Rightarrow> unit tmio" where
  "updateMetasProperties item old relPath =
     bindIO (if per item \<noteq> per old
       then updateMetas (\<lambda>t. modifyPermissionsInTree t relPath (per item)) else returnIO ()) (\<lambda>_.
     bindIO (if us item \<noteq> us old \<or> gs item \<noteq> gs old
       then updateMetas (\<lambda>t. modifyOwnerInTree t relPath (us item) (gs item)) else returnIO ()) (\<lambda>_.
     if mt item \<noteq> mt old
       then updateMetas (\<lambda>t. modifyMtimeInTree t relPath (mt item)) else returnIO ()))"

definition updateDstProperties :: "FilesystemElement \<Rightarrow> FilesystemElement \<Rightarrow> path \<Rightarrow> unit tmio" where
  "updateDstProperties item old relPath =
     bindIO (if per item \<noteq> per old
       then updateDst (\<lambda>t. modifyPermissionsInTreeAndFilesystem t relPath (per item)) else returnIO ()) (\<lambda>_.
     bindIO (if us item \<noteq> us old \<or> gs item \<noteq> gs old
       then updateDst (\<lambda>t. modifyOwnerInTreeAndFilesystem t relPath (us item) (gs item)) else returnIO ()) (\<lambda>_.
     if mt item \<noteq> mt old
       then updateDst (\<lambda>t. modifyMtimeInTreeAndFilesystem t relPath (mt item)) else returnIO ()))"

text \<open>The metadata files agree on an entry that the backup directory does not have.\<close>

definition fixMissingEntry :: "DirectoryTree option \<Rightarrow> FilesystemElement \<Rightarrow> FixupResult tmio" where
  "fixMissingEntry src d1 =
     (let relPath = rp d1 in
      if ty d1 = FT_symlink then
        bindIO (updateDst (\<lambda>t. addSymlinkToTreeAndFilesystem t d1)) (\<lambda>_. returnIO Success)
      else case src of
        None \<Rightarrow> returnIO Failed
      | Some src \<Rightarrow> bindIO (liftE (search src relPath)) (\<lambda>item. case item of
          None \<Rightarrow> returnIO Failed
        | Some item \<Rightarrow>
            if elem_eq item d1 then
              bindIO (copyToDst src relPath) (\<lambda>_.
              returnIO (if ty d1 = FT_directory then SuccessDiffInvalidated else Success))
            else if compare item d1 contentOpt then
              bindIO (copyToDst src relPath) (\<lambda>_.
              bindIO (updateMetasProperties item d1 relPath) (\<lambda>_.
              returnIO (if ty d1 = FT_directory then SuccessDiffMetadataInvalidated
                        else SuccessMetadataInvalidated)))
            else
              bindIO (copyToDst src relPath) (\<lambda>_.
              bindIO (replaceInMetas src relPath) (\<lambda>_.
              returnIO (if isDirectory item \<or> isDirectory d1 then SuccessDiffMetadataInvalidated
                        else SuccessMetadataInvalidated)))))"

text \<open>The backup directory has an entry that the metadata files agree should not be there.\<close>

definition fixExtraEntry :: "FilesystemElement \<Rightarrow> FixupResult tmio" where
  "fixExtraEntry d0 =
     bindIO (inWorld askYesNo) (\<lambda>yes.
     if \<not> yes then returnIO Failed
     else bindIO (removeDst (rp d0)) (\<lambda>_.
       returnIO (if ty d0 = FT_directory then SuccessDiffInvalidated else Success)))"

text \<open>
  The content of the entry differs, and the source directory has an entry at this path.
\<close>

definition fixFromSource ::
  "DirectoryTree \<Rightarrow> bool \<Rightarrow> FilesystemElement \<Rightarrow> FilesystemElement \<Rightarrow> FilesystemElement \<Rightarrow> FixupResult tmio" where
  "fixFromSource src bitrot d0 d1 item =
     (let relPath = rp d1 in
      if elem_eq item d1 then
        bindIO (if bitrot then returnIO True else inWorld askYesNo) (\<lambda>yes.
        if \<not> yes then returnIO Failed
        else bindIO (removeDst relPath) (\<lambda>_.
          bindIO (copyToDst src relPath) (\<lambda>_.
          returnIO (if ty d1 = FT_directory \<or> isDirectory d0 then SuccessDiffInvalidated else Success))))
      else if elem_eq item d0 then
        bindIO (replaceInMetas src relPath) (\<lambda>_.
        returnIO (if isDirectory item \<or> ty d1 = FT_directory then SuccessDiffMetadataInvalidated
                  else SuccessMetadataInvalidated))
      else if compare item d0 contentOpt then
        bindIO (updateDstProperties item d1 relPath) (\<lambda>_.
        bindIO (replaceInMetas src relPath) (\<lambda>_.
        returnIO (if ty d1 = FT_directory \<or> isDirectory d0 then SuccessDiffMetadataInvalidated
                  else SuccessMetadataInvalidated)))
      else
        bindIO (inWorld askYesNo) (\<lambda>yes.
        if \<not> yes then returnIO Failed
        else bindIO (removeDst relPath) (\<lambda>_.
          bindIO (copyToDst src relPath) (\<lambda>_.
          bindIO (replaceInMetas src relPath) (\<lambda>_.
          returnIO (if ty d1 = FT_directory \<or> isDirectory item \<or> isDirectory d0
                    then SuccessDiffMetadataInvalidated else SuccessMetadataInvalidated))))))"

text \<open>The entry of the backup directory differs from the one the metadata files agree on.\<close>

definition fixDifferentEntry ::
  "DirectoryTree option \<Rightarrow> FilesystemElement \<Rightarrow> FilesystemElement \<Rightarrow> FixupResult tmio" where
  "fixDifferentEntry src d0 d1 =
     (let relPath = rp d1 in
      if compare d0 d1 contentOpt then
        bindIO (updateDstProperties d1 d0 relPath) (\<lambda>_. returnIO Success)
      else
        let bitrot = compare d0 d1 metadataOpt in
        if ty d1 = FT_symlink \<and> ty d0 = FT_symlink then
          bindIO (if bitrot then returnIO True else inWorld askYesNo) (\<lambda>yes.
          if \<not> yes then returnIO Failed
          else bindIO (removeDst relPath) (\<lambda>_.
            bindIO (updateDst (\<lambda>t. addSymlinkToTreeAndFilesystem t d1)) (\<lambda>_. returnIO Success)))
        else case src of
          None \<Rightarrow> returnIO Failed
        | Some src \<Rightarrow> bindIO (liftE (search src relPath)) (\<lambda>item. case item of
            None \<Rightarrow> returnIO Failed
          | Some item \<Rightarrow> fixFromSource src bitrot d0 d1 item))"

definition tryToFixBackupEntry :: "DirectoryTree option \<Rightarrow> diff_line3 \<Rightarrow> FixupResult tmio" where
  "tryToFixBackupEntry src d = (case d of (d0, d1, d2) \<Rightarrow>
     bindIO (liftE (assertE (opt_elem_eq d1 d2))) (\<lambda>_.
     case (d0, d1) of
       (None, None) \<Rightarrow> throwIO (Logic_error ''bad optional access'')
     | (None, Some e1) \<Rightarrow> fixMissingEntry src e1
     | (Some e0, None) \<Rightarrow> fixExtraEntry e0
     | (Some e0, Some e1) \<Rightarrow> fixDifferentEntry src e0 e1))"

definition fixMetadataEntry ::
  "DirectoryTree \<Rightarrow> FilesystemElement option \<Rightarrow> FilesystemElement option \<Rightarrow> DirectoryTree \<Rightarrow>
     DirectoryTree result" where
  "fixMetadataEntry goodTree goodEntry badEntry badTree =
     bindE (case badEntry of None \<Rightarrow> Inr badTree | Some e \<Rightarrow> removeFromTree badTree (rp e)) (\<lambda>badTree.
     case goodEntry of None \<Rightarrow> Inr badTree
     | Some e \<Rightarrow> copyFromTree badTree goodTree (rp e) (parent_path (rp e)))"

definition fixMetadataResult ::
  "FilesystemElement option \<Rightarrow> FilesystemElement option \<Rightarrow> FixupResult" where
  "fixMetadataResult goodEntry badEntry =
     (if (case goodEntry of None \<Rightarrow> False | Some e \<Rightarrow> isDirectory e) \<or>
         (case badEntry of None \<Rightarrow> False | Some e \<Rightarrow> isDirectory e)
      then SuccessDiffMetadataInvalidated else SuccessMetadataInvalidated)"

section \<open>Scrub\<close>

record scrub_flags =
  unrecoverable :: bool
  maybeRecoverable :: bool
  redo :: bool
  updateMeta1Flag :: bool
  updateMeta2Flag :: bool

definition noFlags :: scrub_flags where
  "noFlags = \<lparr>unrecoverable = False, maybeRecoverable = False, redo = False,
     updateMeta1Flag = False, updateMeta2Flag = False\<rparr>"

definition noteFixup :: "FixupResult \<Rightarrow> scrub_flags \<Rightarrow> scrub_flags" where
  "noteFixup result fl = (case result of
     Success \<Rightarrow> fl
   | Failed \<Rightarrow> fl\<lparr>unrecoverable := True\<rparr>
   | SuccessDiffInvalidated \<Rightarrow> fl\<lparr>redo := True\<rparr>
   | SuccessMetadataInvalidated \<Rightarrow> fl\<lparr>updateMeta1Flag := True, updateMeta2Flag := True\<rparr>
   | SuccessDiffMetadataInvalidated \<Rightarrow>
       fl\<lparr>updateMeta1Flag := True, updateMeta2Flag := True, redo := True\<rparr>)"

definition scrubEntry :: "bool \<Rightarrow> diff_line3 \<Rightarrow> scrub_flags \<Rightarrow> scrub_flags tmio" where
  "scrubEntry fixup d fl = (case d of (d0, d1, d2) \<Rightarrow>
     bindIO (getIO fst) (\<lambda>tm.
     if opt_elem_eq d0 d1 \<and> \<not> opt_elem_eq d0 d2 then
       bindIO (updateMeta2 (fixMetadataEntry (dstTree tm) d0 d2)) (\<lambda>_.
       returnIO (fl\<lparr>updateMeta2Flag := True,
         redo := (fixMetadataResult d0 d2 = SuccessDiffMetadataInvalidated \<or> redo fl)\<rparr>))
     else if opt_elem_eq d0 d2 \<and> \<not> opt_elem_eq d0 d1 then
       bindIO (updateMeta1 (fixMetadataEntry (dstTree tm) d0 d1)) (\<lambda>_.
       returnIO (fl\<lparr>updateMeta1Flag := True,
         redo := (fixMetadataResult d0 d1 = SuccessDiffMetadataInvalidated \<or> redo fl)\<rparr>))
     else if opt_elem_eq d1 d2 \<and> \<not> opt_elem_eq d0 d1 then
       if fixup then
         bindIO (tryToFixBackupEntry (if srcTreePresent tm then Some (srcTree tm) else None) d) (\<lambda>result.
         returnIO (noteFixup result fl))
       else returnIO (fl\<lparr>maybeRecoverable := True\<rparr>)
     else if \<not> opt_elem_eq d0 d1 \<and> \<not> opt_elem_eq d1 d2 then
       returnIO (fl\<lparr>unrecoverable := True\<rparr>)
     else throwIO Abort))"

text \<open>The loop over the differences ends early when a repair invalidated them.\<close>

fun scrubEntries :: "bool \<Rightarrow> diff_line3 list \<Rightarrow> scrub_flags \<Rightarrow> scrub_flags tmio" where
  "scrubEntries fixup [] fl = returnIO fl"
| "scrubEntries fixup (d # ds) fl =
     bindIO (scrubEntry fixup d fl) (\<lambda>fl.
     if redo fl then returnIO fl else scrubEntries fixup ds fl)"

definition scrubDiff :: "(path list \<Rightarrow> path list) \<Rightarrow> diff_line3 list tmio" where
  "scrubDiff visit = bindIO (getIO fst) (\<lambda>tm.
     bindIO (liftE (assertE (meta2TreePresent tm))) (\<lambda>_.
     liftE (diff3 visit (dstTree tm) (meta1Tree tm) (meta2Tree tm) compareAll)))"

fun scrubLoop ::
  "(path list \<Rightarrow> path list) \<Rightarrow> nat \<Rightarrow> bool \<Rightarrow> diff_line3 list \<Rightarrow> scrub_flags \<Rightarrow> scrub_flags tmio" where
  "scrubLoop visit 0 fixup diff fl = throwIO Diverged"
| "scrubLoop visit (Suc fuel) fixup diff fl =
     bindIO (scrubEntries fixup diff fl) (\<lambda>fl.
     if redo fl then bindIO (scrubDiff visit) (\<lambda>diff.
       scrubLoop visit fuel fixup diff (fl\<lparr>redo := False\<rparr>))
     else returnIO fl)"

definition updateManager :: "(TreeManager \<Rightarrow> TreeManager) \<Rightarrow> unit tmio" where
  "updateManager f = modifyIO (\<lambda>(tm, w). (f tm, w))"

definition scrubImpl :: "(path list \<Rightarrow> path list) \<Rightarrow> nat \<Rightarrow> bool \<Rightarrow> int tmio" where
  "scrubImpl visit fuel fixup =
     bindIO (scrubDiff visit) (\<lambda>diff.
     if diff = [] then returnIO 0
     else bindIO (scrubLoop visit fuel fixup diff noFlags) (\<lambda>fl.
       if \<not> unrecoverable fl \<and> \<not> maybeRecoverable fl then
         bindIO (updateManager saveMetadataOnExit) (\<lambda>_.
         bindIO (if updateMeta1Flag fl then updateManager saveMeta1PreviousVersion else returnIO ()) (\<lambda>_.
         bindIO (if updateMeta2Flag fl then updateManager saveMeta2PreviousVersion else returnIO ()) (\<lambda>_.
         returnIO 1)))
       else returnIO 2))"

definition scrub ::
  "(string \<Rightarrow> string) \<Rightarrow> (path list \<Rightarrow> path list) \<Rightarrow> nat \<Rightarrow> path \<Rightarrow> path \<Rightarrow> path \<Rightarrow> bool \<Rightarrow> int wio" where
  "scrub sha visit fuel dst m1 m2 fixup =
     withTreeManager (treeManagerWithoutSource sha dst m1 m2 ComputeHash) (scrubImpl visit fuel fixup)"

definition scrubWithSource ::
  "(string \<Rightarrow> string) \<Rightarrow> (path list \<Rightarrow> path list) \<Rightarrow> nat \<Rightarrow> path \<Rightarrow> path \<Rightarrow> path \<Rightarrow> path \<Rightarrow> bool \<Rightarrow> bool \<Rightarrow>
     int wio" where
  "scrubWithSource sha visit fuel src dst m1 m2 fixup threads =
     withTreeManager (treeManagerWithSource sha src dst m1 m2 ComputeHash threads)
       (scrubImpl visit fuel fixup)"

section \<open>Backup\<close>

text \<open>The state of a backup: the tree of the backup directory and an optional metadata tree.\<close>

type_synonym backup_state = "DirectoryTree \<times> DirectoryTree option \<times> world"

type_synonym 'a bio = "(backup_state, 'a) io"

definition bDst :: "(DirectoryTree \<Rightarrow> DirectoryTree wio) \<Rightarrow> unit bio" where
  "bDst f = (\<lambda>(dst, meta, w). case f dst w of
     (Inl e, w) \<Rightarrow> (Inl e, (dst, meta, w))
   | (Inr dst, w) \<Rightarrow> (Inr (), (dst, meta, w)))"

definition bMeta :: "(DirectoryTree \<Rightarrow> DirectoryTree result) \<Rightarrow> unit bio" where
  "bMeta f = (\<lambda>(dst, meta, w). case meta of
     None \<Rightarrow> (Inr (), (dst, meta, w))
   | Some m \<Rightarrow> (case f m of Inl e \<Rightarrow> (Inl e, (dst, meta, w)) | Inr m \<Rightarrow> (Inr (), (dst, Some m, w))))"

definition bAsk :: "bool bio" where
  "bAsk = (\<lambda>(dst, meta, w). case askYesNo w of (r, w) \<Rightarrow> (r, (dst, meta, w)))"

definition bRemove :: "path \<Rightarrow> unit bio" where
  "bRemove relPath = bDst (\<lambda>t. bindIO (removeFromTreeAndFilesystem t relPath) (\<lambda>(t, _). returnIO t))"

definition bCopy :: "DirectoryTree \<Rightarrow> path \<Rightarrow> unit bio" where
  "bCopy src relPath = bDst (\<lambda>t. copyFromTreeAndFilesystem t src relPath (parent_path relPath))"

definition backupOpt :: "FilesystemElement \<Rightarrow> FilesystemElement \<Rightarrow> CompareOpt" where
  "backupOpt d0 d1 =
     (let opt = compareAll\<lparr>opt_perm := False, opt_owner := False\<rparr> in
      if ty d0 \<noteq> FT_regular \<or> ty d1 \<noteq> FT_regular then opt\<lparr>opt_mtime := False\<rparr>
      else if fileHash d0 \<noteq> [] \<and> fileHash d1 \<noteq> [] then opt\<lparr>opt_mtime := False\<rparr>
      else opt)"

definition backupProperties :: "FilesystemElement \<Rightarrow> FilesystemElement \<Rightarrow> path \<Rightarrow> unit bio" where
  "backupProperties d0 d1 relPath =
     bindIO (if per d0 \<noteq> per d1 then
         bindIO (bDst (\<lambda>t. modifyPermissionsInTreeAndFilesystem t relPath (per d0))) (\<lambda>_.
         bMeta (\<lambda>t. modifyPermissionsInTree t relPath (per d0))) else returnIO ()) (\<lambda>_.
     bindIO (if us d0 \<noteq> us d1 \<or> gs d0 \<noteq> gs d1 then
         bindIO (bDst (\<lambda>t. modifyOwnerInTreeAndFilesystem t relPath (us d0) (gs d0))) (\<lambda>_.
         bMeta (\<lambda>t. modifyOwnerInTree t relPath (us d0) (gs d0))) else returnIO ()) (\<lambda>_.
     if mt d0 \<noteq> mt d1 then
         bindIO (bDst (\<lambda>t. modifyMtimeInTreeAndFilesystem t relPath (mt d0))) (\<lambda>_.
         bMeta (\<lambda>t. modifyMtimeInTree t relPath (mt d0))) else returnIO ()))"

definition backupReplace :: "DirectoryTree \<Rightarrow> path \<Rightarrow> unit bio" where
  "backupReplace src relPath =
     bindIO (bRemove relPath) (\<lambda>_.
     bindIO (bCopy src relPath) (\<lambda>_.
     bindIO (bMeta (\<lambda>t. removeFromTree t relPath)) (\<lambda>_.
     bMeta (\<lambda>t. copyFromTree t src relPath (parent_path relPath)))))"

text \<open>One difference; the result says whether bit rot was found so far.\<close>

definition backupEntry ::
  "DirectoryTree \<Rightarrow> FilesystemElement option \<times> FilesystemElement option \<Rightarrow> bool \<Rightarrow> bool bio" where
  "backupEntry src d bitrot = (case d of
     (None, None) \<Rightarrow> throwIO (Logic_error ''bad optional access'')
   | (None, Some d1) \<Rightarrow>
       bindIO (bRemove (rp d1)) (\<lambda>_.
       bindIO (bMeta (\<lambda>t. removeFromTree t (rp d1))) (\<lambda>_. returnIO bitrot))
   | (Some d0, None) \<Rightarrow>
       bindIO (bCopy src (rp d0)) (\<lambda>_.
       bindIO (bMeta (\<lambda>t. copyFromTree t src (rp d0) (parent_path (rp d0)))) (\<lambda>_. returnIO bitrot))
   | (Some d0, Some d1) \<Rightarrow>
       let relPath = rp d0 in
       if compare d0 d1 (backupOpt d0 d1) then
         bindIO (backupProperties d0 d1 relPath) (\<lambda>_. returnIO bitrot)
       else if compare d0 d1 metadataOpt then returnIO True
       else
         bindIO (if mt d0 < mt d1 then bAsk else returnIO True) (\<lambda>replace.
         if replace then bindIO (backupReplace src relPath) (\<lambda>_. returnIO bitrot)
         else returnIO bitrot))"

definition backupImpl :: "(path list \<Rightarrow> path list) \<Rightarrow> DirectoryTree \<Rightarrow> int bio" where
  "backupImpl visit src =
     bindIO (getIO fst) (\<lambda>dst.
     bindIO (liftE (diff2 visit src dst compareAll)) (\<lambda>diff.
     bindIO (foldIO (backupEntry src) diff False) (\<lambda>bitrot.
     returnIO (if bitrot then 2 else 0))))"

text \<open>A backup that runs on two trees of the manager.\<close>

definition inManager :: "'a bio \<Rightarrow> 'a tmio" where
  "inManager m = (\<lambda>(tm, w). case m (dstTree tm, Some (meta1Tree tm), w) of (r, (dst, meta, w)) \<Rightarrow>
     (r, (tm\<lparr>dstTree := dst, meta1Tree := (case meta of None \<Rightarrow> meta1Tree tm | Some t \<Rightarrow> t)\<rparr>, w)))"

definition computeMeta1Hashes :: "(string \<Rightarrow> string) \<Rightarrow> path \<Rightarrow> unit tmio" where
  "computeMeta1Hashes sha dst = (\<lambda>(tm, w).
     case bindToTopPath (meta1Tree tm) dst w of
       (Inl e, w) \<Rightarrow> (Inl e, (tm, w))
     | (Inr t, w) \<Rightarrow> (case computeMissingHashesInTree sha t w of
         (Inl e, w) \<Rightarrow> (Inl e, (tm\<lparr>meta1Tree := t\<rparr>, w))
       | (Inr (t, x), w) \<Rightarrow> ((case x of None \<Rightarrow> Inr () | Some e \<Rightarrow> Inl e), (tm\<lparr>meta1Tree := t\<rparr>, w))))"

definition backupBody ::
  "(string \<Rightarrow> string) \<Rightarrow> (path list \<Rightarrow> path list) \<Rightarrow> nat \<Rightarrow> path \<Rightarrow> bool \<Rightarrow> bool \<Rightarrow> int tmio" where
  "backupBody sha visit fuel dst fixup hashAllFiles =
     bindIO (scrubImpl visit fuel fixup) (\<lambda>result.
     bindIO (if result = 1 then inWorld askYesNo else returnIO True) (\<lambda>yes.
     if \<not> yes \<or> result = 2 then returnIO result
     else
       bindIO (updateManager discardMeta2Tree) (\<lambda>_.
       bindIO (updateManager saveMetadataOnExit) (\<lambda>_.
       bindIO (getIO fst) (\<lambda>tm.
       bindIO (liftE (assertE (srcTreePresent tm))) (\<lambda>_.
       bindIO (inManager (backupImpl visit (srcTree tm))) (\<lambda>result2.
       let result = (if result2 \<noteq> 0 then result2 else result) in
       bindIO (if hashAllFiles then returnIO () else computeMeta1Hashes sha dst) (\<lambda>_.
       returnIO result))))))))"

definition backup ::
  "(string \<Rightarrow> string) \<Rightarrow> (path list \<Rightarrow> path list) \<Rightarrow> nat \<Rightarrow> path \<Rightarrow> path \<Rightarrow> path \<Rightarrow> path \<Rightarrow> bool \<Rightarrow> bool \<Rightarrow> bool \<Rightarrow>
     int wio" where
  "backup sha visit fuel src dst m1 m2 fixup hashAllFiles threads =
     withTreeManager
       (treeManagerWithSource sha src dst m1 m2 (if hashAllFiles then ComputeHash else OmitHash) threads)
       (backupBody sha visit fuel dst fixup hashAllFiles)"

definition backupWithoutMetadata ::
  "(string \<Rightarrow> string) \<Rightarrow> (path list \<Rightarrow> path list) \<Rightarrow> path \<Rightarrow> path \<Rightarrow> bool \<Rightarrow> int wio" where
  "backupWithoutMetadata sha visit src dst threads =
     bindIO (scanSourceTargetDir sha src dst threads OmitHash) (\<lambda>(s, d) w.
     case backupImpl visit s (d, None, w) of (r, (_, _, w)) \<Rightarrow> (r, w))"

end
