(* ===== verification/Ddm_Cli.thy ===== *)
theory Ddm_Cli
  imports Ddm_Backup
begin

text \<open>
  The command line (main.cpp). A third-party library parses the arguments: what it makes of them
  is a parameter, a record of the options or the exception that it throws. A command gives the
  exit code and the text that it writes to its output stream; messages for the user on the
  terminal are not part of the model.
\<close>

record options =
  command_opt :: "string option"
  help_opt :: bool
  source_opt :: "string option"
  target_opt :: "string option"
  ignore_opt :: "string option"
  output_opt :: "string option"
  nohash :: bool
  fixup_opt :: bool
  singlethread :: bool
  inputs :: "string list"

definition scanOptOf :: "options \<Rightarrow> ScanOpt" where
  "scanOptOf vm = (if nohash vm then OmitHash else ComputeHash)"

definition lsCmd :: "(string \<Rightarrow> string) \<Rightarrow> options \<Rightarrow> (int \<times> string) wio" where
  "lsCmd sha vm =
     (if help_opt vm \<or> source_opt vm \<noteq> None \<or> target_opt vm \<noteq> None \<or> ignore_opt vm \<noteq> None \<or> fixup_opt vm
         \<or> length (inputs vm) > 1
      then returnIO (100, [])
      else bindIO (scanDirectory sha emptyTree (if inputs vm = [] then ''.'' else inputs vm ! 0) (scanOptOf vm))
        (\<lambda>dt. returnIO (0, writeTree dt)))"

definition diffCmd :: "(string \<Rightarrow> string) \<Rightarrow> (path list \<Rightarrow> path list) \<Rightarrow> options \<Rightarrow> (int \<times> string) wio" where
  "diffCmd sha visit vm =
     (if help_opt vm \<or> source_opt vm \<noteq> None \<or> target_opt vm \<noteq> None \<or> fixup_opt vm
         \<or> length (inputs vm) < 2 \<or> length (inputs vm) > 3
      then returnIO (100, [])
      else
        let sopt = scanOptOf vm in
        bindIO (case ignore_opt vm of None \<Rightarrow> returnIO compareAll | Some s \<Rightarrow> liftE (parseCompareOpt s)) (\<lambda>copt.
        if length (inputs vm) = 2 then
          bindIO (fromPath sha emptyTree (inputs vm ! 0) sopt) (\<lambda>a.
          bindIO (fromPath sha emptyTree (inputs vm ! 1) sopt) (\<lambda>b.
          bindIO (liftE (diff2 visit a b copt)) (\<lambda>diff.
          returnIO (if diff = [] then 0 else 1, printDiff2 diff))))
        else
          bindIO (fromPath sha emptyTree (inputs vm ! 0) sopt) (\<lambda>a.
          bindIO (fromPath sha emptyTree (inputs vm ! 1) sopt) (\<lambda>b.
          bindIO (fromPath sha emptyTree (inputs vm ! 2) sopt) (\<lambda>c.
          bindIO (liftE (diff3 visit a b c copt)) (\<lambda>diff.
          returnIO (if diff = [] then 0 else 1, printDiff3 diff)))))))"

definition scrubCmd ::
  "(string \<Rightarrow> string) \<Rightarrow> (path list \<Rightarrow> path list) \<Rightarrow> nat \<Rightarrow> options \<Rightarrow> (int \<times> string) wio" where
  "scrubCmd sha visit fuel vm =
     (let err = \<not> (\<not> help_opt vm \<and> ignore_opt vm = None \<and> \<not> nohash vm \<and>
         (source_opt vm \<noteq> None \<and> target_opt vm \<noteq> None \<and> length (inputs vm) = 2 \<or>
          source_opt vm = None \<and> target_opt vm = None \<and> length (inputs vm) = 3)) in
      if err then returnIO (100, [])
      else bindIO (case (source_opt vm, target_opt vm) of
          (Some src, Some dst) \<Rightarrow>
            scrubWithSource sha visit fuel src dst (inputs vm ! 0) (inputs vm ! 1) (fixup_opt vm)
              (\<not> singlethread vm)
        | _ \<Rightarrow> scrub sha visit fuel (inputs vm ! 0) (inputs vm ! 1) (inputs vm ! 2) (fixup_opt vm)) (\<lambda>r.
        returnIO (r, [])))"

definition backupCmd ::
  "(string \<Rightarrow> string) \<Rightarrow> (path list \<Rightarrow> path list) \<Rightarrow> nat \<Rightarrow> options \<Rightarrow> (int \<times> string) wio" where
  "backupCmd sha visit fuel vm =
     (case (source_opt vm, target_opt vm) of
        (Some src, Some dst) \<Rightarrow>
          if help_opt vm \<or> ignore_opt vm \<noteq> None \<or> length (inputs vm) \<noteq> 0 \<and> length (inputs vm) \<noteq> 2
          then returnIO (100, [])
          else bindIO (if length (inputs vm) = 2
            then backup sha visit fuel src dst (inputs vm ! 0) (inputs vm ! 1) (fixup_opt vm)
                   (\<not> nohash vm) (\<not> singlethread vm)
            else backupWithoutMetadata sha visit src dst (\<not> singlethread vm)) (\<lambda>r. returnIO (r, []))
      | _ \<Rightarrow> returnIO (100, []))"

text \<open>The table of the commands; any other word prints the help.\<close>

definition runCommand ::
  "(string \<Rightarrow> string) \<Rightarrow> (path list \<Rightarrow> path list) \<Rightarrow> nat \<Rightarrow> string \<Rightarrow> options \<Rightarrow> (int \<times> string) wio" where
  "runCommand sha visit fuel cmd vm =
     (if cmd = ''ls'' then lsCmd sha vm
      else if cmd = ''diff'' then diffCmd sha visit vm
      else if cmd = ''scrub'' then scrubCmd sha visit fuel vm
      else if cmd = ''backup'' then backupCmd sha visit fuel vm
      else returnIO (100, []))"

definition ddm_main ::
  "(string \<Rightarrow> string) \<Rightarrow> (path list \<Rightarrow> path list) \<Rightarrow> nat \<Rightarrow> options result \<Rightarrow> (int \<times> string) wio" where
  "ddm_main sha visit fuel parsed =
     catchIO (bindIO (liftE parsed) (\<lambda>vm. case command_opt vm of
       None \<Rightarrow> returnIO (100, [])
     | Some cmd \<Rightarrow>
         (case output_opt vm of
            None \<Rightarrow> runCommand sha visit fuel cmd vm
          | Some outFileName \<Rightarrow>
              bindIO (exists_file outFileName) (\<lambda>ex.
              if ex then returnIO (10, [])
              else bindIO (ofstream outFileName) (\<lambda>opened.
                if \<not> opened then returnIO (10, [])
                else bindIO (runCommand sha visit fuel cmd vm) (\<lambda>(code, text).
                  bindIO (stream_write outFileName text) (\<lambda>_. returnIO (code, []))))))))
       (\<lambda>_. returnIO (10, []))"

end
