(* ===== verification/Ddm_Backup_Tree.thy ===== *)
theory Ddm_Backup_Tree
  imports Ddm_Backup
begin

text \<open>
  What a backup does to the trees in memory. The operations that also change files leave the tree
  that the operations in memory give, so a backup that returns has refined a sequence of changes
  of a map from paths to elements, whatever calls fail on the way. From this follows what the
  backup directory has in the end: the entries of the source, except where the source looks rotten
  or the user wants to keep a newer entry.
\<close>

section \<open>Trees up to warnings\<close>

definition tree_eq :: "DirectoryTree \<Rightarrow> DirectoryTree \<Rightarrow> bool" where
  "tree_eq t t' \<longleftrightarrow> (\<exists>ws. t' = t\<lparr>warnings := ws\<rparr>)"

lemma tree_eq_refl [simp]: "tree_eq t t"
  by (auto simp: tree_eq_def intro: exI [of _ "warnings t"])

lemma tree_eq_trans: "tree_eq t u \<Longrightarrow> tree_eq u v \<Longrightarrow> tree_eq t v"
  by (auto simp: tree_eq_def)

lemma tree_eq_facts:
  assumes "tree_eq t t'"
  shows "wf_tree t' = wf_tree t" and "tree_entries t' = tree_entries t" and "topPath t' = topPath t"
    and "searchNode t' p u = searchNode t p u"
  using assms
  by (auto simp: tree_eq_def wf_tree_def tree_entries_def searchNode_def deref_def split: option.splits)

text \<open>What a computation returns when it returns.\<close>

definition returns :: "('s, 'a) io \<Rightarrow> ('a \<Rightarrow> bool) \<Rightarrow> bool" where
  "returns m Q \<longleftrightarrow> (\<forall>s x s'. m s = (Inr x, s') \<longrightarrow> Q x)"

lemma returnsD: "returns m Q \<Longrightarrow> m s = (Inr x, s') \<Longrightarrow> Q x"
  by (auto simp: returns_def)

lemma returns_return: "Q x \<Longrightarrow> returns (returnIO x) Q"
  by (simp add: returns_def io_simps)

lemma returns_throw: "returns (throwIO e) Q"
  by (simp add: returns_def io_simps)

lemma returns_bind: "returns m Q \<Longrightarrow> (\<And>x. Q x \<Longrightarrow> returns (f x) Q') \<Longrightarrow> returns (bindIO m f) Q'"
  unfolding returns_def bindIO_Inr_iff by blast

lemma returns_bind_any: "(\<And>x. returns (f x) Q') \<Longrightarrow> returns (bindIO m f) Q'"
  unfolding returns_def bindIO_Inr_iff by blast

lemma returns_catch: "returns m Q \<Longrightarrow> (\<And>e. returns (h e) Q) \<Longrightarrow> returns (catchIO m h) Q"
  by (auto simp: returns_def catchIO_def split: prod.splits sum.splits if_splits)

lemma changeOwner_tree: "tree_eq t0 t \<Longrightarrow> returns (changeOwner p u g t) (tree_eq t0)"
  unfolding changeOwner_def
  by (auto intro!: returns_catch returns_bind_any returns_return simp: tree_eq_def)

lemma recursiveFilesystemCopy_tree:
  "returns (recursiveFilesystemCopy srcTop topDir n d t) (tree_eq t)"
  "returns (copyContent srcTop topDir ns e t) (tree_eq t)"
proof (induction srcTop topDir n d t and srcTop topDir ns e t
    rule: recursiveFilesystemCopy_copyContent.induct)
  case (1 srcTop topDir a se sc dst t)
  then have copied: "ty (elem dst) = FT_directory \<Longrightarrow>
      returns (bindIO (copyContent srcTop topDir sc (elem dst) t) (\<lambda>t.
        bindIO (set_permissions p x) (\<lambda>_. returnIO t))) (tree_eq t)" for p x
    by (intro returns_bind [where Q = "tree_eq t"] returns_bind_any returns_return) auto
  show ?case
    unfolding recursiveFilesystemCopy.simps Let_def
  proof (rule returns_bind [where Q = "tree_eq t"], goal_cases)
    case 1
    show ?case
    proof (cases "ty (elem dst) = FT_directory")
      case True
      then show ?thesis by (simp, intro returns_bind_any) (simp add: returns_throw copied)
    next
      case False
      then show ?thesis
        by (cases "ty (elem dst)") (auto intro!: returns_bind_any returns_return returns_throw)
    qed
  next
    case (2 t1)
    show ?case
      by (rule returns_bind [OF changeOwner_tree [OF 2]]) (intro returns_bind_any returns_return)
  qed
next
  case (2 srcTop topDir e t)
  then show ?case by (simp add: returns_return)
next
  case (3 srcTop topDir n ns e t)
  show ?case
    unfolding copyContent.simps Let_def
    by (rule returns_bind_any, rule returns_bind [OF 3(1)], simp,
        rule returns_def [THEN iffD2]) (metis 3(2) returnsD tree_eq_trans)
qed

section \<open>Operations on a tree and its directory\<close>

lemma copyFromTreeAndFilesystem_tree:
  assumes "copyFromTreeAndFilesystem t s p q w = (Inr t', w')"
  obtains t0 where "copyFromTree t s p q = Inr t0" and "tree_eq t0 t'"
proof -
  obtain t0 src dst st td w1 where c: "treeCopy t s p q = Inr (t0, src, dst)"
    "recursiveFilesystemCopy st td src dst t0 w = (Inr t', w1)"
    using assms unfolding copyFromTreeAndFilesystem_def
    by (auto simp: bindIO_Inr_iff io_simps split: prod.splits)
  have "tree_eq t0 t'" by (rule returnsD [OF recursiveFilesystemCopy_tree(1) c(2)])
  with c(1) show ?thesis using that by (simp add: copyFromTree_def)
qed

lemma removeFromTreeAndFilesystem_tree:
  assumes "removeFromTreeAndFilesystem t p w = (Inr (t', cnt), w')"
  shows "removeFromTree t p = Inr t'"
  using assms unfolding removeFromTreeAndFilesystem_def
  by (auto simp: bindIO_Inr_iff io_simps)

lemma modifyPermissionsInTreeAndFilesystem_tree:
  assumes "modifyPermissionsInTreeAndFilesystem t p x w = (Inr t', w')"
  shows "modifyPermissionsInTree t p x = Inr t'"
  using assms unfolding modifyPermissionsInTreeAndFilesystem_def
  by (auto simp: bindIO_Inr_iff io_simps)

lemma modifyOwnerInTreeAndFilesystem_tree:
  assumes "modifyOwnerInTreeAndFilesystem t p u g w = (Inr t', w')"
  obtains t0 where "modifyOwnerInTree t p u g = Inr t0" and "tree_eq t0 t'"
proof -
  obtain t0 td w1 where c: "modifyOwnerInTree t p u g = Inr t0"
    "changeOwner (path_append td p) u g t0 w = (Inr t', w1)"
    using assms unfolding modifyOwnerInTreeAndFilesystem_def by (auto simp: bindIO_Inr_iff io_simps)
  show ?thesis by (rule that [OF c(1) returnsD [OF changeOwner_tree [OF tree_eq_refl] c(2)]])
qed

lemma modifyMtimeInTreeAndFilesystem_tree:
  assumes "modifyMtimeInTreeAndFilesystem t p x w = (Inr t', w')"
  shows "modifyMtimeInTree t p x = Inr t'"
  using assms unfolding modifyMtimeInTreeAndFilesystem_def
  by (auto simp: bindIO_Inr_iff io_simps)


section \<open>A backup as a change of a map\<close>

text \<open>
  What is decided for a path at which source and backup differ, and what the decision does.
\<close>

datatype decision = Replace | Adjust | Keep

definition adjust :: "FilesystemElement \<Rightarrow> FilesystemElement \<Rightarrow> FilesystemElement" where
  "adjust e0 e1 = e1\<lparr>per := per e0, us := us e0, gs := gs e0, mt := mt e0\<rparr>"

definition applied :: "decision \<Rightarrow> entries \<Rightarrow> path \<Rightarrow> entries \<Rightarrow> entries" where
  "applied dec S x E = (case dec of
     Replace \<Rightarrow> (\<lambda>z. if at_or_below x z then S z else E z)
   | Adjust \<Rightarrow> E(x := (case (S x, E x) of (Some e0, Some e1) \<Rightarrow> Some (adjust e0 e1) | _ \<Rightarrow> E x))
   | Keep \<Rightarrow> E)"

definition rotten :: "FilesystemElement \<Rightarrow> FilesystemElement \<Rightarrow> bool" where
  "rotten e0 e1 \<longleftrightarrow> \<not> compare e0 e1 (backupOpt e0 e1) \<and> compare e0 e1 metadataOpt"

definition rotten_at :: "entries \<Rightarrow> entries \<Rightarrow> path \<Rightarrow> bool" where
  "rotten_at S D x = (case (S x, D x) of (Some e0, Some e1) \<Rightarrow> rotten e0 e1 | _ \<Rightarrow> False)"

definition newer_at :: "entries \<Rightarrow> entries \<Rightarrow> path \<Rightarrow> bool" where
  "newer_at S D x = (case (S x, D x) of
     (Some e0, Some e1) \<Rightarrow> \<not> compare e0 e1 (backupOpt e0 e1) \<and> \<not> compare e0 e1 metadataOpt \<and> mt e0 < mt e1
   | _ \<Rightarrow> False)"

definition decided :: "entries \<Rightarrow> entries \<Rightarrow> path \<Rightarrow> decision \<Rightarrow> bool" where
  "decided S D x dec = (case (S x, D x) of
     (Some e0, Some e1) \<Rightarrow>
       if compare e0 e1 (backupOpt e0 e1) then dec = Adjust
       else if compare e0 e1 metadataOpt then dec = Keep
       else if mt e0 < mt e1 then dec \<in> {Keep, Replace}
       else dec = Replace
   | _ \<Rightarrow> dec = Replace)"

definition aligned :: "entries \<Rightarrow> entries \<Rightarrow> bool" where
  "aligned A B \<longleftrightarrow> (\<forall>x. \<not> differs compareAll (A x) (B x))"

lemma aligned_refl [simp]: "aligned A A"
  by (simp add: aligned_def differs_def split: option.splits)

lemma not_differs_iff:
  "\<not> differs opt a b \<longleftrightarrow> (a = None \<and> b = None) \<or> (\<exists>x y. a = Some x \<and> b = Some y \<and> compare x y opt)"
  by (cases a; cases b) (simp_all add: differs_def)

lemma alignedD:
  assumes "aligned A B"
  shows "A x = Some a \<Longrightarrow> \<exists>b. B x = Some b \<and> compare a b compareAll" and "A x = None \<longleftrightarrow> B x = None"
proof -
  have "\<not> differs compareAll (A x) (B x)" using assms by (simp add: aligned_def)
  then show "A x = Some a \<Longrightarrow> \<exists>b. B x = Some b \<and> compare a b compareAll" and "A x = None \<longleftrightarrow> B x = None"
    unfolding not_differs_iff by auto
qed

lemma adjust_compare:
  assumes "compare a b compareAll"
  shows "compare (adjust e a) (adjust e b) compareAll"
  using assms by (simp add: compare_iff adjust_def compareAll_def)

lemma applied_aligned:
  assumes "aligned E M"
  shows "aligned (applied dec S x E) (applied dec S x M)"
proof -
  have "\<not> differs compareAll (applied dec S x E z) (applied dec S x M z)" for z
  proof -
    have "\<not> differs compareAll (E z) (M z)" "\<not> differs compareAll (E x) (M x)"
      using assms by (simp_all add: aligned_def)
    then show ?thesis
      using adjust_compare unfolding not_differs_iff applied_def
      by (cases dec; cases "S x"; cases "z = x"; cases "S z") auto
  qed
  then show ?thesis by (simp add: aligned_def)
qed

text \<open>The metadata tree of a backup, if there is one, agrees with the tree of the directory.\<close>

definition backup_inv :: "DirectoryTree \<Rightarrow> DirectoryTree option \<Rightarrow> bool" where
  "backup_inv d meta \<longleftrightarrow> wf_tree d \<and>
     (case meta of None \<Rightarrow> True | Some m \<Rightarrow> wf_tree m \<and> aligned (tree_entries d) (tree_entries m))"

section \<open>One difference\<close>

lemma entries_rp: "wf_tree t \<Longrightarrow> tree_entries t x = Some e \<Longrightarrow> rp e = x"
  by (auto simp: wf_tree_entries)

lemma bDst_Inr:
  "bDst f (d, meta, w) = (Inr u, s') \<longleftrightarrow> (\<exists>d' w'. f d w = (Inr d', w') \<and> s' = (d', meta, w'))"
  by (auto simp: bDst_def split: prod.splits sum.splits)

lemma bMeta_Inr:
  "bMeta f (d, meta, w) = (Inr u, s') \<longleftrightarrow> (case meta of
     None \<Rightarrow> s' = (d, None, w) | Some m \<Rightarrow> \<exists>m'. f m = Inr m' \<and> s' = (d, Some m', w))"
  by (auto simp: bMeta_def split: option.splits sum.splits)

definition wf_opt :: "DirectoryTree option \<Rightarrow> bool" where
  "wf_opt meta = (case meta of None \<Rightarrow> True | Some m \<Rightarrow> wf_tree m)"

text \<open>A change of one entry of both trees by the same function.\<close>

definition updated :: "path \<Rightarrow> (FilesystemElement \<Rightarrow> FilesystemElement) \<Rightarrow> DirectoryTree \<Rightarrow> DirectoryTree \<Rightarrow> bool" where
  "updated x g t t' \<longleftrightarrow> wf_tree t' \<and> topPath t' = topPath t \<and>
     tree_entries t' = (tree_entries t)(x := map_option g (tree_entries t x))"

definition both_updated ::
  "path \<Rightarrow> (FilesystemElement \<Rightarrow> FilesystemElement) \<Rightarrow> backup_state \<Rightarrow> backup_state \<Rightarrow> bool" where
  "both_updated x g s s' = (case (s, s') of ((d, meta, w), (d', meta', w')) \<Rightarrow>
     updated x g d d' \<and> rel_option (updated x g) meta meta')"

lemma updated_trans: "updated x g t u \<Longrightarrow> updated x h u v \<Longrightarrow> updated x (\<lambda>e. h (g e)) t v"
  by (auto simp: updated_def fun_eq_iff option.map_comp comp_def)

lemma both_updated_trans:
  "both_updated x g s u \<Longrightarrow> both_updated x h u v \<Longrightarrow> both_updated x (\<lambda>e. h (g e)) s v"
  by (auto simp: both_updated_def option.rel_sel intro: updated_trans split: prod.splits)

lemma both_updated_id:
  assumes "wf_tree d" and "wf_opt meta"
  shows "both_updated x (\<lambda>e. e) (d, meta, w) (d, meta, w')"
  using assms by (cases meta) (simp_all add: both_updated_def updated_def wf_opt_def option.map_ident)

text \<open>An operation on a tree that changes the entry at \<open>x\<close> by \<open>g\<close>.\<close>

definition changes_entry ::
  "(DirectoryTree \<Rightarrow> DirectoryTree result) \<Rightarrow> path \<Rightarrow> (FilesystemElement \<Rightarrow> FilesystemElement) \<Rightarrow> bool" where
  "changes_entry f x g \<longleftrightarrow> (\<forall>t t'. wf_tree t \<and> f t = Inr t' \<longrightarrow> updated x g t t')"

lemma modify_topPath:
  "bindE (searchNode t p u) (\<lambda>n. Inr (assign t (op n))) = Inr t' \<Longrightarrow> topPath t' = topPath t"
  by (auto simp: bindE_Inr_iff)

lemma changes_entryI:
  assumes "\<And>t e. wf_tree t \<Longrightarrow> tree_entries t x = Some e \<Longrightarrow>
      \<exists>t'. f t = Inr t' \<and> wf_tree t' \<and> tree_entries t' = (tree_entries t)(x \<mapsto> g e)"
    and "\<And>t. f t = bindE (searchNode t x u) (\<lambda>n. Inr (assign t (op n)))"
  shows "changes_entry f x g"
  unfolding changes_entry_def
proof (intro allI impI, elim conjE)
  fix t t' assume t: "wf_tree t" "f t = Inr t'"
  have "tree_entries t x \<noteq> None"
    using t(2) searchNode_missing [OF t(1), of x u] by (cases "tree_entries t x") (simp_all add: assms(2))
  then obtain e where e: "tree_entries t x = Some e" by blast
  show "updated x g t t'"
    using assms(1) [OF t(1) e] t modify_topPath [of t x u op t'] e by (auto simp: assms(2) updated_def)
qed

lemma changes_permissions: "changes_entry (\<lambda>t. modifyPermissionsInTree t x p) x (\<lambda>e. e\<lparr>per := p\<rparr>)"
  by (rule changes_entryI [OF modifyPermissionsInTree_entries]) (auto simp: modifyPermissionsInTree_def)

lemma changes_owner: "changes_entry (\<lambda>t. modifyOwnerInTree t x u g) x (\<lambda>e. e\<lparr>us := u, gs := g\<rparr>)"
  by (rule changes_entryI [OF modifyOwnerInTree_entries]) (auto simp: modifyOwnerInTree_def)

lemma changes_mtime: "changes_entry (\<lambda>t. modifyMtimeInTree t x m) x (\<lambda>e. e\<lparr>mt := m\<rparr>)"
  by (rule changes_entryI [OF modifyMtimeInTree_entries]) (auto simp: modifyMtimeInTree_def)

lemma updated_tree_eq: "updated x g t t0 \<Longrightarrow> tree_eq t0 t' \<Longrightarrow> updated x g t t'"
  by (simp add: updated_def tree_eq_facts)

lemma both_changed:
  assumes wf: "wf_tree d" "wf_opt meta" and f: "changes_entry f x g"
    and F: "\<And>d' w w'. F d w = (Inr d', w') \<Longrightarrow> \<exists>d0. f d = Inr d0 \<and> tree_eq d0 d'"
    and run: "bindIO (bDst F) (\<lambda>_. bMeta f) (d, meta, w) = (Inr u, s')"
  shows "both_updated x g (d, meta, w) s'"
proof -
  obtain d' w' where d: "F d w = (Inr d', w')" and m: "bMeta f (d', meta, w') = (Inr u, s')"
    using run by (auto simp: bindIO_Inr_iff bDst_Inr)
  have "updated x g d d'"
    using F [OF d] f wf(1) updated_tree_eq unfolding changes_entry_def by blast
  then show ?thesis
    using m f wf(2)
    by (auto simp: bMeta_Inr both_updated_def changes_entry_def wf_opt_def split: option.splits)
qed

lemma both_updated_wf:
  assumes "both_updated x g s s'"
  obtains d' meta' w' where "s' = (d', meta', w')" and "wf_tree d'" and "wf_opt meta'"
proof -
  obtain d meta w d' meta' w' where s: "s = (d, meta, w)" "s' = (d', meta', w')"
    by (metis prod_cases3)
  have u: "updated x g d d'" "rel_option (updated x g) meta meta'"
    using assms by (simp_all add: both_updated_def s)
  then have "wf_opt meta'" by (cases meta') (auto simp: option_rel_Some2 updated_def wf_opt_def)
  with u(1) s(2) show ?thesis by (intro that) (auto simp: updated_def)
qed

lemma both_changed_if:
  assumes "wf_tree d" and "wf_opt meta" and "changes_entry f x g"
    and "\<And>d' w w'. F d w = (Inr d', w') \<Longrightarrow> \<exists>d0. f d = Inr d0 \<and> tree_eq d0 d'"
    and "(if c then bindIO (bDst F) (\<lambda>_. bMeta f) else returnIO ()) (d, meta, w) = (Inr u, s')"
  shows "both_updated x (\<lambda>e. if c then g e else e) (d, meta, w) s'"
proof (cases c)
  case True
  then have "bindIO (bDst F) (\<lambda>_. bMeta f) (d, meta, w) = (Inr u, s')" using assms(5) by simp
  from both_changed [OF assms(1-4) this] show ?thesis using True by simp
next
  case False
  then show ?thesis using assms(5) both_updated_id [OF assms(1,2)] by (auto simp: io_simps)
qed

lemma backupProperties_updated:
  assumes wf: "wf_tree d" "wf_opt meta"
    and run: "backupProperties d0 d1 x (d, meta, w) = (Inr u, s')"
  defines "gp \<equiv> \<lambda>e. if per d0 \<noteq> per d1 then e\<lparr>per := per d0\<rparr> else e"
    and "go \<equiv> \<lambda>e. if us d0 \<noteq> us d1 \<or> gs d0 \<noteq> gs d1 then e\<lparr>us := us d0, gs := gs d0\<rparr> else e"
    and "gm \<equiv> \<lambda>e. if mt d0 \<noteq> mt d1 then e\<lparr>mt := mt d0\<rparr> else e"
  shows "both_updated x (\<lambda>e. gm (go (gp e))) (d, meta, w) s'"
proof -
  obtain s1 s2 where r:
    "(if per d0 \<noteq> per d1 then bindIO (bDst (\<lambda>t. modifyPermissionsInTreeAndFilesystem t x (per d0))) (\<lambda>_.
         bMeta (\<lambda>t. modifyPermissionsInTree t x (per d0))) else returnIO ()) (d, meta, w) = (Inr (), s1)"
    "(if us d0 \<noteq> us d1 \<or> gs d0 \<noteq> gs d1 then
         bindIO (bDst (\<lambda>t. modifyOwnerInTreeAndFilesystem t x (us d0) (gs d0))) (\<lambda>_.
         bMeta (\<lambda>t. modifyOwnerInTree t x (us d0) (gs d0))) else returnIO ()) s1 = (Inr (), s2)"
    "(if mt d0 \<noteq> mt d1 then bindIO (bDst (\<lambda>t. modifyMtimeInTreeAndFilesystem t x (mt d0))) (\<lambda>_.
         bMeta (\<lambda>t. modifyMtimeInTree t x (mt d0))) else returnIO ()) s2 = (Inr u, s')"
    using run unfolding backupProperties_def by (auto simp only: bindIO_Inr_iff)
  have p: "both_updated x gp (d, meta, w) s1"
    unfolding gp_def
    by (rule both_changed_if [OF wf changes_permissions _ r(1)])
      (metis modifyPermissionsInTreeAndFilesystem_tree tree_eq_refl)
  obtain da ma wa where s1: "s1 = (da, ma, wa)" "wf_tree da" "wf_opt ma"
    using p by (rule both_updated_wf)
  have o: "both_updated x go s1 s2"
    unfolding go_def s1(1)
    by (rule both_changed_if [OF s1(2,3) changes_owner _ r(2) [unfolded s1(1)]])
      (metis modifyOwnerInTreeAndFilesystem_tree)
  obtain db mb wb where s2: "s2 = (db, mb, wb)" "wf_tree db" "wf_opt mb"
    using o by (rule both_updated_wf)
  have "both_updated x gm s2 s'"
    unfolding gm_def s2(1)
    by (rule both_changed_if [OF s2(2,3) changes_mtime _ r(3) [unfolded s2(1)]])
      (metis modifyMtimeInTreeAndFilesystem_tree tree_eq_refl)
  from both_updated_trans [OF both_updated_trans [OF p o] this] show ?thesis .
qed

lemma backup_inv_iff:
  "backup_inv d meta \<longleftrightarrow> wf_tree d \<and> wf_opt meta \<and>
     (\<forall>m. meta = Some m \<longrightarrow> aligned (tree_entries d) (tree_entries m))"
  by (auto simp: backup_inv_def wf_opt_def split: option.splits)

text \<open>The effect of one difference on the trees of a backup.\<close>

definition backup_step :: "decision \<Rightarrow> entries \<Rightarrow> path \<Rightarrow> backup_state \<Rightarrow> backup_state \<Rightarrow> bool" where
  "backup_step dec S x s s' = (case (s, s') of ((d, meta, w), (d', meta', w')) \<Rightarrow>
     wf_tree d' \<and> wf_opt meta' \<and> topPath d' = topPath d \<and>
     tree_entries d' = applied dec S x (tree_entries d) \<and>
     rel_option (\<lambda>m m'. tree_entries m' = applied dec S x (tree_entries m)) meta meta')"

lemma backup_step_inv:
  assumes "backup_step dec S x (d, meta, w) (d', meta', w')" and "backup_inv d meta"
  shows "backup_inv d' meta'"
  using assms applied_aligned
  by (cases meta; cases meta') (auto simp: backup_step_def backup_inv_iff)

lemma step_properties:
  assumes inv: "backup_inv d meta" and S: "S x = Some d0" and D: "tree_entries d x = Some d1"
    and run: "backupProperties d0 d1 x (d, meta, w) = (Inr u, s')"
  shows "backup_step Adjust S x (d, meta, w) s'"
proof -
  have wf: "wf_tree d" "wf_opt meta" using inv by (auto simp: backup_inv_iff)
  let ?g = "\<lambda>e. let e = (if per d0 \<noteq> per d1 then e\<lparr>per := per d0\<rparr> else e);
      e = (if us d0 \<noteq> us d1 \<or> gs d0 \<noteq> gs d1 then e\<lparr>us := us d0, gs := gs d0\<rparr> else e) in
      if mt d0 \<noteq> mt d1 then e\<lparr>mt := mt d0\<rparr> else e"
  have u: "both_updated x ?g (d, meta, w) s'"
    using backupProperties_updated [OF wf run] unfolding Let_def .
  have g: "?g e = adjust d0 e" if "compare d1 e compareAll" for e
    using that by (simp add: compare_iff compareAll_def adjust_def)
  have e: "(tree_entries t)(x := map_option ?g (tree_entries t x)) = applied Adjust S x (tree_entries t)"
    if "aligned (tree_entries d) (tree_entries t)" for t
    using alignedD(1) [OF that D] g by (auto simp: applied_def S)
  obtain d' meta' w' where s': "s' = (d', meta', w')" "wf_tree d'" "wf_opt meta'"
    using u by (rule both_updated_wf)
  have "rel_option (\<lambda>m m'. tree_entries m' = applied Adjust S x (tree_entries m)) meta meta'"
    using u inv e unfolding s'(1) both_updated_def backup_inv_iff
    by (cases meta; cases meta') (simp_all add: updated_def)
  then show ?thesis
    using u e [of d] s'(2,3) unfolding s'(1) both_updated_def backup_step_def by (simp add: updated_def)
qed

definition cut :: "path \<Rightarrow> entries \<Rightarrow> entries" where
  "cut x E = (\<lambda>z. if at_or_below x z then None else E z)"

lemma applied_cut: "applied Replace S x (cut x E) = applied Replace S x E"
  by (auto simp: applied_def cut_def)

lemma bRemove_entries:
  assumes "wf_tree d" and "tree_entries d x = Some e" and "bRemove x (d, meta, w) = (Inr u, s')"
  obtains d' w' where "s' = (d', meta, w')" and "wf_tree d'" and "topPath d' = topPath d"
    and "tree_entries d' = cut x (tree_entries d)"
proof -
  obtain d' cnt w' w1 where "s' = (d', meta, w')" "removeFromTreeAndFilesystem d x w = (Inr (d', cnt), w1)"
    using assms(3) unfolding bRemove_def by (auto simp: bDst_Inr bindIO_Inr_iff io_simps split: prod.splits)
  then have r: "s' = (d', meta, w')" "removeFromTree d x = Inr d'"
    using removeFromTreeAndFilesystem_tree by simp_all
  have "wf_tree d'" "topPath d' = topPath d" "tree_entries d' = cut x (tree_entries d)"
    using removeFromTree_entries [OF assms(1,2)] r(2) by (simp_all add: cut_def)
  with r(1) show ?thesis by (rule that)
qed

lemma bCopy_entries:
  assumes "wf_tree d" and "wf_tree src" and "tree_entries src x = Some e" and "tree_entries d x = None"
    and "has_dir (tree_entries d) (parent_path x)" and "bCopy src x (d, meta, w) = (Inr u, s')"
  obtains d' w' where "s' = (d', meta, w')" and "wf_tree d'" and "topPath d' = topPath d"
    and "tree_entries d' = applied Replace (tree_entries src) x (tree_entries d)"
proof -
  obtain d' w' where s': "s' = (d', meta, w')" and c: "copyFromTreeAndFilesystem d src x (parent_path x) w = (Inr d', w')"
    using assms(6) unfolding bCopy_def by (auto simp: bDst_Inr)
  obtain d0 where d0: "copyFromTree d src x (parent_path x) = Inr d0" "tree_eq d0 d'"
    using c by (rule copyFromTreeAndFilesystem_tree)
  have "parent_path x = [] \<or> (\<exists>k. tree_entries d (parent_path x) = Some k \<and> isDirectory k)"
    using assms(5) by (auto simp: has_dir_def dir_at_def split: option.splits)
  from copyFromTree_entries [OF assms(1-4) this] d0 tree_eq_facts [OF d0(2)] s' show ?thesis
    by (auto intro: that simp: applied_def)
qed

lemma meta_removed:
  assumes "wf_opt meta" and "bMeta (\<lambda>t. removeFromTree t x) (d, meta, w) = (Inr u, s')"
  obtains meta' where "s' = (d, meta', w)" and "wf_opt meta'"
    and "rel_option (\<lambda>m m'. tree_entries m' = cut x (tree_entries m)) meta meta'"
proof (cases meta)
  case None
  then show ?thesis using assms that by (simp add: bMeta_Inr wf_opt_def)
next
  case (Some m)
  obtain m' where m': "removeFromTree m x = Inr m'" "s' = (d, Some m', w)"
    using assms(2) Some by (auto simp: bMeta_Inr)
  have wf: "wf_tree m" using assms(1) Some by (simp add: wf_opt_def)
  obtain e where e: "tree_entries m x = Some e"
    using removeFromTree_missing [OF wf, of x] m'(1) by (cases "tree_entries m x") simp_all
  from removeFromTree_entries [OF wf e] m' Some show ?thesis
    by (intro that) (auto simp: wf_opt_def cut_def)
qed

lemma meta_copied:
  assumes "wf_opt meta" and "wf_tree src" and "tree_entries src x = Some e"
    and "\<And>m. meta = Some m \<Longrightarrow> tree_entries m x = None \<and> has_dir (tree_entries m) (parent_path x)"
    and "bMeta (\<lambda>t. copyFromTree t src x (parent_path x)) (d, meta, w) = (Inr u, s')"
  obtains meta' where "s' = (d, meta', w)" and "wf_opt meta'"
    and "rel_option (\<lambda>m m'. tree_entries m' = applied Replace (tree_entries src) x (tree_entries m)) meta meta'"
proof (cases meta)
  case None
  then show ?thesis using assms that by (simp add: bMeta_Inr wf_opt_def)
next
  case (Some m)
  obtain m' where m': "copyFromTree m src x (parent_path x) = Inr m'" "s' = (d, Some m', w)"
    using assms(5) Some by (auto simp: bMeta_Inr)
  have "wf_tree m" using assms(1) Some by (simp add: wf_opt_def)
  moreover have "parent_path x = [] \<or> (\<exists>k. tree_entries m (parent_path x) = Some k \<and> isDirectory k)"
    using assms(4) [OF Some] by (auto simp: has_dir_def dir_at_def split: option.splits)
  ultimately show ?thesis
    using copyFromTree_entries [of m src x e] assms(2,3) assms(4) [OF Some] m' Some
    by (intro that) (auto simp: wf_opt_def applied_def)
qed

lemma has_dir_aligned: "aligned A B \<Longrightarrow> has_dir A p \<longleftrightarrow> has_dir B p"
proof -
  assume "aligned A B"
  then have "\<not> differs compareAll (A p) (B p)" by (simp add: aligned_def)
  then show ?thesis by (auto simp: has_dir_def dir_at_def not_differs_iff compare_iff isDirectory_def)
qed

lemma has_dir_cut:
  assumes "\<not> at_or_below x p"
  shows "has_dir (cut x E) p \<longleftrightarrow> has_dir E p"
  using assms by (simp add: has_dir_def dir_at_def cut_def)

lemma parent_outside:
  assumes "wf_tree t" and "tree_entries t x \<noteq> None"
  shows "\<not> at_or_below x (parent_path x)"
  using present_parent(3) [OF assms] below_length by (fastforce simp: at_or_below_def)

lemma step_remove:
  assumes inv: "backup_inv d meta" and src: "wf_tree src" and S: "tree_entries src x = None"
    and D: "tree_entries d x = Some d1"
    and run: "bindIO (bRemove x) (\<lambda>_. bMeta (\<lambda>t. removeFromTree t x)) (d, meta, w) = (Inr u, s')"
  shows "backup_step Replace (tree_entries src) x (d, meta, w) s'"
proof -
  have wf: "wf_tree d" "wf_opt meta" using inv by (auto simp: backup_inv_iff)
  have x: "x \<noteq> []" using D entries_Nil [OF wf(1)] by auto
  have cut: "cut x E = applied Replace (tree_entries src) x E" for E
    using absent_below [OF src S x] by (auto simp: cut_def applied_def fun_eq_iff)
  obtain s1 where r: "bRemove x (d, meta, w) = (Inr (), s1)" "bMeta (\<lambda>t. removeFromTree t x) s1 = (Inr u, s')"
    using run by (auto simp: bindIO_Inr_iff)
  obtain d' w' where d: "s1 = (d', meta, w')" "wf_tree d'" "topPath d' = topPath d"
      "tree_entries d' = cut x (tree_entries d)"
    by (rule bRemove_entries [OF wf(1) D r(1)])
  obtain meta' where "s' = (d', meta', w')" "wf_opt meta'"
      "rel_option (\<lambda>m m'. tree_entries m' = cut x (tree_entries m)) meta meta'"
    using meta_removed [OF wf(2) r(2) [unfolded d(1)]] by blast
  with d show ?thesis by (simp add: backup_step_def cut)
qed

lemma step_copy:
  assumes inv: "backup_inv d meta" and src: "wf_tree src" and S: "tree_entries src x = Some d0"
    and D: "tree_entries d x = None" and dir: "has_dir (tree_entries d) (parent_path x)"
    and run: "bindIO (bCopy src x) (\<lambda>_. bMeta (\<lambda>t. copyFromTree t src x (parent_path x))) (d, meta, w) = (Inr u, s')"
  shows "backup_step Replace (tree_entries src) x (d, meta, w) s'"
proof -
  have wf: "wf_tree d" "wf_opt meta" using inv by (auto simp: backup_inv_iff)
  obtain s1 where r: "bCopy src x (d, meta, w) = (Inr (), s1)"
      "bMeta (\<lambda>t. copyFromTree t src x (parent_path x)) s1 = (Inr u, s')"
    using run by (auto simp: bindIO_Inr_iff)
  obtain d' w' where d: "s1 = (d', meta, w')" "wf_tree d'" "topPath d' = topPath d"
      "tree_entries d' = applied Replace (tree_entries src) x (tree_entries d)"
    by (rule bCopy_entries [OF wf(1) src S D dir r(1)])
  have "tree_entries m x = None \<and> has_dir (tree_entries m) (parent_path x)" if "meta = Some m" for m
  proof -
    have "aligned (tree_entries d) (tree_entries m)" using inv that by (simp add: backup_inv_iff)
    then show ?thesis using D dir alignedD(2) has_dir_aligned by blast
  qed
  from meta_copied [OF wf(2) src S this r(2) [unfolded d(1)]]
  obtain meta' where "s' = (d', meta', w')" "wf_opt meta'"
    "rel_option (\<lambda>m m'. tree_entries m' = applied Replace (tree_entries src) x (tree_entries m)) meta meta'"
    by blast
  with d show ?thesis by (simp add: backup_step_def)
qed

lemma step_replace:
  assumes inv: "backup_inv d meta" and src: "wf_tree src" and S: "tree_entries src x = Some d0"
    and D: "tree_entries d x = Some d1" and dir: "has_dir (tree_entries d) (parent_path x)"
    and run: "backupReplace src x (d, meta, w) = (Inr u, s')"
  shows "backup_step Replace (tree_entries src) x (d, meta, w) s'"
proof -
  let ?S = "tree_entries src"
  have wf: "wf_tree d" "wf_opt meta" using inv by (auto simp: backup_inv_iff)
  have out: "\<not> at_or_below x (parent_path x)" using parent_outside [OF wf(1)] D by blast
  obtain s1 s2 s3 where r: "bRemove x (d, meta, w) = (Inr (), s1)" "bCopy src x s1 = (Inr (), s2)"
      "bMeta (\<lambda>t. removeFromTree t x) s2 = (Inr (), s3)"
      "bMeta (\<lambda>t. copyFromTree t src x (parent_path x)) s3 = (Inr u, s')"
    using run unfolding backupReplace_def by (auto simp: bindIO_Inr_iff)
  obtain da wa where da: "s1 = (da, meta, wa)" "wf_tree da" "topPath da = topPath d"
      "tree_entries da = cut x (tree_entries d)"
    by (rule bRemove_entries [OF wf(1) D r(1)])
  have "tree_entries da x = None" "has_dir (tree_entries da) (parent_path x)"
    using dir out unfolding da(4) by (simp_all add: has_dir_cut, simp add: cut_def)
  from bCopy_entries [OF da(2) src S this r(2) [unfolded da(1)]]
  obtain d' w' where d: "s2 = (d', meta, w')" "wf_tree d'" "topPath d' = topPath d"
      "tree_entries d' = applied Replace ?S x (tree_entries d)"
    unfolding da(3,4) applied_cut by blast
  obtain ma where ma: "s3 = (d', ma, w')" "wf_opt ma"
      "rel_option (\<lambda>m m'. tree_entries m' = cut x (tree_entries m)) meta ma"
    using meta_removed [OF wf(2) r(3) [unfolded d(1)]] by blast
  have "tree_entries m' x = None \<and> has_dir (tree_entries m') (parent_path x)" if m': "ma = Some m'" for m'
  proof -
    obtain m where m: "meta = Some m" "tree_entries m' = cut x (tree_entries m)"
      using ma(3) m' by (auto simp: option_rel_Some2)
    have "aligned (tree_entries d) (tree_entries m)" using inv m(1) by (simp add: backup_inv_iff)
    then show ?thesis using dir out has_dir_aligned unfolding m(2)
      by (simp add: has_dir_cut) (simp add: cut_def)
  qed
  from meta_copied [OF ma(2) src S this r(4) [unfolded ma(1)]]
  obtain meta' where m': "s' = (d', meta', w')" "wf_opt meta'"
    "rel_option (\<lambda>m m'. tree_entries m' = applied Replace ?S x (tree_entries m)) ma meta'" by blast
  have "rel_option (\<lambda>m m'. tree_entries m' = applied Replace ?S x (tree_entries m)) meta meta'"
    using ma(3) m'(3) by (cases meta; cases ma; cases meta') (simp_all add: applied_cut)
  with d m'(1,2) show ?thesis by (simp add: backup_step_def)
qed

end
