(* ===== verification/Ddm_Backup_Exact.thy ===== *)
theory Ddm_Backup_Exact
  imports Ddm_Backup_Tree
begin

text \<open>
  The loop over the differences of a backup, and the content of the trees in the end.
\<close>

section \<open>The loop over the differences\<close>

lemma rotten_at_simps:
  "S x = Some e0 \<Longrightarrow> D x = Some e1 \<Longrightarrow> rotten_at S D x = rotten e0 e1"
  "S x = None \<Longrightarrow> \<not> rotten_at S D x" "D x = None \<Longrightarrow> \<not> rotten_at S D x"
  by (auto simp: rotten_at_def split: option.splits)

lemma backup_step_Keep:
  assumes "backup_inv d meta"
  shows "backup_step Keep S x (d, meta, w) (d, meta, w')"
  using assms by (cases meta) (auto simp: backup_step_def backup_inv_iff applied_def)

lemma bAsk_state: "bAsk (d, meta, w) = (r, s') \<Longrightarrow> \<exists>w'. s' = (d, meta, w')"
  by (auto simp: bAsk_def split: prod.splits)

lemma backupEntry_step:
  assumes inv: "backup_inv d meta" and src: "wf_tree src" and dir: "has_dir (tree_entries d) (parent_path x)"
    and diff: "differs compareAll (tree_entries src x) (tree_entries d x)"
    and run: "backupEntry src (tree_entries src x, tree_entries d x) b (d, meta, w) = (Inr b', s')"
  shows "\<exists>dec. decided (tree_entries src) (tree_entries d) x dec \<and>
      backup_step dec (tree_entries src) x (d, meta, w) s' \<and>
      b' = (b \<or> rotten_at (tree_entries src) (tree_entries d) x)"
proof -
  let ?S = "tree_entries src" and ?D = "tree_entries d"
  have wf: "wf_tree d" using inv by (simp add: backup_inv_iff)
  show ?thesis
  proof (cases "?S x")
    case None
    then obtain d1 where D: "?D x = Some d1" using diff by (auto simp: differs_def split: option.splits)
    have "bindIO (bRemove x) (\<lambda>_. bMeta (\<lambda>t. removeFromTree t x)) (d, meta, w) = (Inr (), s')" "b' = b"
      using run entries_rp [OF wf D] unfolding backupEntry_def None D
      by (auto simp: bindIO_Inr_iff io_simps)
    from step_remove [OF inv src None D this(1)] this(2) show ?thesis
      using None by (auto simp: decided_def rotten_at_simps)
  next
    case S: (Some d0)
    note rp = entries_rp [OF src S]
    show ?thesis
    proof (cases "?D x")
      case None
      have "bindIO (bCopy src x) (\<lambda>_. bMeta (\<lambda>t. copyFromTree t src x (parent_path x))) (d, meta, w) = (Inr (), s')"
        "b' = b"
        using run rp unfolding backupEntry_def None S by (auto simp: bindIO_Inr_iff io_simps)
      from step_copy [OF inv src S None dir this(1)] this(2) show ?thesis
        using None S by (auto simp: decided_def rotten_at_simps)
    next
      case D: (Some d1)
      show ?thesis
      proof (cases "compare d0 d1 (backupOpt d0 d1)")
        case True
        then have "backupProperties d0 d1 x (d, meta, w) = (Inr (), s')" "b' = b"
          using run rp unfolding backupEntry_def S D by (auto simp: bindIO_Inr_iff io_simps)
        from step_properties [of d meta ?S, OF inv S D this(1)] this(2) True show ?thesis
          using S D by (auto simp: decided_def rotten_at_simps rotten_def)
      next
        case F: False
        show ?thesis
        proof (cases "compare d0 d1 metadataOpt")
          case True
          then have "s' = (d, meta, w)" "b'"
            using run F unfolding backupEntry_def S D by (auto simp: io_simps)
          then show ?thesis
            using True F S D backup_step_Keep [OF inv] by (auto simp: decided_def rotten_at_simps rotten_def)
        next
          case G: False
          obtain yes s1 where ask: "(if mt d0 < mt d1 then bAsk else returnIO True) (d, meta, w) = (Inr yes, s1)"
            and rest: "(if yes then bindIO (backupReplace src x) (\<lambda>_. returnIO b) else returnIO b) s1 = (Inr b', s')"
            using run rp F G unfolding backupEntry_def S D by (auto simp: bindIO_Inr_iff)
          obtain w1 where s1: "s1 = (d, meta, w1)" "yes \<or> mt d0 < mt d1"
            using ask bAsk_state [of d meta w "Inr yes" s1] by (auto simp: io_simps split: if_splits)
          have "backup_step (if yes then Replace else Keep) ?S x (d, meta, w1) s'" "b' = b"
            using rest step_replace [OF inv src S D dir] backup_step_Keep [OF inv] unfolding s1(1)
            by (auto simp: bindIO_Inr_iff io_simps split: if_splits)
          then show ?thesis
            using F G S D s1(2)
            by (intro exI [of _ "if yes then Replace else Keep"])
              (auto simp: decided_def rotten_at_simps rotten_def backup_step_def split: prod.splits)
        qed
      qed
    qed
  qed
qed

section \<open>What a difference covers\<close>

text \<open>
  A difference at a path stands for that path, and for everything below it unless both sides have
  a directory there, which the comparison visits.
\<close>

definition covered :: "entries \<Rightarrow> entries \<Rightarrow> path \<Rightarrow> path \<Rightarrow> bool" where
  "covered S D x z \<longleftrightarrow> z = x \<or> \<not> (dir_at S x \<and> dir_at D x) \<and> below x z"

definition entries_ok :: "entries \<Rightarrow> bool" where
  "entries_ok E \<longleftrightarrow> (\<forall>x e. E x = Some e \<longrightarrow> elem_ok e)"

lemma at_or_below_prefix: "x \<noteq> [] \<Longrightarrow> at_or_below x z \<longleftrightarrow> prefix (x @ [sep]) (z @ [sep])"
  by (auto simp: at_or_below_def below_def)

lemma at_or_below_comparable:
  assumes "at_or_below x z" and "at_or_below y z" and "x \<noteq> []" and "y \<noteq> []"
  shows "at_or_below x y \<or> at_or_below y x"
  using prefix_same_cases [of "x @ [sep]" "z @ [sep]" "y @ [sep]"] assms(1,2)
  unfolding at_or_below_prefix [OF assms(3)] at_or_below_prefix [OF assms(4)] by blast

lemma reported_above:
  assumes "wf_tree a" and "wf_tree b" and "reported2 opt (tree_entries a) (tree_entries b) y"
    and "below x y" and "x \<noteq> []"
  shows "dir_at (tree_entries a) x \<and> dir_at (tree_entries b) x"
proof -
  have r: "has_dir (tree_entries a) (parent_path y)" "has_dir (tree_entries b) (parent_path y)"
    "tree_entries a y \<noteq> None \<or> tree_entries b y \<noteq> None"
    using assms(3) differs_present by (auto simp: reported2_def)
  have "at_or_below x (parent_path y)"
    using r(3) present_parent(2) [OF assms(1) _ assms(4)] present_parent(2) [OF assms(2) _ assms(4)] by blast
  then show ?thesis using has_dir_above assms(1,2,5) r(1,2) by blast
qed

lemma reported_child:
  assumes "wf_tree a" and "wf_tree b" and "reported2 opt (tree_entries a) (tree_entries b) y"
  shows "y \<noteq> []" and "below (parent_path y) y"
proof -
  have "tree_entries a y \<noteq> None \<or> tree_entries b y \<noteq> None"
    using assms(3) differs_present by (auto simp: reported2_def)
  then obtain nm where nm: "valid_name nm" "dir_path (parent_path y)" "y = child (parent_path y) nm"
    using present_child assms(1,2) by blast
  from below_child [OF nm(2,1)] nm(3) show "below (parent_path y) y" by simp
  then show "y \<noteq> []" by (rule below_not_Nil)
qed

lemma covers_disjoint:
  assumes "wf_tree a" and "wf_tree b"
  defines "S \<equiv> tree_entries a" and "D \<equiv> tree_entries b"
  assumes x: "reported2 opt S D x" "covered S D x z" and y: "reported2 opt S D y" "covered S D y z"
  shows "x = y"
proof -
  have ne: "u \<noteq> []" if "reported2 opt S D u" for u
    using that reported_child(1) [OF assms(1,2)] by (simp add: S_def D_def)
  have no: "\<not> below u v" if "reported2 opt S D u" "reported2 opt S D v" "covered S D u z" "covered S D v z" for u v
  proof
    assume uv: "below u v"
    then have "dir_at S u \<and> dir_at D u"
      using reported_above [OF assms(1,2) that(2) [unfolded S_def D_def]] ne that(1) by (auto simp: S_def D_def)
    then have "z = u" using that(3) by (auto simp: covered_def)
    moreover have "at_or_below v z" using that(4) by (auto simp: covered_def at_or_below_def)
    ultimately show False using uv below_asym by (auto simp: at_or_below_def)
  qed
  have "at_or_below x z" "at_or_below y z" using x y by (auto simp: covered_def at_or_below_def)
  then have "at_or_below x y \<or> at_or_below y x"
    using at_or_below_comparable ne x(1) y(1) by blast
  then show ?thesis using no x y by (auto simp: at_or_below_def)
qed

lemma cover_complete:
  assumes "wf_tree a" and "wf_tree b"
  defines "S \<equiv> tree_entries a" and "D \<equiv> tree_entries b"
  assumes "differs opt (S z) (D z)"
  shows "\<exists>x. reported2 opt S D x \<and> covered S D x z"
  using assms(5)
proof (induction "length z" arbitrary: z rule: less_induct)
  case less
  show ?case
  proof (cases "reported2 opt S D z")
    case True
    then show ?thesis by (auto simp: covered_def)
  next
    case False
    have z: "S z \<noteq> None \<or> D z \<noteq> None" using less.prems differs_present by blast
    let ?p = "parent_path z"
    have hd: "S z \<noteq> None \<Longrightarrow> has_dir S ?p" "D z \<noteq> None \<Longrightarrow> has_dir D ?p"
      using present_parent(1) assms(1,2) by (simp_all add: S_def D_def)
    have len: "length ?p < length z" and bl: "below ?p z"
      using z present_parent(3) assms(1,2) present_child [OF assms(1)] present_child [OF assms(2)] below_child
      by (metis S_def D_def)+
    have one: "\<not> (dir_at S ?p \<and> dir_at D ?p)" "?p \<noteq> []" "dir_at S ?p \<or> dir_at D ?p"
      using False less.prems z hd by (auto simp: reported2_def has_dir_def)
    then have "differs opt (S ?p) (D ?p)"
      by (auto simp: dir_at_def differs_def compare_iff isDirectory_def split: option.splits)
    from less.hyps [OF len this] obtain x where x: "reported2 opt S D x" "covered S D x ?p" by blast
    then have "covered S D x z" using one(1) bl below_trans by (auto simp: covered_def)
    with x(1) show ?thesis by blast
  qed
qed

text \<open>Two directories differ only in properties that a backup adjusts.\<close>

lemma directories_adjusted:
  assumes "entries_ok S" and "entries_ok D" and "dir_at S x" and "dir_at D x" and "rp (the (S x)) = rp (the (D x))"
  shows "\<not> rotten_at S D x" and "\<not> newer_at S D x" and "decided S D x dec \<Longrightarrow> dec = Adjust"
proof -
  obtain e0 e1 where e: "S x = Some e0" "D x = Some e1" "ty e0 = FT_directory" "ty e1 = FT_directory"
    using assms(3,4) by (auto simp: dir_at_def isDirectory_def split: option.splits)
  have "elem_ok e0" "elem_ok e1" using assms(1,2) e by (auto simp: entries_ok_def)
  then have "compare e0 e1 (backupOpt e0 e1)"
    using e assms(5) by (simp add: compare_iff backupOpt_def elem_ok_def Let_def)
  then show "\<not> rotten_at S D x" and "\<not> newer_at S D x" and "decided S D x dec \<Longrightarrow> dec = Adjust"
    using e by (auto simp: rotten_at_def newer_at_def decided_def rotten_def)
qed

section \<open>The state after some of the differences\<close>

text \<open>What an entry may be once the difference at \<open>x\<close>, which covers it, has been handled.\<close>

definition settled :: "entries \<Rightarrow> entries \<Rightarrow> path \<Rightarrow> path \<Rightarrow> FilesystemElement option \<Rightarrow> bool" where
  "settled S D x z e \<longleftrightarrow>
     (if rotten_at S D x then e = D z
      else if newer_at S D x then e = D z \<or> \<not> differs compareAll (S z) e
      else \<not> differs compareAll (S z) e)"

definition handled :: "entries \<Rightarrow> entries \<Rightarrow> path set \<Rightarrow> entries \<Rightarrow> bool" where
  "handled S D X E \<longleftrightarrow>
     (\<forall>z. (\<forall>x \<in> X. \<not> covered S D x z) \<longrightarrow> E z = D z) \<and>
     (\<forall>x \<in> X. \<forall>z. covered S D x z \<longrightarrow> settled S D x z (E z))"

lemma not_differs_refl [simp]: "\<not> differs opt a a"
  by (cases a) (simp_all add: differs_def)

lemma adjust_agrees: "compare e0 e1 (backupOpt e0 e1) \<Longrightarrow> compare e0 (adjust e0 e1) compareAll"
  by (auto simp: compare_iff backupOpt_def compareAll_def adjust_def Let_def split: if_splits)

lemma below_file:
  assumes "wf_tree t" and "tree_entries t x = Some e" and "\<not> isDirectory e" and "below x z"
  shows "tree_entries t z = None"
proof (rule ccontr)
  assume z: "tree_entries t z \<noteq> None"
  have "x \<noteq> []" using assms(1,2) entries_Nil by fastforce
  then have "dir_at (tree_entries t) x"
    using has_dir_above [OF assms(1) present_parent(1) [OF assms(1) z]] present_parent(2) [OF assms(1) z assms(4)]
    by blast
  then show False using assms(2,3) by (simp add: dir_at_def)
qed

lemma handled_ready:
  assumes wf: "wf_tree a" "wf_tree b"
  defines "S \<equiv> tree_entries a" and "D \<equiv> tree_entries b"
  assumes ok: "entries_ok S" "entries_ok D" and E: "handled S D X E"
    and X: "\<forall>x \<in> X. reported2 compareAll S D x" and y: "reported2 compareAll S D y" "y \<notin> X"
  shows "covered S D y z \<Longrightarrow> E z = D z" and "has_dir E (parent_path y)"
proof -
  have un: "\<forall>x \<in> X. \<not> covered S D x z" if "covered S D y z" for z
    using covers_disjoint [OF wf] X y that unfolding S_def D_def by blast
  then show "covered S D y z \<Longrightarrow> E z = D z" using E by (simp add: handled_def)
  let ?p = "parent_path y"
  show "has_dir E ?p"
  proof (cases "?p = []")
    case False
    have d: "dir_at S ?p" "dir_at D ?p" using y(1) False by (auto simp: reported2_def has_dir_def)
    have "\<not> differs compareAll (S ?p) (E ?p) \<or> E ?p = D ?p"
    proof (cases "\<exists>x \<in> X. covered S D x ?p")
      case True
      then obtain x where x: "x \<in> X" "covered S D x ?p" by blast
      have "x \<noteq> []" using reported_child(1) [OF wf] X x(1) unfolding S_def D_def by blast
      have "x = ?p"
      proof (rule ccontr)
        assume "x \<noteq> ?p"
        then have c: "\<not> (dir_at S x \<and> dir_at D x)" "below x ?p" using x(2) by (auto simp: covered_def)
        have "below x y" using below_trans [OF c(2) reported_child(2) [OF wf y(1) [unfolded S_def D_def]]] .
        from reported_above [OF wf y(1) [unfolded S_def D_def] this \<open>x \<noteq> []\<close>] c(1)
        show False by (simp add: S_def D_def)
      qed
      moreover have "\<not> rotten_at S D ?p" "\<not> newer_at S D ?p"
        using directories_adjusted(1,2) [OF ok d] d entries_rp wf unfolding S_def D_def
        by (auto simp: dir_at_def split: option.splits)
      ultimately show ?thesis using E x by (auto simp: handled_def settled_def)
    next
      case False
      then show ?thesis using E by (simp add: handled_def)
    qed
    then show ?thesis using d
      by (auto simp: has_dir_def dir_at_def not_differs_iff compare_iff isDirectory_def split: option.splits)
  qed (simp add: has_dir_def)
qed

text \<open>A decision changes only what its difference covers, and settles it.\<close>

lemma applied_outside:
  assumes "entries_ok S" and "entries_ok D" and "decided S D y dec"
    and "S y \<noteq> None \<Longrightarrow> D y \<noteq> None \<Longrightarrow> rp (the (S y)) = rp (the (D y))" and "\<not> covered S D y z"
  shows "applied dec S y E z = E z"
proof (cases dec)
  case Replace
  have "\<not> (dir_at S y \<and> dir_at D y)"
  proof
    assume d: "dir_at S y \<and> dir_at D y"
    then have "S y \<noteq> None" "D y \<noteq> None" by (auto simp: dir_at_def split: option.splits)
    with assms d directories_adjusted(3) [of S D y dec] Replace show False by simp
  qed
  then show ?thesis using assms(5) Replace by (auto simp: applied_def covered_def at_or_below_def)
qed (use assms(5) in \<open>auto simp: applied_def covered_def\<close>)

lemma applied_settled:
  assumes wf: "wf_tree a" "wf_tree b"
  defines "S \<equiv> tree_entries a" and "D \<equiv> tree_entries b"
  assumes dec: "decided S D y dec" and E: "\<And>z. covered S D y z \<Longrightarrow> E z = D z" and z: "covered S D y z"
  shows "settled S D y z (applied dec S y E z)"
proof (cases dec)
  case Replace
  then have "\<not> rotten_at S D y"
    using dec by (auto simp: decided_def rotten_at_def rotten_def split: option.splits if_splits)
  moreover have "at_or_below y z" using z by (auto simp: covered_def at_or_below_def)
  ultimately show ?thesis using Replace by (simp add: settled_def applied_def)
next
  case Keep
  then have "rotten_at S D y \<or> newer_at S D y"
    using dec by (auto simp: decided_def rotten_at_def newer_at_def rotten_def split: option.splits if_splits)
  then show ?thesis using Keep E [OF z] by (auto simp: settled_def applied_def)
next
  case Adjust
  then obtain e0 e1 where e: "S y = Some e0" "D y = Some e1" "compare e0 e1 (backupOpt e0 e1)"
    using dec by (auto simp: decided_def split: option.splits if_splits)
  have n: "\<not> rotten_at S D y" "\<not> newer_at S D y"
    using e by (auto simp: rotten_at_def newer_at_def rotten_def)
  have Ey: "E y = Some e1" using E [of y] e(2) by (simp add: covered_def)
  show ?thesis
  proof (cases "z = y")
    case True
    then show ?thesis
      using n Adjust e Ey adjust_agrees by (simp add: settled_def applied_def not_differs_iff)
  next
    case False
    then have c: "\<not> (dir_at S y \<and> dir_at D y)" "below y z" using z by (auto simp: covered_def)
    then have "\<not> isDirectory e0" "\<not> isDirectory e1"
      using e by (auto simp: dir_at_def isDirectory_def compare_iff)
    then have "S z = None" "D z = None"
      using below_file [OF wf(1)] below_file [OF wf(2)] e c(2) by (auto simp: S_def D_def)
    then show ?thesis using n Adjust False E [OF z] by (simp add: settled_def applied_def)
  qed
qed

lemma handled_step:
  assumes wf: "wf_tree a" "wf_tree b"
  defines "S \<equiv> tree_entries a" and "D \<equiv> tree_entries b"
  assumes ok: "entries_ok S" "entries_ok D" and E: "handled S D X E"
    and X: "\<forall>x \<in> X. reported2 compareAll S D x" and y: "reported2 compareAll S D y" "y \<notin> X"
    and dec: "decided S D y dec"
  shows "handled S D (insert y X) (applied dec S y E)"
proof -
  have rp: "S y \<noteq> None \<Longrightarrow> D y \<noteq> None \<Longrightarrow> rp (the (S y)) = rp (the (D y))"
    using entries_rp wf by (auto simp: S_def D_def)
  have Ez: "covered S D y z \<Longrightarrow> E z = D z" for z
    using handled_ready(1) [OF wf] ok E X y unfolding S_def D_def by blast
  have out: "applied dec S y E z = E z" if "\<not> covered S D y z" for z
    by (rule applied_outside [OF ok dec rp that])
  have dis: "\<not> covered S D y z" if "x \<in> X" "covered S D x z" for x z
    using covers_disjoint [OF wf] that X y unfolding S_def D_def by blast
  have "settled S D y z (applied dec S y E z)" if "covered S D y z" for z
    using applied_settled [OF wf, folded S_def D_def, OF dec Ez that] .
  then show ?thesis using E out dis unfolding handled_def by auto
qed

end
