(* ===== verification/Ddm_Backup_Result.thy ===== *)
theory Ddm_Backup_Result
  imports Ddm_Backup_Exact
begin

text \<open>
  The result of a backup that returns: its exit code, the entries of the tree of the backup
  directory, and the metadata tree that goes with it.
\<close>

lemma entry_handled:
  assumes wf: "wf_tree src" "wf_tree dst"
  defines "S \<equiv> tree_entries src" and "D \<equiv> tree_entries dst"
  assumes ok: "entries_ok S" "entries_ok D" and y: "reported2 compareAll S D y" "y \<notin> X"
    and X: "\<forall>x \<in> X. reported2 compareAll S D x" and E: "handled S D X (tree_entries d)" and inv: "backup_inv d meta"
  shows "tree_entries d y = D y" and "has_dir (tree_entries d) (parent_path y)"
    and "backupEntry src (S y, D y) b (d, meta, w) = (Inr b1, s1) \<Longrightarrow> \<exists>dec d1 m1 w1. s1 = (d1, m1, w1) \<and>
      decided S (tree_entries d) y dec \<and> backup_inv d1 m1 \<and> tree_entries d1 = applied dec S y (tree_entries d) \<and> topPath d1 = topPath d \<and>
      (m1 = None \<longleftrightarrow> meta = None) \<and> handled S D (insert y X) (tree_entries d1) \<and> b1 = (b \<or> rotten_at S D y)"
proof -
  have ready: "covered S D y z \<Longrightarrow> tree_entries d z = D z" for z
    using handled_ready(1) [OF wf] ok X E y unfolding S_def D_def by blast
  show dir: "has_dir (tree_entries d) (parent_path y)"
    using handled_ready(2) [OF wf] ok X E y unfolding S_def D_def by blast
  show dy: "tree_entries d y = D y" using ready [of y] by (simp add: covered_def)
  assume r: "backupEntry src (S y, D y) b (d, meta, w) = (Inr b1, s1)"
  have diff: "differs compareAll (S y) (tree_entries d y)" using y(1) by (simp add: dy reported2_def)
  from backupEntry_step [OF inv wf(1) dir, folded S_def, OF diff, unfolded dy, OF r]
  obtain dec where dec: "decided S (tree_entries d) y dec" "backup_step dec S y (d, meta, w) s1"
    "b1 = (b \<or> rotten_at S (tree_entries d) y)" unfolding dy by blast
  have at: "decided S D y dec" "rotten_at S (tree_entries d) y = rotten_at S D y"
    using dec(1) dy by (simp_all add: decided_def rotten_at_def)
  obtain d1 m1 w1 where s1: "s1 = (d1, m1, w1)" by (metis prod_cases3)
  have inv1: "backup_inv d1 m1" using backup_step_inv dec(2) inv unfolding s1 by blast
  have st: "tree_entries d1 = applied dec S y (tree_entries d)" "topPath d1 = topPath d" "m1 = None \<longleftrightarrow> meta = None"
    using dec(2) unfolding s1 backup_step_def by (cases meta; cases m1; simp)+
  have "handled S D (insert y X) (tree_entries d1)"
    unfolding st(1) using handled_step [OF wf] ok X E y at(1) unfolding S_def D_def by blast
  with s1 dec(1,3) at(2) inv1 st show "\<exists>dec d1 m1 w1. s1 = (d1, m1, w1) \<and>
      decided S (tree_entries d) y dec \<and> backup_inv d1 m1 \<and> tree_entries d1 = applied dec S y (tree_entries d) \<and> topPath d1 = topPath d \<and>
      (m1 = None \<longleftrightarrow> meta = None) \<and> handled S D (insert y X) (tree_entries d1) \<and> b1 = (b \<or> rotten_at S D y)" by blast
qed

lemma backupEntries_handled:
  assumes wf: "wf_tree src" "wf_tree dst"
  defines "S \<equiv> tree_entries src" and "D \<equiv> tree_entries dst"
  assumes ok: "entries_ok S" "entries_ok D"
    and ys: "distinct ys" "\<forall>y \<in> set ys. reported2 compareAll S D y \<and> y \<notin> X"
    and X: "\<forall>x \<in> X. reported2 compareAll S D x" and E: "handled S D X (tree_entries d)"
    and inv: "backup_inv d meta"
    and run: "foldIO (backupEntry src) (map (\<lambda>x. (S x, D x)) ys) b (d, meta, w) = (Inr b', s')"
  shows "\<exists>d' meta' w'. s' = (d', meta', w') \<and> backup_inv d' meta' \<and> topPath d' = topPath d \<and>
    (meta' = None \<longleftrightarrow> meta = None) \<and> handled S D (X \<union> set ys) (tree_entries d') \<and>
    b' = (b \<or> (\<exists>y \<in> set ys. rotten_at S D y))"
  using ys X E inv run
proof (induction ys arbitrary: X d meta w b)
  case Nil
  then show ?case by (auto simp: io_simps)
next
  case (Cons y ys)
  have y: "reported2 compareAll S D y" "y \<notin> X" using Cons.prems(2) by auto
  obtain b1 s1 where r: "backupEntry src (S y, D y) b (d, meta, w) = (Inr b1, s1)"
    "foldIO (backupEntry src) (map (\<lambda>x. (S x, D x)) ys) b1 s1 = (Inr b', s')"
    using Cons.prems(6) by (auto simp: bindIO_Inr_iff)
  obtain d1 m1 w1 where s1: "s1 = (d1, m1, w1)" "backup_inv d1 m1" "topPath d1 = topPath d" "m1 = None \<longleftrightarrow> meta = None"
    "handled S D (insert y X) (tree_entries d1)" "b1 = (b \<or> rotten_at S D y)"
    using entry_handled(3) [OF wf, folded S_def D_def, OF ok y Cons.prems(3-5) r(1)] by blast
  have pre: "distinct ys" "\<forall>z \<in> set ys. reported2 compareAll S D z \<and> z \<notin> insert y X"
    "\<forall>x \<in> insert y X. reported2 compareAll S D x" using Cons.prems(1-3) y by auto
  from Cons.IH [OF pre s1(5,2) r(2) [unfolded s1(1)]] show ?case using s1(3,4,6) by auto
qed

lemma rotten_reported:
  assumes wf: "wf_tree a" "wf_tree b"
  defines "S \<equiv> tree_entries a" and "D \<equiv> tree_entries b"
  assumes ok: "entries_ok S" "entries_ok D" and x: "rotten_at S D x"
  shows "reported2 compareAll S D x" and "at_or_below x z \<Longrightarrow> covered S D x z"
proof -
  obtain e0 e1 where e: "S x = Some e0" "D x = Some e1" "\<not> compare e0 e1 (backupOpt e0 e1)"
    using x by (auto simp: rotten_at_def rotten_def split: option.splits)
  have "\<not> compare e0 e1 compareAll"
    using e(3) compare_mono [of "backupOpt e0 e1" compareAll] by (auto simp: opt_le_def compareAll_def)
  then show "reported2 compareAll S D x"
    using e present_parent(1) [OF wf(1)] present_parent(1) [OF wf(2)]
    by (simp add: reported2_def differs_def S_def D_def)
  have "rp e0 = x" "rp e1 = x" using e entries_rp wf by (simp_all add: S_def D_def)
  then have "\<not> (dir_at S x \<and> dir_at D x)"
    using directories_adjusted(1) [OF ok, of x] x e by auto
  then show "at_or_below x z \<Longrightarrow> covered S D x z" by (auto simp: covered_def at_or_below_def)
qed

definition backup_result ::
  "entries \<Rightarrow> entries \<Rightarrow> int \<Rightarrow> entries \<Rightarrow> bool" where
  "backup_result S D r E \<longleftrightarrow>
     r = (if \<exists>x. rotten_at S D x then 2 else 0) \<and>
     (\<forall>z. (\<forall>x. at_or_below x z \<longrightarrow> \<not> rotten_at S D x \<and> \<not> newer_at S D x) \<longrightarrow>
        \<not> differs compareAll (S z) (E z)) \<and>
     (\<forall>z. differs compareAll (S z) (E z) \<longrightarrow> E z = D z) \<and>
     (\<forall>x z. rotten_at S D x \<and> at_or_below x z \<longrightarrow> E z = D z)"

lemma handled_result:
  assumes wf: "wf_tree a" "wf_tree b"
  defines "S \<equiv> tree_entries a" and "D \<equiv> tree_entries b"
  assumes ok: "entries_ok S" "entries_ok D" and E: "handled S D {x. reported2 compareAll S D x} E"
  shows "backup_result S D (if \<exists>x. rotten_at S D x then 2 else 0) E"
proof -
  have cov: "\<not> differs compareAll (S z) (D z)" if "\<forall>x. reported2 compareAll S D x \<longrightarrow> \<not> covered S D x z" for z
    using cover_complete [OF wf] that unfolding S_def D_def by blast
  have E1: "E z = D z" if "\<forall>x. reported2 compareAll S D x \<longrightarrow> \<not> covered S D x z" for z
    using E that by (simp add: handled_def)
  have E2: "settled S D x z (E z)" if "reported2 compareAll S D x" "covered S D x z" for x z
    using E that by (simp add: handled_def)
  have "\<not> differs compareAll (S z) (E z)"
    if "\<forall>x. at_or_below x z \<longrightarrow> \<not> rotten_at S D x \<and> \<not> newer_at S D x" for z
  proof (cases "\<exists>x. reported2 compareAll S D x \<and> covered S D x z")
    case True
    then obtain x where x: "reported2 compareAll S D x" "covered S D x z" by blast
    then have "at_or_below x z" by (auto simp: covered_def at_or_below_def)
    then show ?thesis using E2 [OF x] that by (simp add: settled_def)
  qed (use cov E1 in simp)
  moreover have "E z = D z" if "differs compareAll (S z) (E z)" for z
  proof (cases "\<exists>x. reported2 compareAll S D x \<and> covered S D x z")
    case True
    then obtain x where x: "reported2 compareAll S D x" "covered S D x z" by blast
    from E2 [OF this] that show ?thesis by (simp add: settled_def split: if_splits)
  qed (use E1 in simp)
  moreover have "E z = D z" if x: "rotten_at S D x" "at_or_below x z" for x z
  proof -
    have "reported2 compareAll S D x" "covered S D x z"
      using rotten_reported [OF wf] ok x unfolding S_def D_def by blast+
    from E2 [OF this] x(1) show ?thesis by (simp add: settled_def)
  qed
  ultimately show ?thesis unfolding backup_result_def by blast
qed

theorem backupImpl_result:
  assumes "path_iteration visit" and wf: "wf_tree src" "wf_tree dst"
    and ok: "entries_ok (tree_entries src)" "entries_ok (tree_entries dst)" and inv: "backup_inv dst meta"
    and run: "backupImpl visit src (dst, meta, w) = (Inr r, (dst', meta', w'))"
  shows "backup_inv dst' meta' \<and> topPath dst' = topPath dst \<and> (meta' = None \<longleftrightarrow> meta = None) \<and>
    backup_result (tree_entries src) (tree_entries dst) r (tree_entries dst')"
proof -
  let ?S = "tree_entries src" and ?D = "tree_entries dst"
  obtain xs where xs: "diff2 visit src dst compareAll = Inr (map (\<lambda>x. (?S x, ?D x)) xs)" "distinct xs"
    "set xs = {x. reported2 compareAll ?S ?D x}"
    using path_iteration.diff2_reports [OF assms(1) wf] by blast
  obtain b where b: "foldIO (backupEntry src) (map (\<lambda>x. (?S x, ?D x)) xs) False (dst, meta, w) =
      (Inr b, (dst', meta', w'))" "r = (if b then 2 else 0)"
    using run xs(1) unfolding backupImpl_def by (auto simp: bindIO_Inr_iff io_simps)
  have "handled ?S ?D {} ?D" by (simp add: handled_def)
  from backupEntries_handled [OF wf ok xs(2) _ _ this inv b(1)]
  have h: "backup_inv dst' meta'" "topPath dst' = topPath dst" "meta' = None \<longleftrightarrow> meta = None"
    "handled ?S ?D (set xs) (tree_entries dst')" "b = (\<exists>y \<in> set xs. rotten_at ?S ?D y)"
    by (simp_all add: xs(3))
  have "b = (\<exists>x. rotten_at ?S ?D x)"
    using h(5) rotten_reported(1) [OF wf ok] unfolding xs(3) by blast
  with handled_result [OF wf ok h(4) [unfolded xs(3)]] b(2) h(1-3) show ?thesis by simp
qed

end
