(* ===== verification/Ddm_Read_Only.thy ===== *)
theory Ddm_Read_Only
  imports Ddm_Cli
begin

text \<open>
  The parts of the program that only look: whatever fails on the way, no file changes. The frame
  condition \<open>same_system\<close> leaves only the caches of names and the failures to come free.
\<close>

definition same_system :: "world \<Rightarrow> world \<Rightarrow> bool" where
  "same_system w w' \<longleftrightarrow> files w' = files w \<and> cwd w' = cwd w \<and> umask w' = umask w \<and> euid w' = euid w \<and>
     egid w' = egid w \<and> clock w' = clock w \<and> ticks w' = ticks w \<and> passwd w' = passwd w \<and>
     groups w' = groups w \<and> stdin w' = stdin w"

lemma same_system_refl [simp]: "same_system w w"
  by (simp add: same_system_def)

interpretation system: frame same_system
  by unfold_locales (simp_all add: same_system_def)

lemma same_system_facts:
  assumes "same_system w w'"
  shows "files w' = files w" and "cwd w' = cwd w" and "stdin w' = stdin w" and "passwd w' = passwd w"
    and "groups w' = groups w" and "lookup w' = lookup w" and "clock w' = clock w" and "ticks w' = ticks w"
    and "umask w' = umask w" and "euid w' = euid w" and "egid w' = egid w"
  using assms by (auto simp: same_system_def lookup_def fun_eq_iff)

abbreviation reads :: "'a wio \<Rightarrow> bool" where
  "reads m \<equiv> spec same_system (\<lambda>_. True) m (\<lambda>_ _. True)"

named_theorems reading \<open>computations that change no file\<close>

lemma readsI: "(\<And>w. same_system w (snd (m w))) \<Longrightarrow> reads m"
  by (simp add: spec_def)

lemma readsD: "reads m \<Longrightarrow> m w = (r, w') \<Longrightarrow> same_system w w'"
  using specD(1) [of same_system "\<lambda>_. True" m "\<lambda>_ _. True"] by blast

lemma reads_return [reading]: "reads (returnIO x)"
  by (rule system.spec_return) simp

lemma reads_throw [reading]: "reads (throwIO e)"
  by (rule system.spec_throw)

lemma reads_lift [reading]: "reads (liftE r)"
  by (rule system.spec_lift) simp

lemma reads_get [reading]: "reads (getIO f)"
  by (rule system.spec_get) simp

lemma reads_bind [reading]: "reads m \<Longrightarrow> (\<And>x. reads (f x)) \<Longrightarrow> reads (bindIO m f)"
  by (rule system.spec_bind)

lemma reads_catch [reading]: "reads m \<Longrightarrow> (\<And>e. reads (h e)) \<Longrightarrow> reads (catchIO m h)"
  by (rule system.spec_catch) (auto simp: spec_def)

lemma reads_fold [reading]: "(\<And>x b. x \<in> set xs \<Longrightarrow> reads (f x b)) \<Longrightarrow> reads (foldIO f xs b)"
  by (rule system.spec_fold [where P = "\<lambda>_ _. True"])

lemma reads_map [reading]: "(\<And>x. x \<in> set xs \<Longrightarrow> reads (f x)) \<Longrightarrow> reads (mapIO f xs)"
  by (rule system.spec_map)

lemma reads_if [reading]: "reads m \<Longrightarrow> reads n \<Longrightarrow> reads (if b then m else n)"
  by simp

lemma reads_let [reading]: "(\<And>x. reads (f x)) \<Longrightarrow> reads (let x = a in f x)"
  by simp

lemma same_system_faults [simp]: "same_system w (w\<lparr>faults := fs\<rparr>)"
  by (simp add: same_system_def)

lemma reads_faulty [reading]: "reads m \<Longrightarrow> reads (faulty e m)"
  by (rule readsI)
    (auto simp: faulty_def spec_def same_system_faults same_system_refl split: list.splits
      intro: system.trans [OF same_system_faults])

text \<open>A computation that leaves the state as it is.\<close>

lemma reads_pure: "(\<And>w. snd (m w) = w) \<Longrightarrow> reads m"
  by (rule readsI) (simp add: same_system_refl)

section \<open>Calls of the system and of the extended interface\<close>

lemma reads_is_directory [reading]: "reads (is_directory p)"
  unfolding is_directory_def by (intro reading)

lemma reads_exists_file [reading]: "reads (exists_file p)"
  unfolding exists_file_def by (intro reading)

lemma reads_absolute [reading]: "reads (absolute p)"
  unfolding absolute_def by (intro reading)

lemma reads_directory_iterator [reading]: "reads (directory_iterator p)"
  unfolding directory_iterator_def by (intro reads_faulty reads_pure) (auto split: option.splits)

lemma reads_read_symlink [reading]: "reads (read_symlink p)"
  unfolding read_symlink_def by (intro reads_faulty reads_pure) (auto split: option.splits file_data.splits)

lemma reads_ext_symlink_status [reading]: "reads (ext_symlink_status p)"
  unfolding ext_symlink_status_def by (intro reads_faulty reads_pure) (auto split: option.splits)

lemma reads_hashFile [reading]: "reads (hashFile sha p)"
  unfolding hashFile_def Let_def by (intro reads_faulty reads_pure) (auto split: option.splits file_data.splits)

lemma same_system_names [simp]:
  "same_system w (w\<lparr>userCache := a, userReverseCache := b\<rparr>)"
  "same_system w (w\<lparr>groupCache := c, groupReverseCache := d\<rparr>)"
  by (simp_all add: same_system_def)

lemma reads_cached:
  assumes "reads m"
  shows "reads (\<lambda>w. case c w of Some x \<Rightarrow> (Inr (f x), w) | None \<Rightarrow> m w)"
  using assms by (auto simp: spec_def same_system_refl split: option.splits)

lemma reads_ext_lookup_user [reading]: "reads (ext_lookup_user uid)"
  unfolding ext_lookup_user_def Let_def
  by (intro reads_cached reads_faulty readsI) (auto simp: same_system_names split: option.splits)

lemma reads_ext_lookup_group [reading]: "reads (ext_lookup_group gid)"
  unfolding ext_lookup_group_def Let_def
  by (intro reads_cached reads_faulty readsI) (auto simp: same_system_names split: option.splits)

lemma reads_ifstream [reading]: "reads (ifstream p)"
proof (rule readsI)
  fix w
  show "same_system w (snd (ifstream p w))"
    unfolding ifstream_def Let_def
    by (auto simp: same_system_faults split: list.splits bool.splits option.splits
        intro: system.trans [OF same_system_faults])
qed

section \<open>Scans, metadata files and comparisons\<close>

lemma reads_elementFromPath [reading]: "reads (elementFromPath sha p topDir opt)"
  unfolding elementFromPath_def Let_def
  by (intro reads_bind reading) (auto intro!: reading split: file_type.split)

lemma reads_recursiveBuildFromPath [reading]: "reads (recursiveBuildFromPath sha opt topDir fuel p t)"
proof (induction fuel arbitrary: p t)
  case (Suc fuel)
  then show ?case
    unfolding recursiveBuildFromPath.simps
    by (intro reads_bind reads_directory_iterator reads_map reads_elementFromPath reads_lift)
      (auto intro!: reads_fold reads_return)
qed (simp add: reads_throw)

lemma reads_scanDirectory [reading]: "reads (scanDirectory sha t p opt)"
  unfolding scanDirectory_def by (intro reading)

lemma reads_readFrom [reading]: "reads (readFrom t p)"
  unfolding readFrom_def by (intro reads_bind reads_ifstream) (auto intro: reading split: option.split)

lemma reads_fromPath [reading]: "reads (fromPath sha t p opt)"
  unfolding fromPath_def by (intro reading)

lemma reads_scanSourceTargetDir [reading]: "reads (scanSourceTargetDir sha src dst threads opt)"
  unfolding scanSourceTargetDir_def Let_def
  by (auto intro!: reads_bind reads_catch reads_scanDirectory reads_return reads_throw)

lemma reads_loadMetadataFiles [reading]: "reads (loadMetadataFiles m1 m2)"
  unfolding loadMetadataFiles_def by (intro reading)

lemma reads_treeManagers [reading]:
  "reads (treeManagerWithSource sha src dst m1 m2 opt threads)"
  "reads (treeManagerWithoutSource sha dst m1 m2 opt)"
  unfolding treeManagerWithSource_def treeManagerWithoutSource_def
  by (auto intro!: reads_bind reads_loadMetadataFiles reads_scanSourceTargetDir reads_scanDirectory reads_return)

lemma reads_lsCmd [reading]: "reads (lsCmd sha vm)"
  unfolding lsCmd_def by (intro reading)

lemma reads_diffCmd [reading]: "reads (diffCmd sha visit vm)"
  unfolding diffCmd_def Let_def
  by (intro reads_if reads_bind reads_return reads_fromPath reads_lift) (auto intro: reading split: option.split)

end
