(* ===== verification/Ddm_Scrub.thy ===== *)
theory Ddm_Scrub
  imports Ddm_Backup_Exact Ddm_Diff3 Ddm_Read_Only
begin

text \<open>
  The scrub without repair of the backup directory (\<^verbatim>\<open>scrubImpl\<close> of backup.cpp with
  \<^verbatim>\<open>fixup\<close> false): it changes no file, it returns, and it repairs the metadata trees wherever
  one of them agrees with the backup directory. The lemmas speak of trees in which every regular
  file has a hash, as a scrub scans them; then the comparison of elements is transitive.
\<close>

section \<open>Entries with hashes\<close>

definition hashed :: "entries \<Rightarrow> bool" where
  "hashed E \<longleftrightarrow> (\<forall>x e. E x = Some e \<longrightarrow> elem_ok e \<and> (ty e = FT_regular \<longrightarrow> fileHash e \<noteq> []))"

abbreviation agree :: "FilesystemElement option \<Rightarrow> FilesystemElement option \<Rightarrow> bool" where
  "agree a b \<equiv> opt_elem_eq a b"

lemma agree_iff: "agree a b \<longleftrightarrow> \<not> differs compareAll a b"
  by (auto simp: opt_elem_eq_def differs_def elem_eq_compare split: option.splits)

lemma differs_agree: "differs compareAll a b \<longleftrightarrow> \<not> agree a b"
  by (simp add: agree_iff)

lemma agree_sym: "agree a b \<longleftrightarrow> agree b a"
  using elem_eq_sym by (auto simp: opt_elem_eq_def split: option.splits)

lemma compare_hashed_trans:
  assumes "compare a b compareAll" and "compare b c compareAll"
    and "elem_ok a" and "elem_ok b" and "ty b = FT_regular \<Longrightarrow> fileHash b \<noteq> []"
  shows "compare a c compareAll"
proof (rule compare_trans [OF assms(1,2)])
  have "ty a = ty b" using assms(1) by (simp add: compare_iff)
  then show "\<not> opt_hash compareAll \<or> fileHash b \<noteq> [] \<or> fileHash a = [] \<or> fileHash c = []"
    using assms(3-5) by (auto simp: elem_ok_def)
qed

lemma agree_trans:
  assumes "hashed A" and "hashed B" and "agree (A x) (B x)" and "agree (B x) c"
  shows "agree (A x) c"
  using assms compare_hashed_trans unfolding agree_iff not_differs_iff hashed_def by (auto 0 4)

lemma hashed_transitive:
  assumes "hashed A" and "hashed B"
  shows "transitive_at compareAll A B C x"
  using assms compare_hashed_trans unfolding transitive_at_def hashed_def by (auto split: option.splits)

lemma not_differs_dir: "\<not> differs opt (A p) (B q) \<Longrightarrow> dir_at A p = dir_at B q"
  by (cases "A p"; cases "B q") (simp_all add: differs_def dir_at_def compare_iff isDirectory_def)

section \<open>Which differences a scrub sees\<close>

lemma differing_parent:
  assumes wf: "wf_tree a" "wf_tree b" "wf_tree c"
  defines "A \<equiv> tree_entries a" and "B \<equiv> tree_entries b" and "C \<equiv> tree_entries c"
  assumes d: "differs compareAll (A x) (B x) \<or> differs compareAll (B x) (C x)"
    and r: "\<not> reported3 compareAll A B C x"
  shows "length (parent_path x) < length x"
    and "differs compareAll (A (parent_path x)) (B (parent_path x)) \<or>
      differs compareAll (B (parent_path x)) (C (parent_path x))"
    and "dir_at A (parent_path x) \<or> dir_at B (parent_path x) \<or> dir_at C (parent_path x)"
proof -
  let ?p = "parent_path x"
  have present: "A x \<noteq> None \<or> B x \<noteq> None \<or> C x \<noteq> None" using d differs_present by blast
  then show "length ?p < length x"
    using present_parent(3) [OF wf(1)] present_parent(3) [OF wf(2)] present_parent(3) [OF wf(3)]
    unfolding A_def B_def C_def by blast
  have hd: "A x \<noteq> None \<Longrightarrow> has_dir A ?p" "B x \<noteq> None \<Longrightarrow> has_dir B ?p" "C x \<noteq> None \<Longrightarrow> has_dir C ?p"
    using present_parent(1) [OF wf(1)] present_parent(1) [OF wf(2)] present_parent(1) [OF wf(3)]
    unfolding A_def B_def C_def by blast+
  have one: "has_dir A ?p \<or> has_dir B ?p \<or> has_dir C ?p" using present hd by blast
  have some: "\<not> (has_dir A ?p \<and> has_dir B ?p \<and> has_dir C ?p)"
    using d r unfolding reported3_iff Let_def by blast
  then show "dir_at A ?p \<or> dir_at B ?p \<or> dir_at C ?p" using one unfolding has_dir_def by blast
  show "differs compareAll (A ?p) (B ?p) \<or> differs compareAll (B ?p) (C ?p)"
  proof (rule ccontr)
    assume "\<not> ?thesis"
    then have "dir_at A ?p = dir_at B ?p" "dir_at B ?p = dir_at C ?p"
      using not_differs_dir by blast+
    with one some show False unfolding has_dir_def by blast
  qed
qed

lemma nothing_reported3_iff:
  assumes wf: "wf_tree a" "wf_tree b" "wf_tree c"
  defines "A \<equiv> tree_entries a" and "B \<equiv> tree_entries b" and "C \<equiv> tree_entries c"
  shows "(\<forall>x. \<not> reported3 compareAll A B C x) \<longleftrightarrow> (\<forall>x. agree (A x) (B x) \<and> agree (B x) (C x))"
proof
  assume r: "\<forall>x. \<not> reported3 compareAll A B C x"
  have "\<not> (differs compareAll (A x) (B x) \<or> differs compareAll (B x) (C x))" for x
  proof (induction "length x" arbitrary: x rule: less_induct)
    case less
    then show ?case using differing_parent [OF wf, of x] r unfolding A_def B_def C_def by blast
  qed
  then show "\<forall>x. agree (A x) (B x) \<and> agree (B x) (C x)" by (simp add: agree_iff)
next
  assume e: "\<forall>x. agree (A x) (B x) \<and> agree (B x) (C x)"
  then have "has_dir A p = has_dir B p" "has_dir B p = has_dir C p" for p
    using has_dir_aligned [of A B] has_dir_aligned [of B C] by (auto simp: aligned_def agree_iff)
  with e show "\<forall>x. \<not> reported3 compareAll A B C x" by (simp add: reported3_iff Let_def agree_iff)
qed

section \<open>Repairing an entry of a metadata tree\<close>

lemma fixMetadataEntry_applied:
  assumes wf: "wf_tree g" "wf_tree t"
  defines "G \<equiv> tree_entries g" and "T \<equiv> tree_entries t"
  assumes x: "G x \<noteq> None \<or> T x \<noteq> None" and dir: "G x \<noteq> None \<Longrightarrow> has_dir T (parent_path x)"
  shows "\<exists>t'. fixMetadataEntry g (G x) (T x) t = Inr t' \<and> wf_tree t' \<and> tree_entries t' = applied Replace G x T"
proof -
  have ne: "x \<noteq> []" using x entries_Nil wf by (auto simp: G_def T_def)
  have "\<exists>t1. (case T x of None \<Rightarrow> Inr t | Some e \<Rightarrow> removeFromTree t (rp e)) = Inr t1 \<and> wf_tree t1 \<and>
      tree_entries t1 = cut x T"
  proof (cases "T x")
    case None
    then have "cut x T = T"
      using absent_below [OF wf(2) _ ne] by (auto simp: T_def cut_def fun_eq_iff)
    then show ?thesis using None wf(2) by (simp add: T_def)
  next
    case (Some e)
    then have "rp e = x" "tree_entries t x = Some e" using entries_rp wf(2) by (auto simp: T_def)
    then show ?thesis using removeFromTree_entries [OF wf(2)] Some by (auto simp: cut_def T_def)
  qed
  then obtain t1 where t1: "(case T x of None \<Rightarrow> Inr t | Some e \<Rightarrow> removeFromTree t (rp e)) = Inr t1"
    "wf_tree t1" "tree_entries t1 = cut x T" by blast
  show ?thesis
  proof (cases "G x")
    case None
    then have "cut x T = applied Replace G x T"
      using absent_below [OF wf(1) _ ne] by (auto simp: G_def cut_def applied_def fun_eq_iff)
    then show ?thesis using None t1 by (simp add: fixMetadataEntry_def)
  next
    case (Some e)
    then have e: "rp e = x" "tree_entries g x = Some e" using entries_rp wf(1) by (auto simp: G_def)
    have out: "\<not> at_or_below x (parent_path x)" using parent_outside [OF wf(1)] e(2) by blast
    have none: "tree_entries t1 x = None" by (simp add: t1(3) cut_def)
    have "has_dir (tree_entries t1) (parent_path x)"
      using dir Some out by (simp add: t1(3) has_dir_cut)
    then have "parent_path x = [] \<or> (\<exists>d. tree_entries t1 (parent_path x) = Some d \<and> isDirectory d)"
      by (auto simp: has_dir_def dir_at_def split: option.splits)
    from copyFromTree_entries [OF t1(2) wf(1) e(2) none this] obtain t' where
      t': "copyFromTree t1 g x (parent_path x) = Inr t'" "wf_tree t'"
      "tree_entries t' = (\<lambda>z. if at_or_below x z then tree_entries g z else tree_entries t1 z)" by blast
    have "tree_entries t' = applied Replace G x T"
      unfolding t'(3) t1(3) by (auto simp: G_def applied_def cut_def fun_eq_iff)
    then show ?thesis using t1(1) Some e(1) t'(1,2) by (auto simp: fixMetadataEntry_def)
  qed
qed

text \<open>Between entries that are not directories, a repair changes one entry only.\<close>

lemma applied_leaf:
  assumes "wf_tree g" and "wf_tree t" and "x \<noteq> []"
    and "\<not> dir_at (tree_entries g) x" and "\<not> dir_at (tree_entries t) x"
  shows "applied Replace (tree_entries g) x (tree_entries t) = (tree_entries t)(x := tree_entries g x)"
  using not_dir_above(2) [OF assms(1,4,3)] not_dir_above(2) [OF assms(2,5,3)]
  by (auto simp: applied_def at_or_below_def fun_eq_iff)

definition bad :: "entries \<Rightarrow> entries \<Rightarrow> path set" where
  "bad D T = {z. \<not> agree (D z) (T z)}"

lemma finite_entries: "finite (dom (tree_entries t))"
  by (simp add: tree_entries_def forest_entries_def finite_dom_map_of)

lemma finite_bad: "finite (bad (tree_entries a) (tree_entries b))"
proof (rule finite_subset)
  show "bad (tree_entries a) (tree_entries b) \<subseteq> dom (tree_entries a) \<union> dom (tree_entries b)"
    by (auto simp: bad_def opt_elem_eq_def split: option.splits)
qed (simp add: finite_entries)

lemma bad_applied: "bad D (applied Replace D x T) = bad D T - {z. at_or_below x z}"
  by (auto simp: bad_def applied_def)

section \<open>One line of the comparison\<close>

abbreviation dstE :: "TreeManager \<Rightarrow> entries" where "dstE tm \<equiv> tree_entries (dstTree tm)"

abbreviation meta1E :: "TreeManager \<Rightarrow> entries" where "meta1E tm \<equiv> tree_entries (meta1Tree tm)"

abbreviation meta2E :: "TreeManager \<Rightarrow> entries" where "meta2E tm \<equiv> tree_entries (meta2Tree tm)"

abbreviation line_at :: "TreeManager \<Rightarrow> path \<Rightarrow> diff_line3" where
  "line_at tm x \<equiv> (dstE tm x, meta1E tm x, meta2E tm x)"

definition scrub_state :: "TreeManager \<Rightarrow> bool" where
  "scrub_state tm \<longleftrightarrow> meta2TreePresent tm \<and>
     wf_tree (dstTree tm) \<and> wf_tree (meta1Tree tm) \<and> wf_tree (meta2Tree tm) \<and>
     hashed (dstE tm) \<and> hashed (meta1E tm) \<and> hashed (meta2E tm)"

definition flagged :: "scrub_flags \<Rightarrow> bool" where
  "flagged fl \<longleftrightarrow> unrecoverable fl \<or> maybeRecoverable fl"

definition same_manager :: "TreeManager \<Rightarrow> TreeManager \<Rightarrow> bool" where
  "same_manager tm tm' \<longleftrightarrow> tm' = tm\<lparr>meta1Tree := meta1Tree tm', meta2Tree := meta2Tree tm'\<rparr>"

lemma same_manager_dst: "same_manager tm tm' \<Longrightarrow> dstTree tm' = dstTree tm"
  unfolding same_manager_def by (metis TreeManager.select_convs(2) TreeManager.surjective
    TreeManager.update_convs(3,4))

lemma same_manager_trans: "same_manager a b \<Longrightarrow> same_manager b c \<Longrightarrow> same_manager a c"
  unfolding same_manager_def by (cases a; cases b; cases c) simp

text \<open>What a reported line must satisfy so that its repair succeeds.\<close>

definition repairable :: "TreeManager \<Rightarrow> path \<Rightarrow> bool" where
  "repairable tm x \<longleftrightarrow>
     (dstE tm x \<noteq> None \<or> meta1E tm x \<noteq> None \<or> meta2E tm x \<noteq> None) \<and>
     \<not> (agree (dstE tm x) (meta1E tm x) \<and> agree (dstE tm x) (meta2E tm x)) \<and>
     (dstE tm x \<noteq> None \<longrightarrow> agree (dstE tm x) (meta1E tm x) \<longrightarrow> has_dir (meta2E tm) (parent_path x)) \<and>
     (dstE tm x \<noteq> None \<longrightarrow> agree (dstE tm x) (meta2E tm x) \<longrightarrow> has_dir (meta1E tm) (parent_path x))"

lemma agree_None [simp]: "agree None b \<longleftrightarrow> b = None" "agree b None \<longleftrightarrow> b = None"
  by (auto simp: opt_elem_eq_def split: option.splits)

lemma hashed_applied: "hashed D \<Longrightarrow> hashed T \<Longrightarrow> hashed (applied Replace D x T)"
  by (simp add: hashed_def applied_def)

lemma reported_repairable:
  assumes st: "scrub_state tm" and r: "reported3 compareAll (dstE tm) (meta1E tm) (meta2E tm) x"
  shows "repairable tm x"
proof -
  let ?p = "parent_path x"
  have hd: "dstE tm x \<noteq> None \<Longrightarrow> has_dir (dstE tm) ?p" "meta1E tm x \<noteq> None \<Longrightarrow> has_dir (meta1E tm) ?p"
    "meta2E tm x \<noteq> None \<Longrightarrow> has_dir (meta2E tm) ?p"
    using st present_parent(1) by (auto simp: scrub_state_def)
  have tr: "agree (dstE tm x) (meta1E tm x) \<Longrightarrow> agree (dstE tm x) (meta2E tm x) \<Longrightarrow>
      agree (meta1E tm x) (meta2E tm x)"
    using st agree_trans [of "meta1E tm" "dstE tm" x] agree_sym by (auto simp: scrub_state_def)
  have present: "dstE tm x \<noteq> None \<or> meta1E tm x \<noteq> None \<or> meta2E tm x \<noteq> None"
    using r reported3_present by blast
  show ?thesis
    using r hd tr present unfolding repairable_def reported3_iff Let_def differs_agree
    by (cases "dstE tm x") auto
qed

lemma scrubEntry_step:
  assumes st: "scrub_state tm" and x: "repairable tm x"
  shows "\<exists>fl' tm'. scrubEntry False (line_at tm x) fl (tm, w) = (Inr fl', (tm', w)) \<and>
    scrub_state tm' \<and> same_manager tm tm' \<and>
    meta1E tm' = (if agree (dstE tm x) (meta2E tm x) then applied Replace (dstE tm) x (meta1E tm) else meta1E tm) \<and>
    meta2E tm' = (if agree (dstE tm x) (meta1E tm x) then applied Replace (dstE tm) x (meta2E tm) else meta2E tm) \<and>
    (flagged fl' \<longleftrightarrow> flagged fl \<or> \<not> agree (dstE tm x) (meta1E tm x) \<and> \<not> agree (dstE tm x) (meta2E tm x)) \<and>
    (redo fl' \<longleftrightarrow> redo fl \<or> (agree (dstE tm x) (meta1E tm x) \<or> agree (dstE tm x) (meta2E tm x)) \<and>
      (dir_at (dstE tm) x \<or> dir_at (meta1E tm) x \<or> dir_at (meta2E tm) x))"
proof -
  have wf: "wf_tree (dstTree tm)" "wf_tree (meta1Tree tm)" "wf_tree (meta2Tree tm)" "meta2TreePresent tm"
    and h: "hashed (dstE tm)" "hashed (meta1E tm)" "hashed (meta2E tm)" using st by (auto simp: scrub_state_def)
  have res: "fixMetadataResult (A x) (B x) = SuccessDiffMetadataInvalidated \<longleftrightarrow> dir_at A x \<or> dir_at B x" for A B
    by (simp add: fixMetadataResult_def dir_at_def)
  have same: "agree (dstE tm x) (B x) \<Longrightarrow> dir_at (dstE tm) x = dir_at B x" for B
    using not_differs_dir by (simp add: agree_iff)
  consider "agree (dstE tm x) (meta1E tm x)" "\<not> agree (dstE tm x) (meta2E tm x)"
    | "agree (dstE tm x) (meta2E tm x)" "\<not> agree (dstE tm x) (meta1E tm x)"
    | "\<not> agree (dstE tm x) (meta1E tm x)" "\<not> agree (dstE tm x) (meta2E tm x)"
    using x by (auto simp: repairable_def)
  then show ?thesis
  proof cases
    case 1
    have p: "dstE tm x \<noteq> None \<or> meta2E tm x \<noteq> None" using x 1 by (auto simp: repairable_def)
    have d: "dstE tm x \<noteq> None \<Longrightarrow> has_dir (meta2E tm) (parent_path x)" using x 1 by (simp add: repairable_def)
    from fixMetadataEntry_applied [OF wf(1,3) p d] obtain t where
      "fixMetadataEntry (dstTree tm) (dstE tm x) (meta2E tm x) (meta2Tree tm) = Inr t" "wf_tree t"
      "tree_entries t = applied Replace (dstE tm) x (meta2E tm)" by blast
    then show ?thesis using 1 wf h same [of "meta1E tm"] hashed_applied
      by (auto simp: scrubEntry_def bindIO_apply io_simps updateMeta2_def scrub_state_def same_manager_def
          flagged_def res)
  next
    case 2
    have p: "dstE tm x \<noteq> None \<or> meta1E tm x \<noteq> None" using x 2 by (auto simp: repairable_def)
    have d: "dstE tm x \<noteq> None \<Longrightarrow> has_dir (meta1E tm) (parent_path x)" using x 2 by (simp add: repairable_def)
    from fixMetadataEntry_applied [OF wf(1,2) p d] obtain t where
      "fixMetadataEntry (dstTree tm) (dstE tm x) (meta1E tm x) (meta1Tree tm) = Inr t" "wf_tree t"
      "tree_entries t = applied Replace (dstE tm) x (meta1E tm)" by blast
    then show ?thesis using 2 wf h same [of "meta2E tm"] hashed_applied
      by (auto simp: scrubEntry_def bindIO_apply io_simps updateMeta1_def scrub_state_def same_manager_def
          flagged_def res)
  next
    case 3
    then show ?thesis using st
      by (auto simp: scrubEntry_def bindIO_apply io_simps same_manager_def flagged_def)
  qed
qed

section \<open>One pass over the differences\<close>

abbreviation bad1 :: "TreeManager \<Rightarrow> path set" where "bad1 tm \<equiv> bad (dstE tm) (meta1E tm)"

abbreviation bad2 :: "TreeManager \<Rightarrow> path set" where "bad2 tm \<equiv> bad (dstE tm) (meta2E tm)"

definition no_dirs :: "TreeManager \<Rightarrow> path \<Rightarrow> bool" where
  "no_dirs tm x \<longleftrightarrow> \<not> dir_at (dstE tm) x \<and> \<not> dir_at (meta1E tm) x \<and> \<not> dir_at (meta2E tm) x"

lemma repaired_leaf:
  assumes "scrub_state tm" and "no_dirs tm x" and "repairable tm x"
  shows "applied Replace (dstE tm) x (meta1E tm) = (meta1E tm)(x := dstE tm x)"
    and "applied Replace (dstE tm) x (meta2E tm) = (meta2E tm)(x := dstE tm x)"
proof -
  have "x \<noteq> []" using assms entries_Nil by (auto simp: scrub_state_def repairable_def)
  then show "applied Replace (dstE tm) x (meta1E tm) = (meta1E tm)(x := dstE tm x)"
    and "applied Replace (dstE tm) x (meta2E tm) = (meta2E tm)(x := dstE tm x)"
    using assms applied_leaf by (auto simp: scrub_state_def no_dirs_def)
qed

text \<open>
  What holds between the beginning and the end of a pass over the lines of the paths \<open>ys\<close>. If the
  pass ends early, an entry was repaired; otherwise every line with a metadata tree that agrees
  with the backup directory is a line between files, and is repaired.
\<close>

definition pass_done :: "path list \<Rightarrow> TreeManager \<Rightarrow> scrub_flags \<Rightarrow> TreeManager \<Rightarrow> scrub_flags \<Rightarrow> bool" where
  "pass_done ys tm fl tm' fl' \<longleftrightarrow> scrub_state tm' \<and> same_manager tm tm' \<and>
     bad1 tm' \<subseteq> bad1 tm \<and> bad2 tm' \<subseteq> bad2 tm \<and> (flagged fl \<longrightarrow> flagged fl') \<and>
     (flagged fl' \<longrightarrow> flagged fl \<or> bad1 tm \<inter> bad2 tm \<noteq> {}) \<and>
     (redo fl' \<longrightarrow> bad1 tm' \<noteq> bad1 tm \<or> bad2 tm' \<noteq> bad2 tm) \<and>
     (\<not> redo fl' \<longrightarrow> (\<forall>y \<in> set ys. if y \<in> bad1 tm \<inter> bad2 tm then flagged fl'
        else no_dirs tm y \<and> y \<notin> bad1 tm' \<and> y \<notin> bad2 tm'))"

text \<open>The effect of a line that does not end the pass.\<close>

definition line_done :: "path \<Rightarrow> TreeManager \<Rightarrow> TreeManager \<Rightarrow> bool" where
  "line_done x tm tm' \<longleftrightarrow> scrub_state tm' \<and> same_manager tm tm' \<and>
     bad1 tm' \<subseteq> bad1 tm \<and> bad2 tm' \<subseteq> bad2 tm \<and>
     (\<forall>y. y \<noteq> x \<longrightarrow> meta1E tm' y = meta1E tm y \<and> meta2E tm' y = meta2E tm y) \<and>
     (\<forall>p. has_dir (meta1E tm') p = has_dir (meta1E tm) p \<and> has_dir (meta2E tm') p = has_dir (meta2E tm) p) \<and>
     (x \<notin> bad1 tm \<inter> bad2 tm \<longrightarrow> no_dirs tm x \<and> x \<notin> bad1 tm' \<and> x \<notin> bad2 tm')"

lemma has_dir_update:
  assumes "\<not> dir_at E x" and "\<not> dir_at D x"
  shows "has_dir (E(x := D x)) p = has_dir E p"
  using assms by (simp add: has_dir_def dir_at_def)

lemma scrubEntry_cases:
  assumes st: "scrub_state tm" and x: "repairable tm x" and fl: "\<not> redo fl"
  shows "\<exists>fl' tm'. scrubEntry False (line_at tm x) fl (tm, w) = (Inr fl', (tm', w)) \<and>
    (flagged fl' \<longleftrightarrow> flagged fl \<or> x \<in> bad1 tm \<inter> bad2 tm) \<and>
    (if redo fl' then pass_done ys tm fl tm' fl' else line_done x tm tm')"
proof -
  obtain fl' tm' where e: "scrubEntry False (line_at tm x) fl (tm, w) = (Inr fl', (tm', w))"
    and s: "scrub_state tm'" "same_manager tm tm'"
    and m1: "meta1E tm' = (if agree (dstE tm x) (meta2E tm x) then applied Replace (dstE tm) x (meta1E tm) else meta1E tm)"
    and m2: "meta2E tm' = (if agree (dstE tm x) (meta1E tm x) then applied Replace (dstE tm) x (meta2E tm) else meta2E tm)"
    and f: "flagged fl' \<longleftrightarrow> flagged fl \<or> \<not> agree (dstE tm x) (meta1E tm x) \<and> \<not> agree (dstE tm x) (meta2E tm x)"
    and r: "redo fl' \<longleftrightarrow> (agree (dstE tm x) (meta1E tm x) \<or> agree (dstE tm x) (meta2E tm x)) \<and>
      (dir_at (dstE tm) x \<or> dir_at (meta1E tm) x \<or> dir_at (meta2E tm) x)"
    using scrubEntry_step [OF st x, of fl w] fl by auto
  have in1: "z \<in> bad1 tm \<longleftrightarrow> \<not> agree (dstE tm z) (meta1E tm z)"
    and in2: "z \<in> bad2 tm \<longleftrightarrow> \<not> agree (dstE tm z) (meta2E tm z)" for z by (simp_all add: bad_def)
  have dst: "dstE tm' = dstE tm" using same_manager_dst [OF s(2)] by simp
  have b1: "bad1 tm' = (if x \<notin> bad2 tm then bad1 tm - {z. at_or_below x z} else bad1 tm)"
    and b2: "bad2 tm' = (if x \<notin> bad1 tm then bad2 tm - {z. at_or_below x z} else bad2 tm)"
    unfolding dst m1 m2 by (simp_all add: in1 in2 bad_applied)
  have one: "x \<in> bad1 tm \<or> x \<in> bad2 tm" using x by (auto simp: repairable_def in1 in2)
  have F: "flagged fl' \<longleftrightarrow> flagged fl \<or> x \<in> bad1 tm \<inter> bad2 tm" using f by (simp add: in1 in2)
  have "if redo fl' then pass_done ys tm fl tm' fl' else line_done x tm tm'"
  proof (cases "redo fl'")
    case True
    then have "x \<notin> bad1 tm \<inter> bad2 tm" using r by (auto simp: in1 in2)
    moreover have "x \<notin> bad1 tm' \<or> x \<in> bad2 tm" "x \<notin> bad2 tm' \<or> x \<in> bad1 tm" unfolding b1 b2 by simp_all
    moreover have "bad1 tm' \<subseteq> bad1 tm" "bad2 tm' \<subseteq> bad2 tm" unfolding b1 b2 by auto
    ultimately show ?thesis using True s one F by (auto simp: pass_done_def)
  next
    case False
    have nd: "x \<notin> bad1 tm \<inter> bad2 tm \<Longrightarrow> no_dirs tm x" using False r by (auto simp: no_dirs_def in1 in2)
    note leaf = repaired_leaf [OF st nd x]
    have ch: "meta1E tm' = (if x \<notin> bad2 tm then (meta1E tm)(x := dstE tm x) else meta1E tm)"
      "meta2E tm' = (if x \<notin> bad1 tm then (meta2E tm)(x := dstE tm x) else meta2E tm)"
      unfolding m1 m2 using leaf by (auto simp: in1 in2)
    have hd: "has_dir (meta1E tm') p = has_dir (meta1E tm) p \<and> has_dir (meta2E tm') p = has_dir (meta2E tm) p" for p
      unfolding ch using nd has_dir_update [of "meta1E tm" x "dstE tm" p] has_dir_update [of "meta2E tm" x "dstE tm" p]
      by (auto simp: no_dirs_def)
    have oth: "y \<noteq> x \<Longrightarrow> meta1E tm' y = meta1E tm y \<and> meta2E tm' y = meta2E tm y" for y unfolding ch by simp
    have "x \<notin> bad1 tm \<inter> bad2 tm \<Longrightarrow> x \<notin> bad1 tm' \<and> x \<notin> bad2 tm'" unfolding b1 b2 by auto
    then show ?thesis using False s nd hd oth b1 b2 by (auto simp: line_done_def)
  qed
  with e F show ?thesis by blast
qed

lemma line_done_ok:
  assumes "line_done x tm tm'" and "y \<noteq> x" and "repairable tm y"
  shows "repairable tm' y" and "line_at tm' y = line_at tm y" and "no_dirs tm' y = no_dirs tm y"
    and "y \<in> bad1 tm' \<longleftrightarrow> y \<in> bad1 tm" and "y \<in> bad2 tm' \<longleftrightarrow> y \<in> bad2 tm"
proof -
  have *: "dstTree tm' = dstTree tm" "meta1E tm' y = meta1E tm y" "meta2E tm' y = meta2E tm y"
    "has_dir (meta1E tm') (parent_path y) = has_dir (meta1E tm) (parent_path y)"
    "has_dir (meta2E tm') (parent_path y) = has_dir (meta2E tm) (parent_path y)"
    using assms(1,2) same_manager_dst by (auto simp: line_done_def)
  show "repairable tm' y" "line_at tm' y = line_at tm y" "no_dirs tm' y = no_dirs tm y"
    "y \<in> bad1 tm' \<longleftrightarrow> y \<in> bad1 tm" "y \<in> bad2 tm' \<longleftrightarrow> y \<in> bad2 tm"
    using assms(3) by (simp_all add: repairable_def no_dirs_def dir_at_def bad_def *)
qed

lemma pass_done_Cons:
  assumes line: "line_done x tm tm1" and fl: "flagged fl1 \<longleftrightarrow> flagged fl \<or> x \<in> bad1 tm \<inter> bad2 tm"
    and x: "x \<notin> set ys" and ok: "\<forall>y \<in> set ys. repairable tm y" and rest: "pass_done ys tm1 fl1 tm' fl'"
  shows "pass_done (x # ys) tm fl tm' fl'"
proof -
  have sub: "bad1 tm1 \<subseteq> bad1 tm" "bad2 tm1 \<subseteq> bad2 tm" "bad1 tm' \<subseteq> bad1 tm1" "bad2 tm' \<subseteq> bad2 tm1"
    using line rest by (simp_all add: line_done_def pass_done_def)
  have hd: "if x \<in> bad1 tm \<inter> bad2 tm then flagged fl' else no_dirs tm x \<and> x \<notin> bad1 tm' \<and> x \<notin> bad2 tm'"
    using line rest fl sub by (auto simp: line_done_def pass_done_def)
  have tl: "if y \<in> bad1 tm \<inter> bad2 tm then flagged fl' else no_dirs tm y \<and> y \<notin> bad1 tm' \<and> y \<notin> bad2 tm'"
    if "y \<in> set ys" and "\<not> redo fl'" for y
  proof -
    have "y \<noteq> x" "repairable tm y" using that(1) x ok by auto
    note same = line_done_ok(3-5) [OF line this]
    have "if y \<in> bad1 tm1 \<inter> bad2 tm1 then flagged fl' else no_dirs tm1 y \<and> y \<notin> bad1 tm' \<and> y \<notin> bad2 tm'"
      using rest that by (simp add: pass_done_def)
    then show ?thesis using same by auto
  qed
  have "flagged fl' \<Longrightarrow> flagged fl \<or> bad1 tm \<inter> bad2 tm \<noteq> {}"
    using rest fl sub unfolding pass_done_def by blast
  moreover have "redo fl' \<Longrightarrow> bad1 tm' \<noteq> bad1 tm \<or> bad2 tm' \<noteq> bad2 tm"
    using rest sub unfolding pass_done_def by blast
  moreover have "scrub_state tm'" "same_manager tm tm'" "flagged fl \<Longrightarrow> flagged fl'"
    using line rest fl same_manager_trans by (auto simp: line_done_def pass_done_def)
  ultimately show ?thesis using sub hd tl by (auto simp: pass_done_def)
qed

lemma scrubEntries_pass:
  assumes "scrub_state tm" and "\<not> redo fl" and "distinct ys" and "\<forall>y \<in> set ys. repairable tm y"
  shows "\<exists>fl' tm'. scrubEntries False (map (line_at tm) ys) fl (tm, w) = (Inr fl', (tm', w)) \<and>
    pass_done ys tm fl tm' fl'"
  using assms
proof (induction ys arbitrary: tm fl)
  case Nil
  then show ?case by (auto simp: io_simps pass_done_def same_manager_def)
next
  case (Cons x ys)
  obtain fl1 tm1 where e: "scrubEntry False (line_at tm x) fl (tm, w) = (Inr fl1, (tm1, w))"
    and f: "flagged fl1 \<longleftrightarrow> flagged fl \<or> x \<in> bad1 tm \<inter> bad2 tm"
    and c: "if redo fl1 then pass_done (x # ys) tm fl tm1 fl1 else line_done x tm tm1"
    using scrubEntry_cases [OF Cons.prems(1) _ Cons.prems(2)] Cons.prems(4) by (metis list.set_intros(1))
  show ?case
  proof (cases "redo fl1")
    case True
    with e c show ?thesis by (auto simp: bindIO_apply io_simps)
  next
    case False
    have line: "line_done x tm tm1" using c False by simp
    have "x \<notin> set ys" "distinct ys" "\<forall>y \<in> set ys. repairable tm y" using Cons.prems(3,4) by auto
    then have "repairable tm1 y \<and> line_at tm y = line_at tm1 y" if "y \<in> set ys" for y
      using line_done_ok(1,2) [OF line, of y] that by fastforce
    then have ok: "\<forall>y \<in> set ys. repairable tm1 y" "map (line_at tm) ys = map (line_at tm1) ys" by simp_all
    have "scrub_state tm1" using line by (simp add: line_done_def)
    from Cons.IH [OF this False \<open>distinct ys\<close> ok(1)] obtain fl' tm' where
      "scrubEntries False (map (line_at tm) ys) fl1 (tm1, w) = (Inr fl', (tm', w))"
      "pass_done ys tm1 fl1 tm' fl'" unfolding ok(2) by blast
    then show ?thesis
      using e False pass_done_Cons [OF line f \<open>x \<notin> set ys\<close> \<open>\<forall>y \<in> set ys. repairable tm y\<close>]
      by (auto simp: bindIO_apply)
  qed
qed

section \<open>The loop\<close>

lemma bad_reported:
  assumes st: "scrub_state tm"
    and nd: "\<And>x. reported3 compareAll (dstE tm) (meta1E tm) (meta2E tm) x \<Longrightarrow> no_dirs tm x"
    and z: "z \<in> bad1 tm \<union> bad2 tm"
  shows "reported3 compareAll (dstE tm) (meta1E tm) (meta2E tm) z"
proof -
  have wf: "wf_tree (dstTree tm)" "wf_tree (meta1Tree tm)" "wf_tree (meta2Tree tm)"
    using st by (auto simp: scrub_state_def)
  let ?d = "\<lambda>z. differs compareAll (dstE tm z) (meta1E tm z) \<or> differs compareAll (meta1E tm z) (meta2E tm z)"
  have "?d z \<Longrightarrow> reported3 compareAll (dstE tm) (meta1E tm) (meta2E tm) z" for z
  proof (induction "length z" arbitrary: z rule: less_induct)
    case less
    show ?case
    proof (rule ccontr)
      assume r: "\<not> ?case"
      have "reported3 compareAll (dstE tm) (meta1E tm) (meta2E tm) (parent_path z)"
        using less.hyps differing_parent(1,2) [OF wf less.prems r] by blast
      with nd differing_parent(3) [OF wf less.prems r] show False by (auto simp: no_dirs_def)
    qed
  qed
  moreover have "?d z"
    using st z agree_trans [of "dstE tm" "meta1E tm" z "meta2E tm z"]
    by (auto simp: scrub_state_def bad_def differs_agree)
  ultimately show ?thesis .
qed

text \<open>What holds between the beginning and the end of the loop.\<close>

definition loop_done :: "TreeManager \<Rightarrow> scrub_flags \<Rightarrow> TreeManager \<Rightarrow> scrub_flags \<Rightarrow> bool" where
  "loop_done tm fl tm' fl' \<longleftrightarrow> scrub_state tm' \<and> same_manager tm tm' \<and>
     bad1 tm' \<subseteq> bad1 tm \<and> bad2 tm' \<subseteq> bad2 tm \<and> (flagged fl \<longrightarrow> flagged fl') \<and>
     (flagged fl' \<longrightarrow> flagged fl \<or> bad1 tm \<inter> bad2 tm \<noteq> {}) \<and>
     (\<not> flagged fl' \<longrightarrow> bad1 tm' = {} \<and> bad2 tm' = {})"

lemma pass_loop_done:
  assumes st: "scrub_state tm" and p: "pass_done ys tm fl tm' fl'" and r: "\<not> redo fl'"
    and ys: "set ys = {x. reported3 compareAll (dstE tm) (meta1E tm) (meta2E tm) x}"
  shows "loop_done tm fl tm' fl'"
proof -
  have "bad1 tm' = {} \<and> bad2 tm' = {}" if f: "\<not> flagged fl'"
  proof -
    have all: "\<And>y. y \<in> set ys \<Longrightarrow> no_dirs tm y \<and> y \<notin> bad1 tm' \<and> y \<notin> bad2 tm'"
      using p r f unfolding pass_done_def by meson
    have "z \<in> set ys" if "z \<in> bad1 tm \<union> bad2 tm" for z
      using bad_reported [OF st _ that] all unfolding ys by blast
    then show ?thesis using all p unfolding pass_done_def by blast
  qed
  then show ?thesis using p by (auto simp: loop_done_def pass_done_def)
qed

definition scrub_measure :: "TreeManager \<Rightarrow> nat" where
  "scrub_measure tm = card (bad1 tm) + card (bad2 tm)"

lemma scrub_measure_less:
  assumes "bad1 tm' \<subseteq> bad1 tm" and "bad2 tm' \<subseteq> bad2 tm" and "bad1 tm' \<noteq> bad1 tm \<or> bad2 tm' \<noteq> bad2 tm"
  shows "scrub_measure tm' < scrub_measure tm"
proof -
  have "card (bad1 tm') \<le> card (bad1 tm)" "card (bad2 tm') \<le> card (bad2 tm)"
    "bad1 tm' \<noteq> bad1 tm \<Longrightarrow> card (bad1 tm') < card (bad1 tm)"
    "bad2 tm' \<noteq> bad2 tm \<Longrightarrow> card (bad2 tm') < card (bad2 tm)"
    using assms(1,2) finite_bad by (auto intro: card_mono psubset_card_mono)
  with assms(3) show ?thesis unfolding scrub_measure_def by linarith
qed

lemma loop_done_redo:
  assumes p: "pass_done ys tm fl tm1 fl1" and l: "loop_done tm1 (fl1\<lparr>redo := False\<rparr>) tm' fl'"
  shows "loop_done tm fl tm' fl'"
proof -
  have "flagged (fl1\<lparr>redo := False\<rparr>) = flagged fl1" by (simp add: flagged_def)
  then show ?thesis using p l same_manager_trans unfolding loop_done_def pass_done_def by blast
qed

context path_iteration begin

lemma scrubDiff_lines:
  assumes st: "scrub_state tm"
  shows "\<exists>xs. scrubDiff visit (tm, w) = (Inr (map (line_at tm) xs), (tm, w)) \<and> distinct xs \<and>
    set xs = {x. reported3 compareAll (dstE tm) (meta1E tm) (meta2E tm) x}"
proof -
  have "transitive_at compareAll (dstE tm) (meta1E tm) (meta2E tm) x" for x
    using st by (intro hashed_transitive) (simp_all add: scrub_state_def)
  with st diff3_reports [of "dstTree tm" "meta1Tree tm" "meta2Tree tm" compareAll]
  show ?thesis by (auto simp: scrubDiff_def bindIO_apply io_simps scrub_state_def)
qed

lemma scrubLoop_done:
  assumes "scrub_state tm" and "\<not> redo fl" and "scrub_measure tm < fuel"
    and "distinct xs" and "set xs = {x. reported3 compareAll (dstE tm) (meta1E tm) (meta2E tm) x}"
  shows "\<exists>fl' tm'. scrubLoop visit fuel False (map (line_at tm) xs) fl (tm, w) = (Inr fl', (tm', w)) \<and>
    loop_done tm fl tm' fl'"
  using assms
proof (induction fuel arbitrary: tm fl xs)
  case (Suc fuel)
  have "\<forall>y \<in> set xs. repairable tm y" using Suc.prems(1,5) reported_repairable by blast
  with scrubEntries_pass [OF Suc.prems(1,2,4)] obtain fl1 tm1 where
    e: "scrubEntries False (map (line_at tm) xs) fl (tm, w) = (Inr fl1, (tm1, w))"
    and p: "pass_done xs tm fl tm1 fl1" by blast
  show ?case
  proof (cases "redo fl1")
    case False
    with e pass_loop_done [OF Suc.prems(1) p False Suc.prems(5)] show ?thesis
      by (auto simp: bindIO_apply io_simps)
  next
    case True
    have st: "scrub_state tm1" using p by (simp add: pass_done_def)
    have "scrub_measure tm1 < scrub_measure tm"
      using p True by (intro scrub_measure_less) (simp_all add: pass_done_def)
    then have m: "scrub_measure tm1 < fuel" using Suc.prems(3) by simp
    obtain ys where ys: "scrubDiff visit (tm1, w) = (Inr (map (line_at tm1) ys), (tm1, w))" "distinct ys"
      "set ys = {x. reported3 compareAll (dstE tm1) (meta1E tm1) (meta2E tm1) x}"
      using scrubDiff_lines [OF st] by blast
    from Suc.IH [OF st _ m ys(2,3), of "fl1\<lparr>redo := False\<rparr>"] obtain fl' tm' where
      "scrubLoop visit fuel False (map (line_at tm1) ys) (fl1\<lparr>redo := False\<rparr>) (tm1, w) = (Inr fl', (tm', w))"
      "loop_done tm1 (fl1\<lparr>redo := False\<rparr>) tm' fl'" by auto
    then show ?thesis using e True ys(1) loop_done_redo [OF p] by (auto simp: bindIO_apply)
  qed
qed simp

lemma scrubImpl_check:
  assumes st: "scrub_state tm" and fuel: "scrub_measure tm < fuel"
  shows "\<exists>r tm'. scrubImpl visit fuel False (tm, w) = (Inr r, (tm', w)) \<and> r \<in> {0, 1, 2} \<and>
    scrub_state tm' \<and> dstTree tm' = dstTree tm \<and> bad1 tm' \<subseteq> bad1 tm \<and> bad2 tm' \<subseteq> bad2 tm \<and>
    (r = 0 \<longleftrightarrow> bad1 tm = {} \<and> bad2 tm = {}) \<and> (r \<le> 1 \<longrightarrow> bad1 tm' = {} \<and> bad2 tm' = {}) \<and>
    (bad1 tm \<inter> bad2 tm = {} \<longrightarrow> r \<le> 1)"
proof -
  obtain xs where xs: "scrubDiff visit (tm, w) = (Inr (map (line_at tm) xs), (tm, w))" "distinct xs"
    "set xs = {x. reported3 compareAll (dstE tm) (meta1E tm) (meta2E tm) x}"
    using scrubDiff_lines [OF st] by blast
  have wf: "wf_tree (dstTree tm)" "wf_tree (meta1Tree tm)" "wf_tree (meta2Tree tm)"
    and h: "hashed (dstE tm)" "hashed (meta1E tm)" using st by (auto simp: scrub_state_def)
  have "xs = [] \<longleftrightarrow> (\<forall>x. agree (dstE tm x) (meta1E tm x) \<and> agree (meta1E tm x) (meta2E tm x))"
    using xs(3) nothing_reported3_iff [OF wf] by auto
  also have "\<dots> \<longleftrightarrow> bad1 tm = {} \<and> bad2 tm = {}"
    using agree_trans [OF h] agree_trans [OF h(2,1)] agree_sym unfolding bad_def by blast
  finally have e: "xs = [] \<longleftrightarrow> bad1 tm = {} \<and> bad2 tm = {}" .
  obtain fl tm1 where l: "scrubLoop visit fuel False (map (line_at tm) xs) noFlags (tm, w) = (Inr fl, (tm1, w))"
    and d: "loop_done tm noFlags tm1 fl"
    using scrubLoop_done [OF st _ fuel xs(2,3), of noFlags w] by (auto simp: noFlags_def)
  have d': "scrub_state tm1" "dstTree tm1 = dstTree tm" "bad1 tm1 \<subseteq> bad1 tm" "bad2 tm1 \<subseteq> bad2 tm"
    "flagged fl \<Longrightarrow> bad1 tm \<inter> bad2 tm \<noteq> {}" "\<not> flagged fl \<Longrightarrow> bad1 tm1 = {} \<and> bad2 tm1 = {}"
    using d same_manager_dst by (auto simp: loop_done_def flagged_def noFlags_def)
  show ?thesis
  proof (cases "xs = []")
    case True
    with e xs(1) st show ?thesis by (auto simp: scrubImpl_def bindIO_apply io_simps)
  next
    case False
    with e d' xs(1) l show ?thesis
      by (auto simp: scrubImpl_def bindIO_apply io_simps updateManager_def saveMetadataOnExit_def
          saveMeta1PreviousVersion_def saveMeta2PreviousVersion_def flagged_def scrub_state_def)
  qed
qed

end

section \<open>Files\<close>

text \<open>Without repair of the backup directory a scrub changes the metadata trees only.\<close>

definition only_metas :: "TreeManager \<times> world \<Rightarrow> TreeManager \<times> world \<Rightarrow> bool" where
  "only_metas s s' \<longleftrightarrow> same_manager (fst s) (fst s') \<and> snd s' = snd s"

interpretation metas: frame only_metas
proof
  show "only_metas s s" for s by (simp add: only_metas_def same_manager_def)
  show "only_metas s t \<Longrightarrow> only_metas t u \<Longrightarrow> only_metas s u" for s t u
    using same_manager_trans unfolding only_metas_def by metis
qed

abbreviation checks :: "'a tmio \<Rightarrow> bool" where
  "checks m \<equiv> spec only_metas (\<lambda>_. True) m (\<lambda>_ _. True)"

lemma checks_bind: "checks m \<Longrightarrow> (\<And>x. checks (f x)) \<Longrightarrow> checks (bindIO m f)"
  by (rule metas.spec_bind)

lemma checks_update:
  "checks (updateMeta1 f)" "checks (updateMeta2 f)"
  by (auto simp: spec_def updateMeta1_def updateMeta2_def only_metas_def same_manager_def split: sum.splits)

lemma checks_basic: "checks (returnIO x)" "checks (throwIO e)" "checks (liftE r)" "checks (getIO g)"
  by (simp_all add: metas.spec_return metas.spec_throw metas.spec_lift metas.spec_get)

lemmas checks_intros = checks_bind checks_update checks_basic

lemma checks_scrubEntry: "checks (scrubEntry False d fl)"
  by (auto simp: scrubEntry_def split: prod.split intro!: checks_intros)

lemma checks_scrubEntries: "checks (scrubEntries False ds fl)"
  by (induction ds arbitrary: fl) (auto intro!: checks_intros checks_scrubEntry)

lemma checks_scrubDiff: "checks (scrubDiff visit)"
  unfolding scrubDiff_def by (intro checks_intros)

lemma checks_scrubLoop: "checks (scrubLoop visit fuel False ds fl)"
  by (induction fuel arbitrary: ds fl) (auto intro!: checks_intros checks_scrubEntries checks_scrubDiff)

lemma checksD:
  assumes "checks m" and "m (tm, w) = (r, (tm', w'))"
  shows "w' = w" and "save tm' = save tm"
proof -
  have *: "same_manager tm tm'" "w' = w"
    using specD(1) [OF assms(1) TrueI assms(2)] by (simp_all add: only_metas_def)
  then show "w' = w" "save tm' = save tm"
    by (simp, cases tm, cases tm', simp add: same_manager_def)
qed

lemma scrubImpl_unsaved:
  assumes run: "scrubImpl visit fuel False (tm, w) = (r, (tm', w'))"
  shows "w' = w \<and> (r \<noteq> Inr 1 \<longrightarrow> save tm' = save tm)"
proof -
  obtain a tm1 w1 where d: "scrubDiff visit (tm, w) = (a, (tm1, w1))" by (metis prod.collapse)
  note kd = checksD [OF checks_scrubDiff d]
  show ?thesis
  proof (cases "\<exists>ds. a = Inr ds \<and> ds \<noteq> []")
    case False
    with run d kd show ?thesis by (cases a) (auto simp: scrubImpl_def bindIO_apply io_simps)
  next
    case True
    then obtain ds where ds: "a = Inr ds" "ds \<noteq> []" by blast
    obtain b tm2 w2 where l: "scrubLoop visit fuel False ds noFlags (tm1, w1) = (b, (tm2, w2))" by (metis prod.collapse)
    note kl = checksD [OF checks_scrubLoop l]
    from run d l ds kd kl show ?thesis
      by (cases b) (auto simp: scrubImpl_def bindIO_apply io_simps updateManager_def saveMetadataOnExit_def
          saveMeta1PreviousVersion_def saveMeta2PreviousVersion_def split: if_splits)
  qed
qed

lemma withTreeManager_unsaved:
  assumes run: "withTreeManager c (scrubImpl visit fuel False) w = (r, w')" and c: "reads c"
    and init: "\<And>tm w0 w1. c w0 = (Inr tm, w1) \<Longrightarrow> \<not> save tm"
    and r: "r \<noteq> Inr 1" "\<forall>e. r = Inl e \<longrightarrow> is_exception e"
  shows "same_system w w'"
proof (cases "c w")
  case (Pair a w1)
  have s: "same_system w w1" using readsD [OF c Pair] .
  show ?thesis
  proof (cases a)
    case (Inl e)
    with Pair run s show ?thesis by (auto simp: withTreeManager_def bindIO_apply)
  next
    case (Inr tm)
    obtain r1 tm1 w2 where b: "scrubImpl visit fuel False (tm, w1) = (r1, (tm1, w2))" by (metis prod.collapse)
    have w2: "w2 = w1" "r1 \<noteq> Inr 1 \<Longrightarrow> \<not> save tm1"
      using scrubImpl_unsaved [OF b] init [of w tm w1] Pair Inr by auto
    show ?thesis
    proof (cases "r1 = Inr 1")
      case True
      with run Pair Inr b r show ?thesis
        by (auto simp: withTreeManager_def bindIO_apply is_exception_def
            split: prod.splits sum.splits if_splits exn.splits)
    next
      case False
      with run Pair Inr b s w2 show ?thesis
        by (auto simp: withTreeManager_def bindIO_apply destroyTreeManager_def io_simps
            split: sum.splits if_splits)
    qed
  qed
qed

lemma scrub_unsaved:
  assumes "scrub sha visit fuel dst m1 m2 False w = (r, w')" and "r \<noteq> Inr 1" and "\<forall>e. r = Inl e \<longrightarrow> is_exception e"
  shows "same_system w w'"
proof (rule withTreeManager_unsaved [OF _ reads_treeManagers(2) _ assms(2,3)])
  show "withTreeManager (treeManagerWithoutSource sha dst m1 m2 ComputeHash) (scrubImpl visit fuel False) w = (r, w')"
    using assms(1) by (simp add: scrub_def)
  show "treeManagerWithoutSource sha dst m1 m2 ComputeHash w0 = (Inr tm, w1) \<Longrightarrow> \<not> save tm" for tm w0 w1
    by (auto simp: treeManagerWithoutSource_def bindIO_Inr_iff newTreeManager_def io_simps split: prod.splits)
qed

lemma scrubWithSource_unsaved:
  assumes "scrubWithSource sha visit fuel src dst m1 m2 False threads w = (r, w')" and "r \<noteq> Inr 1"
    and "\<forall>e. r = Inl e \<longrightarrow> is_exception e"
  shows "same_system w w'"
proof (rule withTreeManager_unsaved [OF _ reads_treeManagers(1) _ assms(2,3)])
  show "withTreeManager (treeManagerWithSource sha src dst m1 m2 ComputeHash threads)
      (scrubImpl visit fuel False) w = (r, w')"
    using assms(1) by (simp add: scrubWithSource_def)
  show "treeManagerWithSource sha src dst m1 m2 ComputeHash threads w0 = (Inr tm, w1) \<Longrightarrow> \<not> save tm" for tm w0 w1
    by (auto simp: treeManagerWithSource_def bindIO_Inr_iff newTreeManager_def io_simps split: prod.splits)
qed

end
