(* ===== verification/Ddm_Exit.thy ===== *)
theory Ddm_Exit
  imports Ddm_Cli
begin

text \<open>
  The exit codes of the program. Whatever the trees, files and failures are, a run that ends gives
  one of the documented codes, and no exception leaves \<^verbatim>\<open>main\<close>.
\<close>

definition yields :: "'a set \<Rightarrow> ('s, 'a) io \<Rightarrow> bool" where
  "yields A m \<longleftrightarrow> (\<forall>s x s'. m s = (Inr x, s') \<longrightarrow> x \<in> A)"

named_theorems yielding \<open>results of computations\<close>

lemma yieldsI: "(\<And>s x s'. m s = (Inr x, s') \<Longrightarrow> x \<in> A) \<Longrightarrow> yields A m"
  by (simp add: yields_def)

lemma yieldsD: "yields A m \<Longrightarrow> m s = (Inr x, s') \<Longrightarrow> x \<in> A"
  by (auto simp: yields_def)

lemma yields_return [yielding]: "x \<in> A \<Longrightarrow> yields A (returnIO x)"
  by (simp add: yields_def io_simps)

lemma yields_throw [yielding]: "yields A (throwIO e)"
  by (simp add: yields_def io_simps)

lemma yields_if [yielding]: "yields A m \<Longrightarrow> yields A n \<Longrightarrow> yields A (if b then m else n)"
  by simp

lemma yields_bind: "yields A m \<Longrightarrow> (\<And>x. x \<in> A \<Longrightarrow> yields B (f x)) \<Longrightarrow> yields B (bindIO m f)"
  unfolding yields_def bindIO_Inr_iff by blast

lemma yields_bind_any [yielding]: "(\<And>x. yields A (f x)) \<Longrightarrow> yields A (bindIO m f)"
  unfolding yields_def bindIO_Inr_iff by blast

lemma yields_catch: "yields A m \<Longrightarrow> (\<And>e. yields A (h e)) \<Longrightarrow> yields A (catchIO m h)"
  by (auto simp: yields_def catchIO_def split: prod.splits sum.splits if_splits)

lemma yields_withTreeManager [yielding]:
  assumes "yields A body"
  shows "yields A (withTreeManager c body)"
  unfolding withTreeManager_def
proof (rule yields_bind_any)
  fix tm
  have "x \<in> A" if "(case body (tm, w) of (r, tm, w) \<Rightarrow>
       if (case r of Inl e \<Rightarrow> \<not> is_exception e | Inr _ \<Rightarrow> False) then (r, w)
       else (case destroyTreeManager tm w of (Inr _, w) \<Rightarrow> (r, w)
         | (Inl e, w) \<Rightarrow> (Inl (if is_exception e then Abort else e), w))) = (Inr x, w')" for x w w'
    using that yieldsD [OF assms] by (cases "body (tm, w)") (fastforce split: prod.splits sum.splits if_splits)
  then show "yields A (\<lambda>w. case body (tm, w) of (r, tm, w) \<Rightarrow>
       if (case r of Inl e \<Rightarrow> \<not> is_exception e | Inr _ \<Rightarrow> False) then (r, w)
       else (case destroyTreeManager tm w of (Inr _, w) \<Rightarrow> (r, w)
         | (Inl e, w) \<Rightarrow> (Inl (if is_exception e then Abort else e), w)))"
    unfolding yields_def by blast
qed

lemma yields_scrubImpl: "yields {0, 1, 2} (scrubImpl visit fuel fixup)"
  unfolding scrubImpl_def by (intro yielding) simp_all

lemma yields_scrub [yielding]:
  "yields {0, 1, 2} (scrub sha visit fuel dst m1 m2 fixup)"
  "yields {0, 1, 2} (scrubWithSource sha visit fuel src dst m1 m2 fixup threads)"
  unfolding scrub_def scrubWithSource_def by (intro yielding yields_scrubImpl)+

lemma yields_backupImpl: "yields {0, 2} (backupImpl visit src)"
  unfolding backupImpl_def by (intro yielding) simp

lemma yields_inManager: "yields A m \<Longrightarrow> yields A (inManager m)"
  by (rule yieldsI) (auto simp: inManager_def split: prod.splits dest: yieldsD)

lemma yields_backupBody: "yields {0, 1, 2} (backupBody sha visit fuel dst fixup hashAllFiles)"
  unfolding backupBody_def Let_def
proof (rule yields_bind [OF yields_scrubImpl])
  fix r :: int assume "r \<in> {0, 1, 2}"
  then show "yields {0, 1, 2} (bindIO (if r = 1 then inWorld askYesNo else returnIO True) (\<lambda>yes.
     if \<not> yes \<or> r = 2 then returnIO r
     else
       bindIO (updateManager discardMeta2Tree) (\<lambda>_.
       bindIO (updateManager saveMetadataOnExit) (\<lambda>_.
       bindIO (getIO fst) (\<lambda>tm.
       bindIO (liftE (assertE (srcTreePresent tm))) (\<lambda>_.
       bindIO (inManager (backupImpl visit (srcTree tm))) (\<lambda>result2.
       bindIO (if hashAllFiles then returnIO () else computeMeta1Hashes sha dst) (\<lambda>_.
       returnIO (if result2 \<noteq> 0 then result2 else r)))))))))"
    by (intro yields_bind_any yields_if yields_return yields_bind [OF yields_inManager [OF yields_backupImpl]]) auto
qed

lemma yields_backup [yielding]:
  "yields {0, 1, 2} (backup sha visit fuel src dst m1 m2 fixup hashAllFiles threads)"
  unfolding backup_def by (intro yielding yields_backupBody)

lemma yields_backupWithoutMetadata: "yields {0, 2} (backupWithoutMetadata sha visit src dst threads)"
  unfolding yields_def backupWithoutMetadata_def bindIO_Inr_iff
  using yieldsD [OF yields_backupImpl] by (fastforce split: prod.splits)

definition exit_code :: "int \<times> string \<Rightarrow> bool" where
  "exit_code r \<longleftrightarrow> fst r \<in> {0, 1, 2, 10, 100}"

lemma yields_runCommand: "yields {r. exit_code r} (runCommand sha visit fuel cmd vm)"
proof -
  have "yields {r. exit_code r} (lsCmd sha vm)" "yields {r. exit_code r} (diffCmd sha visit vm)"
    unfolding lsCmd_def diffCmd_def Let_def by (intro yielding; simp add: exit_code_def)+
  moreover have "yields {r. exit_code r} (scrubCmd sha visit fuel vm)"
    unfolding scrubCmd_def Let_def
    by (intro yields_if yields_return yields_bind [where A = "{0, 1, 2}"])
      (auto simp: exit_code_def split: option.split intro: yielding)
  moreover have "yields {0, 1, 2} (backupWithoutMetadata sha visit src dst threads)" for src dst threads
    using yields_backupWithoutMetadata [of sha visit src dst threads] unfolding yields_def by blast
  then have "yields {r. exit_code r} (backupCmd sha visit fuel vm)"
    unfolding backupCmd_def
    by (auto simp: exit_code_def split: option.split
        intro!: yields_if yields_return yields_bind [where A = "{0, 1, 2}"] yields_backup)
  ultimately show ?thesis unfolding runCommand_def
    by (intro yields_if yields_return) (auto simp: exit_code_def)
qed

lemma catchIO_no_exception:
  assumes "\<And>e s. h e s \<noteq> (Inl e', s')" and "catchIO m h s = (Inl e', s')"
  shows "\<not> is_exception e'"
  using assms by (auto simp: catchIO_def split: prod.splits sum.splits if_splits)

lemma ddm_main_code:
  assumes "ddm_main sha visit fuel parsed w = (Inr r, w')"
  shows "exit_code r"
proof -
  have code: "exit_code (100, t)" "exit_code (10, t)" "exit_code (c, t) \<Longrightarrow> exit_code (c, u)" for c t u
    by (auto simp: exit_code_def)
  have "yields {r. exit_code r} (ddm_main sha visit fuel parsed)"
    unfolding ddm_main_def
    by (intro yields_catch yields_bind_any)
      (auto split: option.split prod.split simp: code
        intro!: yields_bind_any yields_if yields_return yields_runCommand yields_bind [OF yields_runCommand])
  then show ?thesis using assms yieldsD by fastforce
qed

lemma ddm_main_no_exception:
  assumes "ddm_main sha visit fuel parsed w = (Inl e, w')"
  shows "\<not> is_exception e"
  using assms unfolding ddm_main_def by (rule catchIO_no_exception [rotated]) (simp add: io_simps)

end
