(* ===== verification/Ddm_Names.thy ===== *)
theory Ddm_Names
  imports Ddm_Read_Only
begin

text \<open>
  The translation between numbers and names of users and groups (extfs.cpp). Both directions fill
  both caches. The contract of a translation is a locale; the functions for users and the ones for
  groups are its two instances.
\<close>

definition name_of :: "(nat \<times> string) list \<Rightarrow> nat \<Rightarrow> string" where
  "name_of db n = (case map_of db n of Some s \<Rightarrow> s | None \<Rightarrow> to_string (int n))"

text \<open>
  The caches agree with the data base of the system, and a name that was given out can be
  translated back without asking the system.
\<close>

definition caches_agree ::
  "(nat \<times> string) list \<Rightarrow> (nat \<Rightarrow> string option) \<Rightarrow> (string \<Rightarrow> nat option) \<Rightarrow> bool" where
  "caches_agree db c r \<longleftrightarrow>
     (\<forall>n s. c n = Some s \<longrightarrow> s = name_of db n \<and> r s \<noteq> None) \<and> (\<forall>s n. r s = Some n \<longrightarrow> name_of db n = s)"

lemma caches_agree_empty: "caches_agree db (\<lambda>_. None) (\<lambda>_. None)"
  by (simp add: caches_agree_def)

lemma caches_agree_insert:
  assumes "caches_agree db c r" and "s = name_of db n"
  shows "caches_agree db (insert_new n s c) (insert_new s n r)"
  using assms by (auto simp: caches_agree_def insert_new_def)

locale name_service =
  fixes db :: "world \<Rightarrow> (nat \<times> string) list"
    and cache :: "world \<Rightarrow> nat \<Rightarrow> string option"
    and reverse :: "world \<Rightarrow> string \<Rightarrow> nat option"
    and remember :: "nat \<Rightarrow> string \<Rightarrow> world \<Rightarrow> world"
    and err :: "string \<Rightarrow> exn"
    and look_name :: "nat \<Rightarrow> string wio"
    and look_id :: "string \<Rightarrow> nat wio"
  assumes look_name: "faults w = [] \<Longrightarrow> look_name n w = (case cache w n of Some s \<Rightarrow> (Inr s, w)
        | None \<Rightarrow> (Inr (name_of (db w) n), remember n (name_of (db w) n) w))"
    and look_id: "faults w = [] \<Longrightarrow> look_id s w = (case reverse w s of Some n \<Rightarrow> (Inr n, w)
        | None \<Rightarrow> (case map_of (map prod.swap (db w)) s of
            Some n \<Rightarrow> (Inr n, remember n s w)
          | None \<Rightarrow> (Inl (err s), w)))"
    and remembers: "cache (remember n s w) = insert_new n s (cache w)"
      "reverse (remember n s w) = insert_new s n (reverse w)" "db (remember n s w) = db w"
      "faults (remember n s w) = faults w"
begin

lemma name_found:
  assumes "faults w = []" and "caches_agree (db w) (cache w) (reverse w)"
  shows "\<exists>w'. look_name n w = (Inr (name_of (db w) n), w') \<and> caches_agree (db w') (cache w') (reverse w') \<and> faults w' = [] \<and> db w' = db w \<and>
    reverse w' (name_of (db w) n) \<noteq> None"
proof (cases "cache w n")
  case None
  have "insert_new s n (reverse w) s \<noteq> None" for s by (simp add: insert_new_def)
  with None show ?thesis
    using assms look_name [OF assms(1), of n] caches_agree_insert [OF assms(2) refl, of n] by (auto simp: remembers)
next
  case (Some s)
  then show ?thesis using assms look_name [OF assms(1), of n] by (auto simp: caches_agree_def)
qed

lemma id_names:
  assumes w: "faults w = []" "caches_agree (db w) (cache w) (reverse w)" and d: "distinct (map fst (db w))" and r: "look_id s w = (Inr n, w')"
  shows "name_of (db w) n = s \<and> caches_agree (db w') (cache w') (reverse w') \<and> faults w' = []"
proof (cases "reverse w s")
  case (Some m)
  then show ?thesis using w r look_id [OF w(1), of s] by (auto simp: caches_agree_def)
next
  case None
  then have m: "map_of (map prod.swap (db w)) s = Some n" "w' = remember n s w"
    using r look_id [OF w(1), of s] by (auto split: option.splits)
  have "(s, n) \<in> set (map prod.swap (db w))" using m(1) by (rule map_of_SomeD)
  then have "(n, s) \<in> set (db w)" by auto
  then have "name_of (db w) n = s" using d by (simp add: name_of_def)
  then show ?thesis using w m(2) caches_agree_insert [of "db w" "cache w" "reverse w" s n]
    by (simp add: remembers)
qed

lemma id_known:
  assumes "faults w = []" and "caches_agree (db w) (cache w) (reverse w)" and "reverse w s \<noteq> None"
  shows "\<exists>n. look_id s w = (Inr n, w) \<and> name_of (db w) n = s"
  using assms look_id [OF assms(1), of s] by (auto simp: caches_agree_def)

lemma name_id_roundtrip:
  assumes "faults w = []" and "caches_agree (db w) (cache w) (reverse w)"
  shows "\<exists>s w' m. look_name n w = (Inr s, w') \<and> look_id s w' = (Inr m, w') \<and>
    name_of (db w) n = s \<and> name_of (db w) m = s"
proof -
  obtain w' where w': "look_name n w = (Inr (name_of (db w) n), w')" "caches_agree (db w') (cache w') (reverse w')" "faults w' = []" "db w' = db w"
    "reverse w' (name_of (db w) n) \<noteq> None"
    using name_found [OF assms] by blast
  then show ?thesis using id_known [OF w'(3,2,5)] by auto
qed

end

definition rememberUser :: "nat \<Rightarrow> string \<Rightarrow> world \<Rightarrow> world" where
  "rememberUser uid user w = w\<lparr>userCache := insert_new uid user (userCache w),
     userReverseCache := insert_new user uid (userReverseCache w)\<rparr>"

definition rememberGroup :: "nat \<Rightarrow> string \<Rightarrow> world \<Rightarrow> world" where
  "rememberGroup gid grp w = w\<lparr>groupCache := insert_new gid grp (groupCache w),
     groupReverseCache := insert_new grp gid (groupReverseCache w)\<rparr>"

interpretation users: name_service passwd userCache userReverseCache rememberUser
  "\<lambda>user. Runtime_error (''ext_lookup_user(const string& user): user '' @ user @ '' not found in the system'')"
  ext_lookup_user ext_lookup_user_id
  by unfold_locales (auto simp: ext_lookup_user_def ext_lookup_user_id_def faulty_def rememberUser_def name_of_def Let_def
      split: option.splits)

interpretation grps: name_service groups groupCache groupReverseCache rememberGroup
  "\<lambda>grp. Runtime_error (''ext_lookup_group(const string& group): group '' @ grp @ '' not found in the system'')"
  ext_lookup_group ext_lookup_group_id
  by unfold_locales (auto simp: ext_lookup_group_def ext_lookup_group_id_def faulty_def rememberGroup_def name_of_def Let_def
      split: option.splits)

section \<open>A system without failures\<close>

text \<open>No call is about to fail, and the caches agree with the system.\<close>

definition calm :: "world \<Rightarrow> bool" where
  "calm w \<longleftrightarrow> faults w = [] \<and> caches_agree (passwd w) (userCache w) (userReverseCache w) \<and> caches_agree (groups w) (groupCache w) (groupReverseCache w)"

abbreviation user_of :: "world \<Rightarrow> nat \<Rightarrow> string" where
  "user_of w \<equiv> name_of (passwd w)"

abbreviation group_of :: "world \<Rightarrow> nat \<Rightarrow> string" where
  "group_of w \<equiv> name_of (groups w)"

lemma user_found:
  assumes "calm w"
  shows "\<exists>w'. ext_lookup_user uid w = (Inr (user_of w uid), w') \<and> calm w' \<and> same_system w w'"
proof -
  obtain w' where w': "ext_lookup_user uid w = (Inr (user_of w uid), w')" "caches_agree (passwd w') (userCache w') (userReverseCache w')" "faults w' = []"
    using users.name_found [of w] assms unfolding calm_def by blast
  have "groupCache w' = groupCache w" "groupReverseCache w' = groupReverseCache w" "groups w' = groups w"
    using w'(1) assms by (auto simp: ext_lookup_user_def faulty_def calm_def Let_def split: option.splits)
  then have "calm w'" using w' assms by (simp add: calm_def)
  with w'(1) readsD [OF reads_ext_lookup_user w'(1)] show ?thesis by blast
qed

lemma group_found:
  assumes "calm w"
  shows "\<exists>w'. ext_lookup_group gid w = (Inr (group_of w gid), w') \<and> calm w' \<and> same_system w w'"
proof -
  obtain w' where w': "ext_lookup_group gid w = (Inr (group_of w gid), w')" "caches_agree (groups w') (groupCache w') (groupReverseCache w')" "faults w' = []"
    using grps.name_found [of w] assms unfolding calm_def by blast
  have "userCache w' = userCache w" "userReverseCache w' = userReverseCache w" "passwd w' = passwd w"
    using w'(1) assms by (auto simp: ext_lookup_group_def faulty_def calm_def Let_def split: option.splits)
  then have "calm w'" using w' assms by (simp add: calm_def)
  with w'(1) readsD [OF reads_ext_lookup_group w'(1)] show ?thesis by blast
qed

end
