(* ===== verification/Ddm_Resolve.thy ===== *)
theory Ddm_Resolve
  imports Ddm_Names
begin

text \<open>
  Where the paths of a scan lead. A relative path is a list of names; below a directory whose
  path may go through symbolic links, the path of an entry resolves to the key of the directory
  followed by these names.
\<close>

section \<open>Relative paths as lists of names\<close>

definition rel_path :: "string list \<Rightarrow> path" where
  "rel_path ks = foldl path_append [] ks"

lemma rel_path_Nil [simp]: "rel_path [] = []"
  by (simp add: rel_path_def)

lemma rel_path_snoc: "rel_path (ks @ [n]) = child (rel_path ks) n"
  by (simp add: rel_path_def)

definition names_ok :: "string list \<Rightarrow> bool" where
  "names_ok ks \<longleftrightarrow> (\<forall>n \<in> set ks. valid_name n)"

lemma names_ok_simps [simp]:
  "names_ok []" "names_ok (n # ks) \<longleftrightarrow> valid_name n \<and> names_ok ks"
  "names_ok (ks @ ls) \<longleftrightarrow> names_ok ks \<and> names_ok ls"
  by (auto simp: names_ok_def)

lemma dir_path_rel: "names_ok ks \<Longrightarrow> dir_path (rel_path ks)"
  by (induction ks rule: rev_induct) (simp_all add: rel_path_snoc dir_path_child)

lemma rel_path_eq_Nil: "names_ok ks \<Longrightarrow> rel_path ks = [] \<longleftrightarrow> ks = []"
  by (cases ks rule: rev_cases) (simp_all add: rel_path_snoc dir_path_rel)

lemma elements_rel: "names_ok ks \<Longrightarrow> path_elements (rel_path ks) = ks"
proof (induction ks rule: rev_induct)
  case Nil
  show ?case by (simp add: path_elements_def)
qed (simp add: rel_path_snoc path_elements_child dir_path_rel)

lemma rel_path_inj: "names_ok ks \<Longrightarrow> names_ok ls \<Longrightarrow> rel_path ks = rel_path ls \<longleftrightarrow> ks = ls"
  using elements_rel by metis

lemma not_has_root_rel: "names_ok ks \<Longrightarrow> \<not> has_root (rel_path ks)"
proof (induction ks rule: rev_induct)
  case Nil
  show ?case by (simp add: has_root_def)
qed (simp add: rel_path_snoc has_root_child dir_path_rel)

lemma parent_rel: "names_ok ks \<Longrightarrow> ks \<noteq> [] \<Longrightarrow> parent_path (rel_path ks) = rel_path (butlast ks)"
  by (cases ks rule: rev_cases) (simp_all add: rel_path_snoc dir_path_rel)

lemma at_or_below_rel:
  assumes "names_ok ks" and "names_ok ls"
  shows "at_or_below (rel_path ks) (rel_path ls) \<longleftrightarrow> prefix ks ls"
  using assms(2)
proof (induction ls rule: rev_induct)
  case Nil
  then show ?case using rel_path_eq_Nil [OF assms(1)] by (auto simp: at_or_below_def dest: below_not_Nil)
next
  case (snoc n ls)
  then have ls: "dir_path (rel_path ls)" "valid_name n" "names_ok (ls @ [n])" by (simp_all add: dir_path_rel)
  have "at_or_below (rel_path ks) (rel_path (ls @ [n])) \<longleftrightarrow>
      rel_path (ls @ [n]) = rel_path ks \<or> at_or_below (rel_path ks) (rel_path ls)"
    using below_child_iff [OF ls(1,2)] by (simp add: at_or_below_def rel_path_snoc)
  also have "\<dots> \<longleftrightarrow> prefix ks (ls @ [n])"
    using snoc rel_path_inj [OF ls(3) assms(1)] by auto
  finally show ?case .
qed

lemma below_rel:
  assumes "names_ok ks" and "names_ok ls"
  shows "below (rel_path ks) (rel_path ls) \<longleftrightarrow> strict_prefix ks ls"
  using at_or_below_rel [OF assms] rel_path_inj [OF assms] not_below_self
  by (auto simp: at_or_below_def strict_prefix_def)

section \<open>Paths below a top directory\<close>

text \<open>The path of the top directory without the separator at its end.\<close>

definition trim :: "path \<Rightarrow> path" where
  "trim p = (if p \<noteq> [] \<and> last p = sep then butlast p else p)"

definition top_path :: "path \<Rightarrow> bool" where
  "top_path p \<longleftrightarrow> has_root p \<and> dir_path (trim p)"

lemma top_path_cases:
  assumes "top_path p"
  obtains "p = trim p" "trim p \<noteq> []" | "p = trim p @ [sep]"
proof -
  have ne: "p \<noteq> []" using assms by (auto simp: top_path_def has_root_def)
  show ?thesis
  proof (cases "last p = sep")
    case True
    then have "p = trim p @ [sep]" using append_butlast_last_id [OF ne] ne by (simp add: trim_def)
    then show ?thesis by (rule that(2))
  next
    case False
    then have "trim p = p" by (simp add: trim_def)
    then show ?thesis using that(1) ne by metis
  qed
qed

lemma has_root_append: "a \<noteq> [] \<Longrightarrow> has_root (a @ b) = has_root a"
  by (cases a) (simp_all add: has_root_def)

lemma trim_root: "top_path p \<Longrightarrow> trim p \<noteq> [] \<Longrightarrow> has_root (trim p)"
  by (metis has_root_append top_path_cases top_path_def)

lemma path_append_top:
  assumes "top_path p" and "\<not> has_root x"
  shows "path_append p x = trim p @ sep # x"
proof -
  have d: "dir_path (trim p)" using assms(1) by (simp add: top_path_def)
  have "path_append (trim p @ [sep]) x = trim p @ sep # x" using assms(2) by (simp add: path_append_def path_filename_def)
  moreover have "trim p \<noteq> [] \<Longrightarrow> path_append (trim p) x = trim p @ sep # x"
    using assms(2) path_filename_dir_path [OF d] by (simp add: path_append_def)
  ultimately show ?thesis using top_path_cases [OF assms(1)] by metis
qed

lemma top_rel:
  assumes "top_path p" and "names_ok ks"
  shows "path_append p (rel_path ks) = trim p @ sep # rel_path ks"
    and "valid_name n \<Longrightarrow> path_append (path_append p (rel_path ks)) n = path_append p (rel_path (ks @ [n]))"
proof -
  show *: "path_append p (rel_path ks) = trim p @ sep # rel_path ks"
    using assms by (intro path_append_top) (simp_all add: not_has_root_rel)
  show "valid_name n \<Longrightarrow> path_append (path_append p (rel_path ks)) n = path_append p (rel_path (ks @ [n]))"
  proof -
    assume n: "valid_name n"
    have r: "path_append p (rel_path (ks @ [n])) = trim p @ sep # child (rel_path ks) n"
      using assms n not_has_root_rel [of "ks @ [n]"] by (subst path_append_top) (simp_all add: rel_path_snoc)
    show ?thesis
    proof (cases "ks = []")
      case True
      moreover have "path_filename (trim p @ [sep]) = []" by (simp add: path_filename_def)
      ultimately show ?thesis using n r not_has_root_name [OF n] child_eq [OF dir_path_Nil n]
        unfolding * by (simp add: path_append_def)
    next
      case False
      have d: "dir_path (rel_path ks)" "rel_path ks \<noteq> []"
        using assms(2) False by (simp_all add: dir_path_rel rel_path_eq_Nil)
      then have "dir_path (trim p @ sep # rel_path ks)" by (simp add: dir_path_def)
      then show ?thesis using d n r unfolding * by (simp add: child_eq)
    qed
  qed
qed

lemma elements_top:
  assumes "top_path p"
  shows "path_elements p = path_elements (trim p) \<or> path_elements p = path_elements (trim p) @ [[]]"
    and "path_elements (trim p @ [sep]) = path_elements (trim p) @ (if trim p = [] then [] else [[]])"
    and "names_ok ks \<Longrightarrow> ks \<noteq> [] \<Longrightarrow> path_elements (trim p @ sep # rel_path ks) = path_elements (trim p) @ ks"
proof -
  have d: "dir_path (trim p)" using assms by (simp add: top_path_def)
  have sl: "path_elements (trim p @ [sep]) = path_elements (trim p) @ [[]]" if ne: "trim p \<noteq> []"
  proof -
    have l: "last (trim p) \<noteq> sep" using d ne by (simp add: dir_path_def)
    let ?s = "dropWhile (\<lambda>c. c = sep) (trim p)"
    have s: "?s \<noteq> []" using last_in_set [OF ne] l by auto
    then have "last ?s = last (trim p)" by (rule last_dropWhile)
    then show ?thesis using s l names_of_append [of ?s "[]"] dropWhile_append_not_Nil [OF s, of "[sep]"]
      by (simp add: path_elements_def)
  qed
  have "path_elements [sep] = path_elements []" by (simp add: path_elements_def)
  then show "path_elements (trim p @ [sep]) = path_elements (trim p) @ (if trim p = [] then [] else [[]])"
    using sl by simp
  show "path_elements p = path_elements (trim p) \<or> path_elements p = path_elements (trim p) @ [[]]"
    using \<open>path_elements [sep] = path_elements []\<close> sl top_path_cases [OF assms] by (metis append_Nil)
  show "path_elements (trim p @ sep # rel_path ks) = path_elements (trim p) @ ks" if "names_ok ks" "ks \<noteq> []"
    using that
  proof (induction ks rule: rev_induct)
    case (snoc n ks)
    then have n: "valid_name n" "names_ok ks" by simp_all
    show ?case
    proof (cases "ks = []")
      case True
      then show ?thesis using n(1) d path_elements_child [OF d n(1)] child_eq [OF d n(1)] path_elements_name [OF n(1)]
          child_eq [OF dir_path_Nil n(1)]
        by (cases "trim p = []") (simp_all add: rel_path_def, simp_all add: path_elements_def)
    next
      case False
      then have d': "dir_path (rel_path ks)" "rel_path ks \<noteq> []" using n by (simp_all add: dir_path_rel rel_path_eq_Nil)
      let ?q = "trim p @ sep # rel_path ks"
      have "dir_path ?q" using d' by (simp add: dir_path_def)
      moreover have "trim p @ sep # rel_path (ks @ [n]) = child ?q n"
        using d' n calculation by (simp add: rel_path_snoc child_eq)
      ultimately show ?thesis using snoc.IH n False by (simp add: path_elements_child)
    qed
  qed simp
qed

lemma strip_common_append: "strip_common (xs @ ys) (xs @ zs) = strip_common ys zs"
  by (induction xs) simp_all

text \<open>The relative path of an entry of a scan.\<close>

lemma relative_top:
  assumes "top_path p" and "names_ok ks" and "ks \<noteq> []"
  shows "lexically_relative (path_append p (rel_path ks)) p = rel_path ks"
proof -
  have r: "has_root (trim p @ sep # rel_path ks) = has_root p"
    using trim_root [OF assms(1)] assms(1) by (cases "trim p") (auto simp: top_path_def has_root_def)
  have "strip_common (path_elements (trim p @ sep # rel_path ks)) (path_elements p) = (ks, []) \<or>
      strip_common (path_elements (trim p @ sep # rel_path ks)) (path_elements p) = (ks, [[]])"
    using elements_top(1) [OF assms(1)]
  proof
    assume e: "path_elements p = path_elements (trim p)"
    show ?thesis unfolding elements_top(3) [OF assms] e
      using strip_common_append [of _ ks "[]"] by (cases ks) simp_all
  next
    assume e: "path_elements p = path_elements (trim p) @ [[]]"
    show ?thesis unfolding elements_top(3) [OF assms] e strip_common_append
      using assms(2,3) by (cases ks) auto
  qed
  then show ?thesis
    using assms(2,3) r top_rel(1) [OF assms(1,2)]
    by (cases ks) (auto simp: lexically_relative_def steps_up_def rel_path_def)
qed

section \<open>Resolution\<close>

lemma walk_append:
  assumes "walk w True n cur xs = Some k" and "dir_at_key w k"
  shows "\<exists>m. \<forall>f ys. f \<or> ys \<noteq> [] \<longrightarrow> walk w f n cur (xs @ ys) = walk w f m k ys"
  using assms
proof (induction w True n cur xs rule: walk.induct)
  case (1 w n cur)
  then show ?case by (metis append_Nil option.inject walk.simps(1))
next
  case (2 w n cur c cs)
  show ?case
  proof (cases "c = [] \<or> c = ''.'' \<or> c = ''..''")
    case True
    with 2 show ?thesis by (auto simp: walk.simps(2) split: if_splits)
  next
    case False
    show ?thesis
    proof (cases "lookup w (cur @ [c])")
      case None
      with False 2 show ?thesis by (auto simp: walk.simps(2) dir_at_key_def split: if_splits)
    next
      case (Some i)
      show ?thesis
      proof (cases "i_data i")
        case Directory
        with False Some 2 show ?thesis by (auto simp: walk.simps(2))
      next
        case (Symlink target)
        have n: "n \<noteq> 0"
          "walk w True (n - 1) (if has_root target then [] else cur) (path_elements target @ cs) = Some k"
          using False Some Symlink 2(5) by (simp_all add: walk.simps(2) split: if_splits)
        from 2(4) [OF _ _ Some Symlink _ n 2(6)] False
        have "\<exists>m. \<forall>f ys. f \<or> ys \<noteq> [] \<longrightarrow> walk w f (n - 1) (if has_root target then [] else cur)
            ((path_elements target @ cs) @ ys) = walk w f m k ys" by simp
        with False Some Symlink n(1) show ?thesis by (auto simp: walk.simps(2))
      qed (use False Some 2 in \<open>auto simp: walk.simps(2) dir_at_key_def is_dir_def split: if_splits\<close>)
    qed
  qed
qed

lemma walk_trailing:
  assumes "walk w True n cur (xs @ [[]]) = Some k"
  shows "walk w True n cur xs = Some k"
  using assms
proof (induction w True n cur xs rule: walk.induct)
  case (2 w n cur c cs)
  show ?case
  proof (cases "(\<exists>i target. lookup w (cur @ [c]) = Some i \<and> i_data i = Symlink target) \<and>
      c \<noteq> [] \<and> c \<noteq> ''.'' \<and> c \<noteq> ''..''")
    case True
    then obtain i target where i: "lookup w (cur @ [c]) = Some i" "i_data i = Symlink target" by blast
    with True have n: "n \<noteq> 0"
      "walk w True (n - 1) (if has_root target then [] else cur) ((path_elements target @ cs) @ [[]]) = Some k"
      using 2(5) by (simp_all add: walk.simps(2) split: if_splits)
    have "walk w True (n - 1) (if has_root target then [] else cur) (path_elements target @ cs) = Some k"
      using 2(4) [OF _ _ i _ n] True by simp
    with i n(1) True show ?thesis by (simp add: walk.simps(2))
  next
    case False
    with 2 show ?thesis by (auto simp: walk.simps(2) split: if_splits option.splits file_data.splits)
  qed
qed (simp add: walk.simps(2))

text \<open>
  What holds of the files of every file system: no two entries have the same key, the root is a
  directory, and every other entry has a name and is in a directory.
\<close>

definition proper_name :: "string \<Rightarrow> bool" where
  "proper_name n \<longleftrightarrow> valid_name n \<and> n \<noteq> ''.'' \<and> n \<noteq> ''..''"

definition fs_ok :: "world \<Rightarrow> bool" where
  "fs_ok w \<longleftrightarrow> distinct (map fst (files w)) \<and> dir_at_key w [] \<and>
     (\<forall>k \<in> set (map fst (files w)). k \<noteq> [] \<longrightarrow> proper_name (last k) \<and> dir_at_key w (butlast k))"

lemma lookup_dom: "lookup w k \<noteq> None \<longleftrightarrow> k \<in> set (map fst (files w))"
  by (simp add: lookup_def map_of_eq_None_iff)

lemma dir_lookup: "dir_at_key w k \<Longrightarrow> lookup w k \<noteq> None"
  by (auto simp: dir_at_key_def split: option.splits)

lemma fs_ok_prefix:
  assumes "fs_ok w" and "lookup w (k @ ls) \<noteq> None" and "ls \<noteq> []"
  shows "dir_at_key w k"
  using assms(2,3)
proof (induction ls rule: rev_induct)
  case (snoc n ls)
  have "k @ ls @ [n] \<in> set (map fst (files w))" using snoc.prems(1) lookup_dom by auto
  then have "dir_at_key w (butlast (k @ ls @ [n]))" using assms(1) unfolding fs_ok_def by blast
  then have "dir_at_key w (k @ ls)" by (simp add: butlast_append)
  then show ?case using snoc.IH dir_lookup by (cases "ls = []") auto
qed simp

lemma fs_ok_names:
  assumes "fs_ok w" and "lookup w (k @ ls) \<noteq> None"
  shows "\<forall>n \<in> set ls. proper_name n"
  using assms(2)
proof (induction ls rule: rev_induct)
  case (snoc n ls)
  have "k @ ls @ [n] \<in> set (map fst (files w))" using snoc.prems(1) lookup_dom by auto
  then have "proper_name (last (k @ ls @ [n]))" using assms(1) unfolding fs_ok_def by blast
  moreover have "lookup w (k @ ls) \<noteq> None"
    using fs_ok_prefix [OF assms(1), of "k @ ls" "[n]"] snoc.prems dir_lookup by simp
  ultimately show ?case using snoc.IH by auto
qed simp

lemma fs_ok_names_ok: "fs_ok w \<Longrightarrow> lookup w (k @ ls) \<noteq> None \<Longrightarrow> names_ok ls"
  using fs_ok_names by (auto simp: names_ok_def proper_name_def)

lemma walk_plain:
  assumes "\<forall>n \<in> set ks. proper_name n" and "\<And>ls. strict_prefix ls ks \<Longrightarrow> dir_at_key w (k @ ls)"
    and "f \<longrightarrow> (\<forall>i. lookup w (k @ ks) = Some i \<longrightarrow> (\<forall>target. i_data i \<noteq> Symlink target))"
  shows "walk w f m k ks = Some (k @ ks)"
  using assms
proof (induction ks arbitrary: k)
  case (Cons n ks)
  have n: "n \<noteq> []" "n \<noteq> ''.''" "n \<noteq> ''..''" using Cons.prems(1) by (auto simp: proper_name_def)
  show ?case
  proof (cases "ks = []")
    case True
    with n Cons.prems(3) show ?thesis by (auto simp: walk.simps(2) split: option.splits file_data.splits)
  next
    case False
    have "strict_prefix [n] (n # ks)" using False by (cases ks) auto
    from Cons.prems(2) [OF this] have d: "dir_at_key w (k @ [n])" .
    have "dir_at_key w ((k @ [n]) @ ls)" if "strict_prefix ls ks" for ls
      using Cons.prems(2) [of "n # ls"] that by simp
    with Cons.IH [of "k @ [n]"] Cons.prems(1,3) have "walk w f m (k @ [n]) ks = Some (k @ n # ks)" by simp
    with n d show ?thesis by (auto simp: walk.simps(2) dir_at_key_def is_dir_def split: option.splits)
  qed
qed simp

text \<open>The top directory of a scan, and where it is.\<close>

definition top_at :: "world \<Rightarrow> path \<Rightarrow> key \<Rightarrow> bool" where
  "top_at w p K \<longleftrightarrow> top_path p \<and> resolve w True p = Some K \<and> dir_at_key w K"

lemma walk_top:
  assumes "top_at w p K"
  shows "\<exists>m. \<forall>f ys. f \<or> ys \<noteq> [] \<longrightarrow> walk w f max_links [] (path_elements (trim p) @ ys) = walk w f m K ys"
proof -
  have p: "top_path p" and K: "walk w True max_links [] (path_elements p) = Some K" "dir_at_key w K"
    using assms by (auto simp: top_at_def top_path_def resolve_def absolute_path_def split: if_splits)
  have "walk w True max_links [] (path_elements (trim p)) = Some K"
    using elements_top(1) [OF p] K(1) walk_trailing by metis
  from walk_append [OF this K(2)] show ?thesis .
qed

lemma top_rooted: "top_path p \<Longrightarrow> has_root (trim p @ sep # x)"
  using trim_root [of p] by (cases "trim p") (auto simp: has_root_def)

lemma resolve_top_slash:
  assumes "top_at w p K"
  shows "resolve w True (path_append p []) = Some K"
proof -
  have p: "top_path p" using assms by (simp add: top_at_def)
  obtain m where m: "\<And>ys. walk w True max_links [] (path_elements (trim p) @ ys) = walk w True m K ys"
    using walk_top [OF assms] by blast
  have "walk w True m K (if trim p = [] then [] else [[]]) = Some K" by (simp add: walk.simps(2))
  then show ?thesis using m elements_top(2) [OF p] top_rooted [OF p, of "[]"] path_append_top [OF p, of "[]"]
    by (simp add: resolve_def absolute_path_def has_root_def)
qed

lemma resolve_top:
  assumes fs: "fs_ok w" and top: "top_at w p K" and ks: "ks \<noteq> []" "\<forall>n \<in> set ks. proper_name n"
    and dirs: "dir_at_key w (K @ butlast ks)"
    and fin: "f \<longrightarrow> (\<forall>i. lookup w (K @ ks) = Some i \<longrightarrow> (\<forall>target. i_data i \<noteq> Symlink target))"
  shows "resolve w f (path_append p (rel_path ks)) = Some (K @ ks)"
proof -
  have p: "top_path p" using top by (simp add: top_at_def)
  have ok: "names_ok ks" using ks(2) by (simp add: names_ok_def proper_name_def)
  have a: "path_append p (rel_path ks) = trim p @ sep # rel_path ks" by (rule top_rel(1) [OF p ok])
  obtain m where m: "walk w f max_links [] (path_elements (trim p) @ ks) = walk w f m K ks"
    using walk_top [OF top] ks(1) by blast
  have "dir_at_key w (K @ ls)" if "strict_prefix ls ks" for ls
  proof (cases "ls = butlast ks")
    case False
    have "prefix ls (butlast ks)" using that ks(1) by (metis append_butlast_last_id prefix_snoc strict_prefix_def)
    then obtain us where "butlast ks = ls @ us" by (rule prefixE)
    then show ?thesis using fs_ok_prefix [OF fs, of "K @ ls" us] dirs dir_lookup False by auto
  qed (use dirs in simp)
  then have "walk w f m K ks = Some (K @ ks)" using walk_plain [OF ks(2)] fin by blast
  then show ?thesis
    using top_rooted [OF p] m elements_top(3) [OF p ok ks(1)] unfolding a by (simp add: resolve_def absolute_path_def)
qed

lemma file_at_top:
  assumes fs: "fs_ok w" and top: "top_at w p K" and ks: "ks \<noteq> []" and i: "lookup w (K @ ks) = Some i"
    and fin: "f \<longrightarrow> (\<forall>target. i_data i \<noteq> Symlink target)"
  shows "file_at w f (path_append p (rel_path ks)) = Some (K @ ks, i)"
proof -
  have "dir_at_key w (K @ butlast ks)"
    using fs_ok_prefix [OF fs, of "K @ butlast ks" "[last ks]"] i ks by simp
  with resolve_top [OF fs top ks _ this, of f] fs_ok_names [OF fs, of K ks] i fin
  show ?thesis by (auto simp: file_at_def)
qed

lemma file_at_top_dir:
  assumes fs: "fs_ok w" and top: "top_at w p K" and d: "dir_at_key w (K @ ks)"
  shows "\<exists>i. file_at w True (path_append p (rel_path ks)) = Some (K @ ks, i) \<and> is_dir i"
proof (cases "ks = []")
  case False
  obtain i where "lookup w (K @ ks) = Some i" "is_dir i" using d by (auto simp: dir_at_key_def split: option.splits)
  then show ?thesis using file_at_top [OF fs top False] by (auto simp: is_dir_def)
next
  case True
  then show ?thesis using d resolve_top_slash [OF top]
    by (auto simp: file_at_def dir_at_key_def split: option.splits)
qed

end
