(* ===== verification/Ddm_Scan.thy ===== *)
theory Ddm_Scan
  imports Ddm_Resolve Ddm_Backup_Tree
begin

text \<open>
  The scan of a directory (\<^verbatim>\<open>scanDirectory\<close> of core.cpp) against the files: in a system without
  failures it returns, and the tree has exactly one entry for every file below the directory, with
  the properties of the file.
\<close>

section \<open>The state of the files does not change\<close>

lemma walk_same: "lookup w' = lookup w \<Longrightarrow> walk w' f n cur cs = walk w f n cur cs"
proof (induction w f n cur cs rule: walk.induct)
  case (2 w f n cur c cs)
  then show ?case
    unfolding walk.simps(2) [of w] walk.simps(2) [of w']
    by (intro if_cong option.case_cong file_data.case_cong refl) simp_all
qed simp

lemma same_files:
  assumes "same_system w w'"
  shows "dir_at_key w' k = dir_at_key w k" and "children w' k = children w k" and "resolve w' f p = resolve w f p"
    and "file_at w' f p = file_at w f p" and "fs_ok w' = fs_ok w" and "top_at w' p K = top_at w p K"
    and "absolute_path w' p = absolute_path w p"
proof -
  have l: "lookup w' = lookup w" "files w' = files w" "cwd w' = cwd w" using same_system_facts [OF assms] by blast+
  show d: "dir_at_key w' k = dir_at_key w k" for k by (simp add: dir_at_key_def l)
  show "children w' k = children w k" by (simp add: children_def l)
  show a: "absolute_path w' p = absolute_path w p" for p by (simp add: absolute_path_def l)
  show r: "resolve w' f p = resolve w f p" for f p by (simp add: resolve_def a walk_same [OF l(1)])
  show "file_at w' f p = file_at w f p" by (simp add: file_at_def r l split: option.split)
  show "fs_ok w' = fs_ok w" by (simp add: fs_ok_def l d)
  show "top_at w' p K = top_at w p K" by (simp add: top_at_def r d)
qed

section \<open>Elements\<close>

definition data_type :: "file_data \<Rightarrow> file_type" where
  "data_type d = (case d of Regular _ \<Rightarrow> FT_regular | Directory \<Rightarrow> FT_directory | Symlink _ \<Rightarrow> FT_symlink
     | Special _ \<Rightarrow> FT_unknown)"

definition element_of :: "(string \<Rightarrow> string) \<Rightarrow> ScanOpt \<Rightarrow> world \<Rightarrow> path \<Rightarrow> inode \<Rightarrow> FilesystemElement" where
  "element_of sha opt w x i = emptyElement\<lparr>rp := x, per := i_perm i AND 0xFFF,
     us := user_of w (i_uid i), gs := group_of w (i_gid i), mt := i_mtime i, ty := data_type (i_data i),
     hardLinkCnt := i_nlink i,
     sz := (case i_data i of Regular s \<Rightarrow> int (length s) | _ \<Rightarrow> 0),
     fileHash := (case i_data i of Regular s \<Rightarrow> if opt = ComputeHash then sha s else [] | _ \<Rightarrow> []),
     symlink := (case i_data i of Symlink target \<Rightarrow> target | _ \<Rightarrow> [])\<rparr>"

lemma element_of_simps [simp]:
  "rp (element_of sha opt w x i) = x" "ty (element_of sha opt w x i) = data_type (i_data i)"
  "isDirectory (element_of sha opt w x i) = is_dir i"
  by (simp_all add: element_of_def isDirectory_def is_dir_def data_type_def split: file_data.splits)

lemma elem_ok_element_of: "elem_ok (element_of sha opt w x i)"
  by (simp add: elem_ok_def element_of_def emptyElement_def data_type_def split: file_data.splits)

lemma mode_bits:
  fixes p c :: "32 word"
  assumes "c \<in> {0, 1, 2, 4, 6, 8, 10, 12}"
  shows "drop_bit 12 (push_bit 12 c OR (p AND 0xFFF)) AND 0xF = c" and "(push_bit 12 c OR (p AND 0xFFF)) AND 0xFFF = p AND 0xFFF"
proof -
  have m: "(0xFFF :: 32 word) = mask 12" by (simp add: mask_eq_exp_minus_1)
  have "drop_bit 12 (p AND 0xFFF) = 0" unfolding m by (simp add: drop_bit_take_bit flip: take_bit_eq_mask)
  then show "drop_bit 12 (push_bit 12 c OR (p AND 0xFFF)) AND 0xF = c"
    using assms by (auto simp: drop_bit_or)
  have "push_bit 12 c AND 0xFFF = 0" using assms by auto
  then show "(push_bit 12 c OR (p AND 0xFFF)) AND 0xFFF = p AND 0xFFF"
    by (simp add: bit.conj_disj_distrib2 and.assoc)
qed

lemma status_of_inode:
  "status_permissions (stat_of i) = i_perm i AND 0xFFF"
  "status_type (stat_of i) = (case i_data i of Special t \<Rightarrow> typeLut ! unat (type_code (i_data i)) | d \<Rightarrow> data_type d)"
  "unat (drop_bit 12 (st_mode (stat_of i)) AND 0xF) < length typeLut"
proof -
  have c: "type_code (i_data i) \<in> {0, 1, 2, 4, 6, 8, 10, 12}"
    by (auto simp: type_code_def split: file_data.splits file_type.splits)
  note m = mode_bits [OF c, of "i_perm i"]
  show "status_permissions (stat_of i) = i_perm i AND 0xFFF"
    using m(2) by (simp add: status_permissions_def stat_of_def)
  have t: "status_type (stat_of i) = typeLut ! unat (type_code (i_data i))"
    using m(1) by (simp add: status_type_def stat_of_def)
  show "status_type (stat_of i) =
      (case i_data i of Special t \<Rightarrow> typeLut ! unat (type_code (i_data i)) | d \<Rightarrow> data_type d)"
    unfolding t by (auto simp: type_code_def data_type_def typeLut_def split: file_data.splits)
  show "unat (drop_bit 12 (st_mode (stat_of i)) AND 0xF) < length typeLut"
    using m(1) c by (auto simp: stat_of_def typeLut_def)
qed

lemma stat_of_simps [simp]:
  "st_uid (stat_of i) = i_uid i" "st_gid (stat_of i) = i_gid i" "st_mtime (stat_of i) = i_mtime i"
  "st_nlink (stat_of i) = i_nlink i" "i_data i = Regular s \<Longrightarrow> st_size (stat_of i) = int (length s)"
  by (simp_all add: stat_of_def)

lemma special_type: "typeLut ! unat (type_code (Special t)) \<notin> {FT_regular, FT_directory, FT_symlink}"
  by (simp add: type_code_def typeLut_def split: file_type.splits)

lemma elementFromPath_at:
  assumes calm: "calm w" and fs: "fs_ok w" and top: "top_at w p K" and ks: "ks \<noteq> []" "lookup w (K @ ks) = Some i"
  shows "\<exists>w'. elementFromPath sha (path_append p (rel_path ks)) p opt w =
    (Inr (element_of sha opt w (rel_path ks) i), w') \<and> calm w' \<and> same_system w w'"
proof -
  let ?p = "path_append p (rel_path ks)"
  have nk: "names_ok ks" using fs_ok_names_ok [OF fs] ks(2) by fastforce
  have tp: "top_path p" using top by (simp add: top_at_def)
  note rel = relative_top [OF tp nk ks(1)]
  have st: "ext_symlink_status ?p w = (Inr (stat_of i), w)"
    using file_at_top [OF fs top ks] calm by (simp add: ext_symlink_status_def faulty_def calm_def)
  obtain w1 where w1: "ext_lookup_user (i_uid i) w = (Inr (user_of w (i_uid i)), w1)" "calm w1" "same_system w w1"
    using user_found [OF calm] by blast
  obtain w2 where w2: "ext_lookup_group (i_gid i) w1 = (Inr (group_of w1 (i_gid i)), w2)" "calm w2" "same_system w1 w2"
    using group_found [OF w1(2)] by blast
  have s: "same_system w w2" by (rule system.trans [OF w1(3) w2(3)])
  have g: "group_of w1 = group_of w" using same_system_facts(5) [OF w1(3)] by simp
  have at: "\<not> (\<exists>t. i_data i = Symlink t) \<Longrightarrow> file_at w2 True ?p = Some (K @ ks, i)"
    "file_at w2 False ?p = Some (K @ ks, i)"
    using same_files(4) [OF s] file_at_top [OF fs top ks] by simp_all
  have f: "faults w2 = []" using w2(2) by (simp add: calm_def)
  have "elementFromPath sha ?p p opt w = (Inr (element_of sha opt w (rel_path ks) i), w2)"
  proof (cases "i_data i")
    case (Special t)
    with special_type [of t] st w1(1) w2(1) rel g show ?thesis
      by (auto simp: elementFromPath_def bindIO_apply io_simps status_of_inode element_of_def emptyElement_def
          data_type_def Let_def split: file_type.splits)
  qed (use st w1(1) w2(1) rel g at f in \<open>auto simp: elementFromPath_def bindIO_apply io_simps status_of_inode
        element_of_def emptyElement_def data_type_def Let_def hashFile_def read_symlink_def faulty_def\<close>)
  with w2(2) s show ?thesis by blast
qed

section \<open>The entries of one directory\<close>

lemma children_iff: "nm \<in> set (children w k) \<longleftrightarrow> lookup w (k @ [nm]) \<noteq> None"
proof -
  have "nm \<in> set (children w k) \<longleftrightarrow> (\<exists>k' \<in> set (map fst (files w)). k' \<noteq> [] \<and> butlast k' = k \<and> last k' = nm)"
    by (auto simp: children_def image_iff)
  also have "\<dots> \<longleftrightarrow> k @ [nm] \<in> set (map fst (files w))"
    by (metis append_butlast_last_id butlast_snoc last_snoc snoc_eq_iff_butlast)
  finally show ?thesis by (simp only: lookup_dom)
qed

lemma distinct_children:
  assumes "fs_ok w"
  shows "distinct (children w k)"
proof -
  have "inj_on last {k'. k' \<noteq> [] \<and> butlast k' = k}"
    by (rule inj_onI) (metis (mono_tags, lifting) append_butlast_last_id mem_Collect_eq)
  then have "inj_on last (set (filter (\<lambda>k'. k' \<noteq> [] \<and> butlast k' = k) (map fst (files w))))"
    by (rule inj_on_subset) auto
  then show ?thesis using assms unfolding children_def distinct_map fs_ok_def by (simp add: distinct_map)
qed

lemma mapIO_values:
  assumes "\<And>x w. x \<in> set xs \<Longrightarrow> P w \<Longrightarrow> \<exists>w'. f x w = (Inr (g x), w') \<and> P w'" and "P w"
  shows "\<exists>w'. mapIO f xs w = (Inr (map g xs), w') \<and> P w'"
  using assms
proof (induction xs arbitrary: w)
  case Nil
  then show ?case by (simp add: io_simps)
next
  case (Cons x xs)
  obtain w1 where w1: "f x w = (Inr (g x), w1)" "P w1" using Cons.prems by (metis list.set_intros(1))
  obtain w2 where "mapIO f xs w1 = (Inr (map g xs), w2)" "P w2"
    using Cons.IH [OF _ w1(2)] Cons.prems(1) by (metis list.set_intros(2))
  with w1 show ?case by (auto simp: bindIO_apply io_simps)
qed

lemma cells_for_simps:
  "nodes_in (cells_for k es) = cells_for k es" "map elem (cells_for k es) = es"
  "map node_addr (cells_for k es) = [k..<k + length es]" "n \<in> set (cells_for k es) \<Longrightarrow> content n = []"
  by (induction es arbitrary: k) (auto simp: upt_rec)

lemma foldE_indexScanned:
  assumes "\<And>n. n \<in> set ns \<Longrightarrow> index t (node_rp n) = None" and "distinct (map node_rp ns)"
  shows "\<exists>ws. foldE indexScanned ns t = Inr (t\<lparr>index := index t ++ index_of ns, warnings := ws\<rparr>)"
  using assms
proof (induction ns arbitrary: t)
  case Nil
  show ?case by (auto intro: exI [of _ "warnings t"])
next
  case (Cons n ns)
  obtain ws where ws: "indexScanned n t = Inr (t\<lparr>index := (index t)(node_rp n \<mapsto> node_addr n), warnings := ws\<rparr>)"
    using Cons.prems(1) [of n] by (simp add: indexScanned_def Let_def insertIndex_fresh)
  let ?t = "t\<lparr>index := (index t)(node_rp n \<mapsto> node_addr n), warnings := ws\<rparr>"
  have none: "index ?t (node_rp m) = None" if "m \<in> set ns" for m
    using Cons.prems that by (auto simp: image_iff)
  have d: "distinct (map node_rp ns)" using Cons.prems(2) by simp
  from Cons.IH [of ?t, OF none d] obtain ws' where
    "foldE indexScanned ns ?t = Inr (?t\<lparr>index := index ?t ++ index_of ns, warnings := ws'\<rparr>)" by blast
  moreover have it: "index ?t = (index t)(node_rp n \<mapsto> node_addr n)" by simp
  have "node_rp n \<notin> dom (index_of ns)" using Cons.prems(2) by (simp add: dom_index_of)
  then have "index ?t ++ index_of ns = index t ++ index_of (n # ns)"
    by (simp only: it index_of_simps(2) map_add_upd_swap map_add_upd simp_thms)
  moreover have "?t\<lparr>index := i, warnings := ws'\<rparr> = t\<lparr>index := i, warnings := ws'\<rparr>" for i by simp
  ultimately have "foldE indexScanned (n # ns) t = Inr (t\<lparr>index := index t ++ index_of (n # ns), warnings := ws'\<rparr>)"
    by (simp only: foldE.simps ws bindE_simps)
  then show ?case by blast
qed

text \<open>Where a scan may add the entries of the directory \<open>x\<close>.\<close>

definition empty_at :: "path \<Rightarrow> DirectoryTree \<Rightarrow> bool" where
  "empty_at x t \<longleftrightarrow> x = [] \<and> topContent t = [] \<or>
     (\<exists>d \<in> tree_nodes t. node_rp d = x \<and> isDirectory (elem d) \<and> content d = [])"

lemma mset_map_sort: "mset (map f (sort_nodes c)) = mset (map f c)"
  by (metis mset_map mset_sort_nodes)

lemma map_of_mset_eq:
  assumes "distinct (map fst ys)" and "mset xs = mset ys"
  shows "map_of xs = map_of ys"
proof -
  have "mset (map fst xs) = mset (map fst ys)" using assms(2) by simp
  then have "distinct (map fst xs)" using assms(1) mset_eq_imp_distinct_iff by blast
  moreover have "set xs = set ys" using assms(2) by (rule mset_eq_setD)
  ultimately show ?thesis using assms(1) by (metis map_of_inject_set)
qed

lemma scanned_forest:
  fixes k :: nat
  assumes x: "dir_path x" and nms: "distinct nms" "\<forall>nm \<in> set nms. valid_name nm \<and> rp (E nm) = child x nm"
  defines "ns \<equiv> sort_nodes (cells_for k (map E nms))"
  shows "wf_forest x ns" and "distinct (map node_rp ns)" and "elem ` set ns = E ` set nms"
    and "\<And>n. n \<in> set ns \<Longrightarrow> content n = [] \<and> k \<le> node_addr n \<and> node_addr n < k + length nms"
    and "distinct (map node_addr ns)" and "forest_entries ns = map_of (map (\<lambda>nm. (child x nm, E nm)) nms)"
proof -
  let ?c = "cells_for k (map E nms)"
  note ms = mset_map_sort [of _ ?c, folded ns_def]
  have set: "set ns = set ?c" by (simp add: ns_def)
  show el: "elem ` set ns = E ` set nms" unfolding set using cells_for_simps(2) [of k "map E nms"]
    by (metis list.set_map)
  have rps: "map node_rp ?c = map (child x) nms"
    using cells_for_simps(2) [of k "map E nms"] nms(2) map_elem_comp [of ?c E nms rp] by simp
  have inj: "distinct (map (child x) nms)"
    using nms child_inject [OF x x] by (auto simp: distinct_map inj_on_def)
  show dr: "distinct (map node_rp ns)" using ms [of node_rp] rps inj by (metis mset_eq_imp_distinct_iff)
  have ad: "mset (map node_addr ns) = mset [k..<k + length nms]" using ms [of node_addr] cells_for_simps(3) [of k "map E nms"] by simp
  then show "distinct (map node_addr ns)" by (metis distinct_upt mset_eq_imp_distinct_iff)
  have cn: "content n = []" if "n \<in> set ns" for n using that cells_for_simps(4) unfolding set by blast
  show "content n = [] \<and> k \<le> node_addr n \<and> node_addr n < k + length nms" if "n \<in> set ns" for n
  proof -
    have "node_addr n \<in> set (map node_addr ns)" using that by simp
    also have "\<dots> = set [k..<k + length nms]" using ad by (metis set_mset_mset)
    finally show ?thesis using cn [OF that] by simp
  qed
  have "wf_node x n" if "n \<in> set ns" for n
  proof -
    have "elem n \<in> E ` set nms" unfolding el [symmetric] using that by (rule imageI)
    then obtain nm where nm: "nm \<in> set nms" "elem n = E nm" by blast
    then have "valid_name nm" "node_rp n = child x nm" using nms(2) by simp_all
    then show ?thesis using cn [OF that] x by (simp add: wf_node_iff)
  qed
  then show "wf_forest x ns" using dr sorted_sort_nodes by (auto simp: wf_forest_def ns_def)
  have "nodes_in ns = ns" using cn by (rule leaf_nodes_in)
  moreover have "map (\<lambda>n. (node_rp n, elem n)) ?c = map (\<lambda>nm. (child x nm, E nm)) nms"
    using cells_for_simps(2) [of k "map E nms"] nms(2) map_elem_comp [of ?c E nms "\<lambda>e. (rp e, e)"] by simp
  moreover have "map_of (map (\<lambda>n. (node_rp n, elem n)) ns) = map_of (map (\<lambda>n. (node_rp n, elem n)) ?c)"
    by (rule map_of_mset_eq [OF _ ms]) (use rps inj in \<open>simp add: comp_def\<close>)
  ultimately show "forest_entries ns = map_of (map (\<lambda>nm. (child x nm, E nm)) nms)"
    by (simp add: forest_entries_def)
qed

lemma fresh_addresses:
  assumes "wf_tree t" and "\<And>n. n \<in> set ns \<Longrightarrow> next_addr t \<le> node_addr n \<and> node_addr n < k" and "nodes_in ns = ns"
    and "a \<in> set (addrs_in ns)"
  shows "a \<notin> set (addrs_in (topContent t)) \<and> a < k"
proof -
  have "next_addr t \<le> a \<and> a < k" using assms(2,4) by (auto simp: assms(3))
  moreover have "\<forall>b \<in> set (addrs_in (topContent t)). b < next_addr t" using assms(1) by (simp add: wf_tree_def)
  ultimately show ?thesis by fastforce
qed

lemma addScanned_added:
  assumes wf: "wf_tree t" and x: "dir_path x" "empty_at x t"
    and nms: "distinct nms" "\<forall>nm \<in> set nms. valid_name nm \<and> rp (E nm) = child x nm"
  shows "\<exists>ns t'. addScanned x (map E nms) t = Inr (ns, t') \<and> wf_tree t' \<and> topPath t' = topPath t \<and>
    tree_entries t' = tree_entries t ++ map_of (map (\<lambda>nm. (child x nm, E nm)) nms) \<and>
    elem ` set ns = E ` set nms \<and> distinct (map node_rp ns)"
proof -
  let ?k = "next_addr t + length nms"
  define ns where "ns = sort_nodes (cells_for (next_addr t) (map E nms))"
  note f = scanned_forest [OF x(1) nms, where k = "next_addr t", folded ns_def]
  have nn: "nodes_in ns = ns" using f(4) by (intro leaf_nodes_in) blast
  have fresh: "a \<notin> set (addrs_in (topContent t)) \<and> a < ?k" if "a \<in> set (addrs_in ns)" for a
    using fresh_addresses [OF wf _ nn that] f(4) by blast
  have none: "tree_entries t (node_rp n) = None" if n: "n \<in> set ns" for n
    using x(2) unfolding empty_at_def
  proof
    assume "x = [] \<and> topContent t = []"
    then show ?thesis by (simp add: tree_entries_def forest_entries_def)
  next
    assume "\<exists>d \<in> tree_nodes t. node_rp d = x \<and> isDirectory (elem d) \<and> content d = []"
    then obtain d where "d \<in> tree_nodes t" "node_rp d = x" "content d = []" by blast
    then show ?thesis using wf_forestD(3) [OF f(1) n] no_entries_in_empty [OF wf] by (auto elim!: wf_nodeE)
  qed
  have idx: "index t (node_rp n) = None" if "n \<in> set ns" for n using none [OF that] index_None_iff [OF wf] by blast
  have "\<exists>c. wf_forest [] c \<and> cells_in c = cells_in (topContent t) + cells_in ns \<and>
      (if topContent t = [] then Inr (t\<lparr>next_addr := ?k, topContent := ns\<rparr>)
       else case index t x of None \<Rightarrow> Inl Abort
       | Some a \<Rightarrow> bindE (deref (t\<lparr>next_addr := ?k\<rparr>) a) (\<lambda>n. bindE (setDirectoryContent n ns) (\<lambda>n.
           Inr (assign (t\<lparr>next_addr := ?k\<rparr>) n)))) = Inr (t\<lparr>next_addr := ?k, topContent := c\<rparr>)"
    using x(2) unfolding empty_at_def
  proof
    assume e: "x = [] \<and> topContent t = []"
    then show ?thesis using f(1) by auto
  next
    assume "\<exists>d \<in> tree_nodes t. node_rp d = x \<and> isDirectory (elem d) \<and> content d = []"
    then obtain d where d: "d \<in> tree_nodes t" "node_rp d = x" "isDirectory (elem d)" "content d = []" by blast
    let ?m = "set_content ns d"
    have dn: "d \<in> set (nodes_in (topContent t))" using d(1) by (simp add: tree_nodes_def)
    note wd = wf_forest_sub [OF dir_path_Nil wf_treeD(1) [OF wf] dn]
    have "wf_forest [] (topContent (assign t ?m))"
      using wd(2) f(1) d(2,3) by (intro assign_wf_forest [OF wf d(1)]) (simp_all add: node_key_def wf_node_iff)
    moreover have "cells_in (topContent (assign t ?m)) = cells_in (topContent t) + cells_in ns"
      using assign_cells [OF wf d(1), of ?m] d(4) by (simp add: cells_of_set_content cells_of_content [of d] ac_simps)
    moreover have "topContent t \<noteq> []" using d(1) by (auto simp: tree_nodes_def)
    moreover have "index t x = Some (node_addr d)" using index_node [OF wf d(1)] d(2) by simp
    moreover have "deref (t\<lparr>next_addr := ?k\<rparr>) (node_addr d) = Inr d"
      using deref_node [OF wf d(1)] by (simp add: deref_def)
    ultimately show ?thesis using d(3,4) by (auto simp: setDirectoryContent_def assign_def)
  qed
  then obtain c where c: "wf_forest [] c" "cells_in c = cells_in (topContent t) + cells_in ns"
    "(if topContent t = [] then Inr (t\<lparr>next_addr := ?k, topContent := ns\<rparr>)
       else case index t x of None \<Rightarrow> Inl Abort
       | Some a \<Rightarrow> bindE (deref (t\<lparr>next_addr := ?k\<rparr>) a) (\<lambda>n. bindE (setDirectoryContent n ns) (\<lambda>n.
           Inr (assign (t\<lparr>next_addr := ?k\<rparr>) n)))) = Inr (t\<lparr>next_addr := ?k, topContent := c\<rparr>)" by blast
  let ?t = "t\<lparr>next_addr := ?k, topContent := c, index := index t ++ index_of ns\<rparr>"
  have sw: "t\<lparr>topContent := c, next_addr := ?k, index := i\<rparr> = t\<lparr>next_addr := ?k, topContent := c, index := i\<rparr>" for i
    by (cases t) simp
  obtain ws where ws: "foldE indexScanned ns (t\<lparr>next_addr := ?k, topContent := c\<rparr>) = Inr (?t\<lparr>warnings := ws\<rparr>)"
    using foldE_indexScanned [of ns "t\<lparr>next_addr := ?k, topContent := c\<rparr>"] idx f(2) by auto
  have "addScanned x (map E nms) t = Inr (ns, ?t\<lparr>warnings := ws\<rparr>)"
    using c(3) ws by (cases "topContent t = []") (simp_all add: addScanned_def Let_def flip: ns_def)
  moreover have "wf_tree ?t" "tree_entries ?t = tree_entries t ++ forest_entries ns"
    using added_forest [OF wf c(1,2) fresh] f(2,5) none nn by (auto simp: sw)
  ultimately show ?thesis using f(2,3,6) by (intro exI [of _ ns] exI [of _ "?t\<lparr>warnings := ws\<rparr>"]) simp
qed

end
