(* ===== verification/Ddm_Scan_Exact.thy ===== *)
theory Ddm_Scan_Exact
  imports Ddm_Scan Ddm_Diff3
begin

text \<open>
  The recursion of a scan: after the entries of a directory come those below its subdirectories.
  The result is the view of the files below the top directory as a map from relative paths to
  elements.
\<close>

section \<open>The files below a directory\<close>

definition fs_view :: "(string \<Rightarrow> string) \<Rightarrow> ScanOpt \<Rightarrow> world \<Rightarrow> key \<Rightarrow> entries" where
  "fs_view sha opt w K x =
     (let ks = path_elements x in
      if ks \<noteq> [] \<and> rel_path ks = x then map_option (element_of sha opt w x) (lookup w (K @ ks)) else None)"

lemma view_rel:
  assumes "names_ok ks" and "ks \<noteq> []"
  shows "fs_view sha opt w K (rel_path ks) = map_option (element_of sha opt w (rel_path ks)) (lookup w (K @ ks))"
  using assms by (simp add: fs_view_def elements_rel)

lemma view_Some:
  assumes "fs_ok w" and "fs_view sha opt w K x = Some e"
  obtains ks i where "names_ok ks" and "ks \<noteq> []" and "x = rel_path ks" and "lookup w (K @ ks) = Some i"
    and "e = element_of sha opt w x i"
proof -
  let ?ks = "path_elements x"
  obtain i where "?ks \<noteq> []" "rel_path ?ks = x" "lookup w (K @ ?ks) = Some i" "e = element_of sha opt w x i"
    using assms(2) by (auto simp: fs_view_def Let_def split: if_splits)
  moreover have "names_ok ?ks" using fs_ok_names_ok [OF assms(1), of K ?ks] calculation(3) by simp
  ultimately show ?thesis using that by metis
qed

lemma view_same:
  assumes "same_system w w'"
  shows "fs_view sha opt w' K = fs_view sha opt w K"
proof -
  have e: "element_of sha opt w' = element_of sha opt w"
    using same_system_facts [OF assms] by (simp add: element_of_def fun_eq_iff)
  show ?thesis unfolding fs_view_def [abs_def] same_system_facts(6) [OF assms] e by (rule refl)
qed

lemma view_parent:
  assumes "fs_ok w" and "fs_view sha opt w K (rel_path (ks @ ls)) \<noteq> None" and "names_ok (ks @ ls)"
    and "ks \<noteq> []" and "ls \<noteq> []"
  shows "dir_at (fs_view sha opt w K) (rel_path ks)" and "dir_at_key w (K @ ks)"
proof -
  have "lookup w ((K @ ks) @ ls) \<noteq> None" using assms by (simp add: view_rel)
  then show d: "dir_at_key w (K @ ks)" using fs_ok_prefix [OF assms(1)] assms(5) by blast
  then show "dir_at (fs_view sha opt w K) (rel_path ks)"
    using assms(3,4) by (auto simp: dir_at_def view_rel dir_at_key_def split: option.splits)
qed

section \<open>Empty directories of a tree\<close>

lemma empty_at_iff:
  assumes wf: "wf_tree t" and x: "x \<noteq> []"
    and e: "dir_at (tree_entries t) x" "\<And>z. below x z \<Longrightarrow> tree_entries t z = None"
  shows "empty_at x t"
proof -
  obtain el where "tree_entries t x = Some el" "isDirectory el"
    using e(1) by (auto simp: dir_at_def split: option.splits)
  then obtain d where d: "d \<in> tree_nodes t" "node_rp d = x" "isDirectory (elem d)"
    unfolding wf_tree_entries [OF wf] by blast
  have "content d = []"
  proof (rule ccontr)
    assume "content d \<noteq> []"
    then obtain n where n: "n \<in> set (content d)" using last_in_set by blast
    have dn: "d \<in> set (nodes_in (topContent t))" using d(1) by (simp add: tree_nodes_def)
    note wd = wf_forest_sub [OF dir_path_Nil wf_treeD(1) [OF wf] dn]
    have "below x (node_rp n)" using wf_node_below [OF wd(3) wf_forestD(3) [OF wd(4) n]] d(2) by simp
    moreover have "n \<in> tree_nodes t"
      using content_in_nodes_in [OF dn n] by (simp add: tree_nodes_def)
    then have "tree_entries t (node_rp n) \<noteq> None" using tree_entries_node [OF wf] by force
    ultimately show False using e(2) [of "node_rp n"] by simp
  qed
  with d show ?thesis by (auto simp: empty_at_def)
qed

section \<open>The recursion\<close>

text \<open>The number of files below a key bounds the depth of the recursion.\<close>

definition files_below :: "world \<Rightarrow> key \<Rightarrow> nat" where
  "files_below w k = length (filter (strict_prefix k) (map fst (files w)))"

lemma files_below_child:
  assumes "lookup w (k @ [nm]) \<noteq> None"
  shows "files_below w (k @ [nm]) < files_below w k"
proof -
  let ?l = "map fst (files w)"
  have sub: "strict_prefix (k @ [nm]) z \<Longrightarrow> strict_prefix k z" for z
    by (auto simp: strict_prefix_def prefix_def)
  have "k @ [nm] \<in> set ?l" using assms lookup_dom by blast
  moreover have "filter (strict_prefix (k @ [nm])) ?l = filter (strict_prefix (k @ [nm])) (filter (strict_prefix k) ?l)"
    unfolding filter_filter by (rule filter_cong [OF refl]) (use sub in blast)
  moreover have "k @ [nm] \<in> set (filter (strict_prefix k) ?l)"
    using calculation(1) by (auto simp: strict_prefix_def)
  ultimately show ?thesis
    unfolding files_below_def by (metis length_filter_less prefix_order.less_irrefl)
qed

lemma files_below_bound: "files_below w k \<le> length (files w)"
  unfolding files_below_def by (metis length_filter_le length_map)

lemma same_files_below: "same_system w w' \<Longrightarrow> files_below w' k = files_below w k"
  using same_system_facts(1) by (simp add: files_below_def)

text \<open>The entries of a directory, and then those below its subdirectories.\<close>

abbreviation with_view :: "path \<Rightarrow> entries \<Rightarrow> entries \<Rightarrow> entries" where
  "with_view x V E \<equiv> (\<lambda>z. if below x z then V z else E z)"

definition level :: "entries \<Rightarrow> path \<Rightarrow> string list \<Rightarrow> entries" where
  "level V x nms = map_of (map (\<lambda>nm. (child x nm, the (V (child x nm)))) nms)"

lemma level_eq:
  "level V x nms z = (if z \<in> child x ` set nms then Some (the (V z)) else None)"
  unfolding level_def by (induction nms) auto

definition scanned :: "world \<Rightarrow> DirectoryTree \<Rightarrow> entries \<Rightarrow> DirectoryTree wio \<Rightarrow> bool" where
  "scanned w t E m \<longleftrightarrow> (\<exists>t' w'. m w = (Inr t', w') \<and> calm w' \<and> same_system w w' \<and> wf_tree t' \<and>
     topPath t' = topPath t \<and> tree_entries t' = E)"

lemma scan_subdirs:
  assumes rec: "\<And>n t w'. n \<in> set ns \<Longrightarrow> isDirectory (elem n) \<Longrightarrow> calm w' \<Longrightarrow> same_system w w' \<Longrightarrow> wf_tree t \<Longrightarrow>
      dir_at (tree_entries t) (node_rp n) \<Longrightarrow> (\<forall>z. below (node_rp n) z \<longrightarrow> tree_entries t z = None) \<Longrightarrow>
      scanned w' t (with_view (node_rp n) V (tree_entries t)) (f n t)"
    and apart: "\<And>n m. n \<in> set ns \<Longrightarrow> m \<in> set ns \<Longrightarrow> n \<noteq> m \<Longrightarrow> \<not> (\<exists>z. at_or_below (node_rp n) z \<and> at_or_below (node_rp m) z)"
    and d: "distinct ns"
    and t: "calm w1" "same_system w w1" "wf_tree t"
    and dirs: "\<And>n. n \<in> set ns \<Longrightarrow> isDirectory (elem n) \<Longrightarrow>
      dir_at (tree_entries t) (node_rp n) \<and> (\<forall>z. below (node_rp n) z \<longrightarrow> tree_entries t z = None)"
  shows "scanned w1 t (\<lambda>z. if \<exists>n \<in> set ns. isDirectory (elem n) \<and> below (node_rp n) z then V z else tree_entries t z)
    (foldIO (\<lambda>n t. if isDirectory (elem n) then f n t else returnIO t) ns t)"
  using assms
proof (induction ns arbitrary: t w1)
  case Nil
  then show ?case by (simp add: scanned_def io_simps)
next
  case (Cons n ns)
  note prems = Cons.prems
  have rest: "scanned w1' t' (\<lambda>z. if \<exists>n \<in> set ns. isDirectory (elem n) \<and> below (node_rp n) z then V z else tree_entries t' z)
      (foldIO (\<lambda>n t. if isDirectory (elem n) then f n t else returnIO t) ns t')"
    if "calm w1'" "same_system w w1'" "wf_tree t'"
      "\<And>m. m \<in> set ns \<Longrightarrow> isDirectory (elem m) \<Longrightarrow>
        dir_at (tree_entries t') (node_rp m) \<and> (\<forall>z. below (node_rp m) z \<longrightarrow> tree_entries t' z = None)" for t' w1'
  proof (rule Cons.IH [OF _ _ _ that])
    show "distinct ns" using prems(3) by simp
    show "\<not> (\<exists>z. at_or_below (node_rp a) z \<and> at_or_below (node_rp b) z)"
      if "a \<in> set ns" "b \<in> set ns" "a \<noteq> b" for a b
      using that by (intro prems(2)) simp_all
  qed (rule prems(1), simp_all)
  show ?case
  proof (cases "isDirectory (elem n)")
    case False
    have "scanned w1 t (\<lambda>z. if \<exists>n \<in> set ns. isDirectory (elem n) \<and> below (node_rp n) z then V z else tree_entries t z)
        (foldIO (\<lambda>n t. if isDirectory (elem n) then f n t else returnIO t) ns t)"
      by (rule rest [OF prems(4-6)]) (rule prems(7), simp_all)
    then show ?thesis using False by simp
  next
    case True
    have nd: "dir_at (tree_entries t) (node_rp n)" "\<forall>z. below (node_rp n) z \<longrightarrow> tree_entries t z = None"
      using prems(7) [of n] True by simp_all
    from prems(1) [OF _ True prems(4-6) nd] obtain t' w' where t': "f n t w1 = (Inr t', w')" "calm w'"
      "same_system w1 w'" "wf_tree t'" "topPath t' = topPath t"
      "tree_entries t' = with_view (node_rp n) V (tree_entries t)" by (auto simp: scanned_def)
    have sib: "\<not> at_or_below (node_rp n) z" if "m \<in> set ns" "at_or_below (node_rp m) z" for m z
      using prems(2) [of n m] prems(3) that by auto
    have "scanned w' t' (\<lambda>z. if \<exists>n \<in> set ns. isDirectory (elem n) \<and> below (node_rp n) z then V z else tree_entries t' z)
        (foldIO (\<lambda>n t. if isDirectory (elem n) then f n t else returnIO t) ns t')"
    proof (rule rest [OF t'(2) system.trans [OF prems(5) t'(3)] t'(4)])
      fix m assume m: "m \<in> set ns" "isDirectory (elem m)"
      then show "dir_at (tree_entries t') (node_rp m) \<and> (\<forall>z. below (node_rp m) z \<longrightarrow> tree_entries t' z = None)"
        using prems(7) [of m] sib [OF m(1)] unfolding t'(6) by (auto simp: dir_at_def at_or_below_def)
    qed
    then obtain t2 w2 where t2: "foldIO (\<lambda>n t. if isDirectory (elem n) then f n t else returnIO t) ns t' w' = (Inr t2, w2)"
      "calm w2" "same_system w' w2" "wf_tree t2" "topPath t2 = topPath t'"
      "tree_entries t2 = (\<lambda>z. if \<exists>n \<in> set ns. isDirectory (elem n) \<and> below (node_rp n) z then V z else tree_entries t' z)"
      by (auto simp: scanned_def)
    have "same_system w1 w2" by (rule system.trans [OF t'(3) t2(3)])
    moreover have "tree_entries t2 = (\<lambda>z. if \<exists>m \<in> set (n # ns). isDirectory (elem m) \<and> below (node_rp m) z
        then V z else tree_entries t z)" unfolding t2(6) t'(6) using True by (auto simp: fun_eq_iff)
    ultimately show ?thesis using True t'(1,5) t2(1-5) by (auto simp: scanned_def bindIO_apply)
  qed
qed

lemma directory_entries:
  assumes calm: "calm w" and fs: "fs_ok w" and top: "top_at w p K" and d: "dir_at_key w (K @ ks)" and ok: "names_ok ks"
  shows "\<exists>w'. bindIO (directory_iterator (path_append p (rel_path ks)))
      (mapIO (\<lambda>it. elementFromPath sha it p opt)) w =
    (Inr (map (\<lambda>nm. the (fs_view sha opt w K (child (rel_path ks) nm))) (children w (K @ ks))), w') \<and>
    calm w' \<and> same_system w w'"
proof -
  let ?x = "rel_path ks" and ?nms = "children w (K @ ks)"
  have tp: "top_path p" using top by (simp add: top_at_def)
  obtain i where "file_at w True (path_append p ?x) = Some (K @ ks, i)" "is_dir i"
    using file_at_top_dir [OF fs top d] by blast
  then have it: "directory_iterator (path_append p ?x) w = (Inr (map (path_append (path_append p ?x)) ?nms), w)"
    using calm by (simp add: directory_iterator_def faulty_def calm_def)
  have nm: "valid_name nm \<and> lookup w (K @ ks @ [nm]) \<noteq> None" if "nm \<in> set ?nms" for nm
    using that fs_ok_names_ok [OF fs, of "K @ ks" "[nm]"] by (simp add: children_iff)
  have its: "map (path_append (path_append p ?x)) ?nms = map (\<lambda>nm. path_append p (rel_path (ks @ [nm]))) ?nms"
    using nm top_rel(2) [OF tp ok] by simp
  let ?g = "\<lambda>nm. the (fs_view sha opt w K (child ?x nm))"
  have "\<exists>w2. elementFromPath sha (path_append p (rel_path (ks @ [nm]))) p opt w1 = (Inr (?g nm), w2) \<and>
      calm w2 \<and> same_system w w2" if n: "nm \<in> set ?nms" and w1: "calm w1 \<and> same_system w w1" for nm w1
  proof -
    obtain i where i: "lookup w1 (K @ ks @ [nm]) = Some i"
      using nm [OF n] same_system_facts(6) [of w w1] w1 by auto
    from elementFromPath_at [of w1 p K "ks @ [nm]" i sha opt] w1 fs top same_files(5,6) [of w w1] i
    obtain w2 where w2: "elementFromPath sha (path_append p (rel_path (ks @ [nm]))) p opt w1 =
        (Inr (element_of sha opt w1 (rel_path (ks @ [nm])) i), w2)" "calm w2" "same_system w1 w2" by auto
    have "fs_view sha opt w K (child ?x nm) = Some (element_of sha opt w1 (rel_path (ks @ [nm])) i)"
      using view_same [of w w1 sha opt K] w1 i ok nm [OF n] view_rel [of "ks @ [nm]" sha opt w1 K]
      by (simp add: rel_path_snoc)
    moreover have "same_system w w2" using w1 system.trans [OF _ w2(3)] by blast
    ultimately show ?thesis using w2(1,2) by simp
  qed
  then have "\<exists>w'. mapIO (\<lambda>nm. elementFromPath sha (path_append p (rel_path (ks @ [nm]))) p opt) ?nms w =
      (Inr (map ?g ?nms), w') \<and> calm w' \<and> same_system w w'"
    using calm by (intro mapIO_values [where P = "\<lambda>w'. calm w' \<and> same_system w w'"]) simp_all
  moreover have "mapIO f (map g xs) = mapIO (\<lambda>x. f (g x)) xs" for f :: "path \<Rightarrow> FilesystemElement wio" and g :: "string \<Rightarrow> path" and xs
    by (induction xs) simp_all
  ultimately show ?thesis using it its by (simp add: bindIO_apply)
qed

text \<open>The entries of a directory and those below its subdirectories are all there are.\<close>

lemma level_complete:
  fixes sha :: "string \<Rightarrow> string" and opt :: ScanOpt and K :: key
  assumes fs: "fs_ok w" and ok: "names_ok ks"
  defines "V \<equiv> fs_view sha opt w K" and "x \<equiv> rel_path ks"
  assumes T: "\<And>z. below x z \<Longrightarrow> T z = None"
    and D: "\<And>z. D z \<longleftrightarrow> (\<exists>nm \<in> set (children w (K @ ks)). dir_at V (child x nm) \<and> below (child x nm) z)"
  shows "(\<lambda>z. if D z then V z else (T ++ level V x (children w (K @ ks))) z) = with_view x V T"
proof
  fix z
  let ?nms = "children w (K @ ks)"
  have x: "dir_path x" using ok by (simp add: x_def dir_path_rel)
  have nm: "valid_name nm \<and> V (child x nm) \<noteq> None" if "nm \<in> set ?nms" for nm
    using that fs_ok_names_ok [OF fs, of "K @ ks" "[nm]"] ok view_rel [of "ks @ [nm]" sha opt w K]
    by (simp add: children_iff V_def x_def rel_path_snoc)
  have lv: "z \<in> child x ` set ?nms \<Longrightarrow> level V x ?nms z = V z"
    using nm by (auto simp: level_eq)
  show "(if D z then V z else (T ++ level V x ?nms) z) = with_view x V T z"
  proof (cases "below x z")
    case False
    have "\<not> D z" using False below_child_trans [OF x] nm unfolding D by blast
    moreover have "z \<notin> child x ` set ?nms" using False below_child [OF x] nm by blast
    ultimately show ?thesis using False by (simp add: level_eq map_add_def)
  next
    case True
    show ?thesis
    proof (cases "D z \<or> z \<in> child x ` set ?nms")
      case c: True
      then show ?thesis using True lv T by (auto simp: map_add_def split: option.splits)
    next
      case c: False
      have "V z = None"
      proof (rule ccontr)
        assume v: "V z \<noteq> None"
        then obtain ls where ls: "names_ok ls" "ls \<noteq> []" "z = rel_path ls" "lookup w (K @ ls) \<noteq> None"
          using view_Some [OF fs] unfolding V_def by (metis not_None_eq)
        then have "strict_prefix ks ls" using True below_rel [OF ok] by (simp add: x_def)
        then obtain nm us where us: "ls = ks @ nm # us" by (elim strict_prefixE') simp
        show False
        proof (cases "us = []")
          case True
          then have "nm \<in> set ?nms" using ls(4) us by (simp add: children_iff)
          then show False using c True ls(3) us by (auto simp: rel_path_snoc x_def)
        next
          case False
          let ?ks = "ks @ [nm]"
          have d: "dir_at V (rel_path ?ks)" "dir_at_key w (K @ ?ks)"
            using view_parent [OF fs, of sha opt K ?ks us] v ls us False unfolding V_def by simp_all
          have "nm \<in> set ?nms" using dir_lookup [OF d(2)] by (simp add: children_iff)
          moreover have "below (rel_path ?ks) z"
            using below_rel [of ?ks ls] ls us False by (auto simp: strict_prefix_def)
          ultimately show False using c d(1) unfolding D by (auto simp: rel_path_snoc x_def)
        qed
      qed
      then show ?thesis using c True T by (simp add: level_eq map_add_def)
    qed
  qed
qed

text \<open>One level: the nodes of a directory are added below it.\<close>

definition level_nodes :: "entries \<Rightarrow> path \<Rightarrow> string list \<Rightarrow> DirectoryNode list \<Rightarrow> bool" where
  "level_nodes V x nms ns \<longleftrightarrow> dir_path x \<and>
     (\<forall>nm \<in> set nms. valid_name nm \<and> (\<exists>e. V (child x nm) = Some e \<and> rp e = child x nm)) \<and>
     distinct (map node_rp ns) \<and> elem ` set ns = (\<lambda>nm. the (V (child x nm))) ` set nms"

lemma level_nodesD:
  assumes "level_nodes V x nms ns"
  shows "dir_path x" and "distinct (map node_rp ns)" and "distinct ns"
    and "n \<in> set ns \<Longrightarrow> \<exists>nm \<in> set nms. valid_name nm \<and> node_rp n = child x nm \<and> V (node_rp n) = Some (elem n)"
    and "nm \<in> set nms \<Longrightarrow> \<exists>n \<in> set ns. valid_name nm \<and> node_rp n = child x nm \<and> V (node_rp n) = Some (elem n)"
proof -
  let ?E = "\<lambda>nm. the (V (child x nm))"
  show "dir_path x" and d: "distinct (map node_rp ns)" using assms by (simp_all add: level_nodes_def)
  then show "distinct ns" by (simp add: distinct_map)
  have E: "valid_name nm \<and> V (child x nm) = Some (?E nm) \<and> rp (?E nm) = child x nm" if "nm \<in> set nms" for nm
    using assms that by (auto simp: level_nodes_def)
  have el: "elem ` set ns = ?E ` set nms" using assms by (simp add: level_nodes_def)
  show "\<exists>nm \<in> set nms. valid_name nm \<and> node_rp n = child x nm \<and> V (node_rp n) = Some (elem n)" if "n \<in> set ns"
  proof -
    have "elem n \<in> ?E ` set nms" unfolding el [symmetric] using that by (rule imageI)
    then show ?thesis using E by auto
  qed
  show "\<exists>n \<in> set ns. valid_name nm \<and> node_rp n = child x nm \<and> V (node_rp n) = Some (elem n)" if "nm \<in> set nms"
  proof -
    have "?E nm \<in> elem ` set ns" unfolding el using that by (rule imageI)
    then show ?thesis using E [OF that] by auto
  qed
qed

lemma level_nodes_apart:
  assumes l: "level_nodes V x nms ns" and n: "n \<in> set ns" "m \<in> set ns" "n \<noteq> m"
  shows "\<not> (\<exists>z. at_or_below (node_rp n) z \<and> at_or_below (node_rp m) z)"
proof -
  have "node_rp n \<noteq> node_rp m" using n level_nodesD(2) [OF l] by (auto simp: distinct_map inj_on_def)
  then show ?thesis
    using level_nodesD(4) [OF l n(1)] level_nodesD(4) [OF l n(2)] at_or_below_child_unique [OF level_nodesD(1) [OF l]]
    by metis
qed

lemma level_nodes_dirs:
  assumes l: "level_nodes V x nms ns" and n: "n \<in> set ns" "isDirectory (elem n)"
    and T: "\<And>z. below x z \<Longrightarrow> T z = None"
  shows "dir_at (T ++ level V x nms) (node_rp n) \<and> (\<forall>z. below (node_rp n) z \<longrightarrow> (T ++ level V x nms) z = None)"
proof -
  note x = level_nodesD(1) [OF l]
  obtain nm where m: "nm \<in> set nms" "valid_name nm" "node_rp n = child x nm" "V (node_rp n) = Some (elem n)"
    using level_nodesD(4) [OF l n(1)] by blast
  have "(T ++ level V x nms) (node_rp n) = Some (elem n)" using m by (simp add: level_eq map_add_def)
  moreover have "(T ++ level V x nms) z = None" if b: "below (node_rp n) z" for z
  proof -
    have "below x z" using b m(2,3) below_child_trans [OF x] by simp
    moreover have "z \<noteq> child x k" if "k \<in> set nms" for k
      using b m(3) below_child_iff [OF x, of k] below_child [OF x m(2)] level_nodesD(5) [OF l that]
      by (metis at_or_below_def below_asym not_below_self)
    then have "z \<notin> child x ` set nms" by blast
    ultimately show ?thesis using T by (simp add: level_eq map_add_def)
  qed
  ultimately show ?thesis using n(2) by (simp add: dir_at_def)
qed

lemma level_nodes_below:
  assumes "level_nodes V x nms ns"
  shows "(\<exists>n \<in> set ns. isDirectory (elem n) \<and> below (node_rp n) z) \<longleftrightarrow>
    (\<exists>nm \<in> set nms. dir_at V (child x nm) \<and> below (child x nm) z)"
  using level_nodesD(4,5) [OF assms] unfolding dir_at_def by (metis (no_types, lifting) option.simps(5))

lemma scan_level:
  fixes sha :: "string \<Rightarrow> string" and opt :: ScanOpt
  assumes calm: "calm w" and fs: "fs_ok w" and top: "top_at w p K" and d: "dir_at_key w (K @ ks)" and ok: "names_ok ks"
    and t: "wf_tree t" "empty_at (rel_path ks) t"
  defines "V \<equiv> fs_view sha opt w K" and "x \<equiv> rel_path ks" and "nms \<equiv> children w (K @ ks)"
  shows "\<exists>ns t1 w1. recursiveBuildFromPath sha opt p (Suc fuel) x t w =
      foldIO (\<lambda>n t. if isDirectory (elem n) then recursiveBuildFromPath sha opt p fuel (node_rp n) t
        else returnIO t) ns t1 w1 \<and>
    calm w1 \<and> same_system w w1 \<and> wf_tree t1 \<and> topPath t1 = topPath t \<and>
    tree_entries t1 = tree_entries t ++ level V x nms \<and> level_nodes V x nms ns"
proof -
  have x: "dir_path x" using ok by (simp add: x_def dir_path_rel)
  have nm: "valid_name nm \<and> (\<exists>e. V (child x nm) = Some e \<and> rp e = child x nm)" if "nm \<in> set nms" for nm
    using that fs_ok_names_ok [OF fs, of "K @ ks" "[nm]"] ok view_rel [of "ks @ [nm]" sha opt w K]
    by (auto simp: children_iff V_def x_def nms_def rel_path_snoc)
  let ?E = "\<lambda>nm. the (V (child x nm))"
  have E: "\<forall>nm \<in> set nms. valid_name nm \<and> rp (?E nm) = child x nm" using nm by fastforce
  obtain w1 where w1: "bindIO (directory_iterator (path_append p x)) (mapIO (\<lambda>it. elementFromPath sha it p opt)) w =
      (Inr (map ?E nms), w1)" "calm w1" "same_system w w1"
    using directory_entries [OF calm fs top d ok] unfolding V_def x_def nms_def by blast
  have dn: "distinct nms" unfolding nms_def by (rule distinct_children [OF fs])
  obtain ns t1 where t1: "addScanned x (map ?E nms) t = Inr (ns, t1)" "wf_tree t1" "topPath t1 = topPath t"
    "tree_entries t1 = tree_entries t ++ level V x nms" "elem ` set ns = ?E ` set nms" "distinct (map node_rp ns)"
    using addScanned_added [OF t(1) x _ dn E] t(2) unfolding level_def x_def by blast
  have "recursiveBuildFromPath sha opt p (Suc fuel) x t =
      bindIO (bindIO (directory_iterator (path_append p x)) (mapIO (\<lambda>it. elementFromPath sha it p opt))) (\<lambda>es.
      bindIO (liftE (addScanned x es t)) (\<lambda>(ns, t1). foldIO (\<lambda>n t. if isDirectory (elem n)
        then recursiveBuildFromPath sha opt p fuel (node_rp n) t else returnIO t) ns t1))"
    by (simp add: bindIO_assoc)
  then have "recursiveBuildFromPath sha opt p (Suc fuel) x t w =
      foldIO (\<lambda>n t. if isDirectory (elem n) then recursiveBuildFromPath sha opt p fuel (node_rp n) t
        else returnIO t) ns t1 w1"
    using w1(1) t1(1) by (simp only: bindIO_Inr) simp
  moreover have "level_nodes V x nms ns" using x nm t1(5,6) by (simp add: level_nodes_def)
  ultimately show ?thesis using w1(2,3) t1(2-4) by blast
qed

lemma recursiveBuildFromPath_scanned:
  assumes "calm w" and "fs_ok w" and "top_at w p K" and "dir_at_key w (K @ ks)" and "names_ok ks"
    and "files_below w (K @ ks) < fuel" and "wf_tree t" and "empty_at (rel_path ks) t"
    and "\<And>z. below (rel_path ks) z \<Longrightarrow> tree_entries t z = None"
  shows "scanned w t (with_view (rel_path ks) (fs_view sha opt w K) (tree_entries t))
    (recursiveBuildFromPath sha opt p fuel (rel_path ks) t)"
  using assms
proof (induction fuel arbitrary: w ks t)
  case (Suc fuel)
  note fs = Suc.prems(2) and ok = Suc.prems(5) and wf = Suc.prems(7) and none = Suc.prems(9)
  let ?x = "rel_path ks" and ?nms = "children w (K @ ks)" and ?V = "fs_view sha opt w K"
  let ?f = "\<lambda>n t. recursiveBuildFromPath sha opt p fuel (node_rp n) t"
  obtain ns t1 w1 where run: "recursiveBuildFromPath sha opt p (Suc fuel) ?x t w =
      foldIO (\<lambda>n t. if isDirectory (elem n) then ?f n t else returnIO t) ns t1 w1"
    and w1: "calm w1" "same_system w w1" and t1: "wf_tree t1" "topPath t1 = topPath t"
    "tree_entries t1 = tree_entries t ++ level ?V ?x ?nms" and l: "level_nodes ?V ?x ?nms ns"
    using scan_level [OF Suc.prems(1-5,7,8)] by blast
  have rec: "scanned w' t' (with_view (node_rp n) ?V (tree_entries t')) (?f n t')"
    if n: "n \<in> set ns" "isDirectory (elem n)" and w': "calm w'" "same_system w1 w'" and t': "wf_tree t'"
      "dir_at (tree_entries t') (node_rp n)" "\<forall>z. below (node_rp n) z \<longrightarrow> tree_entries t' z = None" for n t' w'
  proof -
    obtain nm where m: "nm \<in> set ?nms" "valid_name nm" "node_rp n = rel_path (ks @ [nm])"
      "?V (rel_path (ks @ [nm])) = Some (elem n)"
      using level_nodesD(4) [OF l n(1)] by (auto simp: rel_path_snoc)
    have s: "same_system w w'" by (rule system.trans [OF w1(2) w'(2)])
    have ok': "names_ok (ks @ [nm])" using ok m(2) by simp
    obtain i where i: "lookup w (K @ ks @ [nm]) = Some i" "elem n = element_of sha opt w (rel_path (ks @ [nm])) i"
      using m(4) by (auto simp: view_rel [OF ok'])
    have d: "dir_at_key w' (K @ ks @ [nm])" using i n(2) same_files(1) [OF s] by (simp add: dir_at_key_def)
    have less: "files_below w' (K @ ks @ [nm]) < fuel"
      using files_below_child [of w "K @ ks" nm] i(1) Suc.prems(6) same_files_below [OF s] by simp
    have "empty_at (rel_path (ks @ [nm])) t'"
      using empty_at_iff [OF t'(1) _ t'(2)] t'(3) rel_path_eq_Nil [OF ok'] m(3) by simp
    from Suc.IH [OF w'(1) _ _ _ ok' _ t'(1) this, unfolded same_files(5,6) [OF s] view_same [OF s]]
    show ?thesis using fs Suc.prems(3) d less t'(3) m(3) by simp
  qed
  have "scanned w1 t1 (\<lambda>z. if \<exists>n \<in> set ns. isDirectory (elem n) \<and> below (node_rp n) z then ?V z else tree_entries t1 z)
      (foldIO (\<lambda>n t. if isDirectory (elem n) then ?f n t else returnIO t) ns t1)"
  proof (rule scan_subdirs [OF rec level_nodes_apart [OF l] level_nodesD(3) [OF l] w1(1) system.refl t1(1)])
    show "dir_at (tree_entries t1) (node_rp n) \<and> (\<forall>z. below (node_rp n) z \<longrightarrow> tree_entries t1 z = None)"
      if "n \<in> set ns" "isDirectory (elem n)" for n
      unfolding t1(3) using level_nodes_dirs [OF l that, of "tree_entries t"] none by blast
  qed
  moreover have "(\<lambda>z. if \<exists>n \<in> set ns. isDirectory (elem n) \<and> below (node_rp n) z then ?V z else tree_entries t1 z) =
      with_view ?x ?V (tree_entries t)"
    unfolding t1(3) by (rule level_complete [OF fs ok _ level_nodes_below [OF l]]) (rule none)
  ultimately show ?case using run w1(2) t1(2) system.trans [OF w1(2)] by (auto simp: scanned_def)
qed simp

section \<open>The scan of a directory\<close>

definition scan_of :: "world \<Rightarrow> path \<Rightarrow> key \<Rightarrow> bool" where
  "scan_of w p K \<longleftrightarrow> p \<noteq> [] \<and> top_at w (absolute_path w p) K"

lemma wf_clear: "wf_tree ((clear t)\<lparr>topPath := tp\<rparr>)" "tree_entries ((clear t)\<lparr>topPath := tp\<rparr>) = (\<lambda>_. None)"
  by (simp_all add: wf_tree_def clear_def index_ok_def tree_entries_def forest_entries_def fun_eq_iff)

lemma file_at_absolute: "scan_of w p K \<Longrightarrow> file_at w f (absolute_path w p) = file_at w f p"
  by (simp add: scan_of_def top_at_def top_path_def file_at_def resolve_def absolute_path_def has_root_def
      split: list.splits if_splits)

lemma scan_of_dir:
  assumes "scan_of w p K"
  shows "\<exists>i. file_at w True (absolute_path w p) = Some (K, i) \<and> is_dir i"
  using assms by (auto simp: scan_of_def top_at_def file_at_def dir_at_key_def split: option.splits)

lemma scanDirectory_scanned:
  assumes "calm w" and "fs_ok w" and p: "scan_of w p K"
  shows "\<exists>t' w'. scanDirectory sha t p opt w = (Inr t', w') \<and> calm w' \<and> same_system w w' \<and> wf_tree t' \<and>
    topPath t' = Some (absolute_path w p) \<and> tree_entries t' = fs_view sha opt w K"
proof -
  let ?p = "absolute_path w p" and ?t = "(clear t)\<lparr>topPath := Some (absolute_path w p)\<rparr>"
  have top: "top_at w ?p K" "p \<noteq> []" using p by (simp_all add: scan_of_def)
  have d: "dir_at_key w (K @ [])" using top by (simp add: top_at_def)
  have fuel: "files_below w (K @ []) < Suc (length (files w))" using files_below_bound [of w K] by simp
  have em: "empty_at (rel_path []) ?t" by (simp add: empty_at_def clear_def)
  have "scanned w ?t (with_view (rel_path []) (fs_view sha opt w K) (tree_entries ?t))
      (recursiveBuildFromPath sha opt ?p (Suc (length (files w))) (rel_path []) ?t)"
    by (rule recursiveBuildFromPath_scanned [OF assms(1,2) top(1) d _ fuel wf_clear(1) em])
      (simp_all only: names_ok_simps wf_clear(2))
  moreover have "with_view (rel_path []) (fs_view sha opt w K) (tree_entries ?t) = fs_view sha opt w K"
    by (auto simp: fun_eq_iff wf_clear below_def fs_view_def path_elements_def)
  moreover obtain i where "file_at w True ?p = Some (K, i)" "is_dir i" using scan_of_dir [OF p] by blast
  then have "is_directory ?p w = (Inr True, w)"
    using assms(1) by (simp add: is_directory_def faulty_def calm_def io_simps)
  moreover have "absolute p w = (Inr ?p, w)" using top(2) by (simp add: absolute_def io_simps)
  ultimately show ?thesis by (auto simp: scanDirectory_def bindIO_apply io_simps scanned_def)
qed

lemma scanDirectory_refuses:
  assumes "faults w = []" and "p \<noteq> []" and "\<not> (\<exists>k i. file_at w True (absolute_path w p) = Some (k, i) \<and> is_dir i)"
  shows "scanDirectory sha t p opt w = (Inl (Logic_error (p @ '' is not a directory'')), w)"
proof -
  have "is_directory (absolute_path w p) w = (Inr False, w)"
    using assms(1,3) by (auto simp: is_directory_def faulty_def io_simps split: option.splits)
  then show ?thesis using assms(2) by (simp add: scanDirectory_def bindIO_apply absolute_def io_simps)
qed

end
