(* ===== verification/Ddm_Commands.thy ===== *)
theory Ddm_Commands
  imports Ddm_Scan_Exact Ddm_Scrub Ddm_Exit
begin

text \<open>
  The commands on directories and metadata files: what \<^verbatim>\<open>ls\<close>, \<^verbatim>\<open>diff\<close> and \<^verbatim>\<open>scrub\<close> (main.cpp)
  answer, in terms of the files, in a system without failures.
\<close>

section \<open>Directories\<close>

lemma fromPath_directory:
  assumes "calm w" and "fs_ok w" and p: "scan_of w p K"
  shows "\<exists>t' w'. fromPath sha t p opt w = (Inr t', w') \<and> calm w' \<and> same_system w w' \<and> wf_tree t' \<and>
    tree_entries t' = fs_view sha opt w K"
proof -
  obtain i where "file_at w True p = Some (K, i)" "is_dir i"
    using scan_of_dir [OF p] file_at_absolute [OF p] by auto
  then have "is_directory p w = (Inr True, w)"
    using assms(1) by (simp add: is_directory_def faulty_def calm_def io_simps)
  then show ?thesis using scanDirectory_scanned [OF assms, of sha t opt] by (auto simp: fromPath_def bindIO_apply)
qed

lemma same_scan:
  assumes "same_system w w'"
  shows "scan_of w' p K = scan_of w p K"
  using same_files(6,7) [OF assms] by (simp add: scan_of_def)

definition two_inputs :: "options \<Rightarrow> path \<Rightarrow> path \<Rightarrow> bool" where
  "two_inputs vm a b \<longleftrightarrow> \<not> help_opt vm \<and> source_opt vm = None \<and> target_opt vm = None \<and> \<not> fixup_opt vm \<and>
     ignore_opt vm = None \<and> inputs vm = [a, b]"

lemma diffCmd_directories:
  assumes v: "path_iteration visit" and w: "calm w" "fs_ok w" and a: "scan_of w a A" and b: "scan_of w b B"
    and vm: "two_inputs vm a b"
  defines "opt \<equiv> scanOptOf vm"
  shows "\<exists>code text w'. diffCmd sha visit vm w = (Inr (code, text), w') \<and> same_system w w' \<and>
    (code = 0 \<longleftrightarrow> (\<forall>x. \<not> differs compareAll (fs_view sha opt w A x) (fs_view sha opt w B x)))"
proof -
  obtain ta w1 where ta: "fromPath sha emptyTree a opt w = (Inr ta, w1)" "calm w1" "same_system w w1" "wf_tree ta"
    "tree_entries ta = fs_view sha opt w A"
    using fromPath_directory [OF w a] by blast
  note s = ta(3)
  obtain tb w2 where tb: "fromPath sha emptyTree b opt w1 = (Inr tb, w2)" "same_system w1 w2" "wf_tree tb"
    "tree_entries tb = fs_view sha opt w B"
    using fromPath_directory [OF ta(2), of b B sha emptyTree opt] w(2) b
    unfolding same_scan [OF s] same_files(5) [OF s] view_same [OF s] by blast
  obtain ds where ds: "diff2 visit ta tb compareAll = Inr ds"
    using path_iteration.diff2_reports [OF v ta(4) tb(3)] by blast
  have "ds = [] \<longleftrightarrow> (\<forall>x. \<not> differs compareAll (fs_view sha opt w A x) (fs_view sha opt w B x))"
    using path_iteration.diff2_Nil_iff [OF v ta(4) tb(3), of compareAll] ds ta(5) tb(4) by simp
  moreover have "diffCmd sha visit vm w = (Inr (if ds = [] then 0 else 1, printDiff2 ds), w2)"
    using vm ta(1) tb(1) ds by (simp add: diffCmd_def two_inputs_def Let_def bindIO_apply io_simps opt_def)
  ultimately show ?thesis using system.trans [OF s tb(2)] by auto
qed

section \<open>Metadata files\<close>

text \<open>The file \<open>m\<close> has the text that \<^verbatim>\<open>writeTo\<close> prints for a tree with the entries \<open>E\<close>.\<close>

definition metadata_file :: "world \<Rightarrow> path \<Rightarrow> entries \<Rightarrow> bool" where
  "metadata_file w m E \<longleftrightarrow> (\<exists>t k i. wf_tree t \<and> tree_entries t = E \<and> (\<forall>n \<in> tree_nodes t. file_ok (elem n)) \<and>
     file_at w True m = Some (k, i) \<and> i_data i = Regular (writeTree t))"

lemma ifstream_calm:
  assumes "faults w = []"
  shows "file_at w True m = Some (k, i) \<Longrightarrow> i_data i = Regular s \<Longrightarrow> ifstream m w = (Inr (Some s), w)"
    and "file_at w True m = None \<Longrightarrow> ifstream m w = (Inr None, w)"
proof -
  have f: "w\<lparr>faults := []\<rparr> = w" using assms by simp
  show "file_at w True m = Some (k, i) \<Longrightarrow> i_data i = Regular s \<Longrightarrow> ifstream m w = (Inr (Some s), w)"
    and "file_at w True m = None \<Longrightarrow> ifstream m w = (Inr None, w)"
    using assms by (simp_all add: ifstream_def Let_def f)
qed

lemma readFrom_metadata:
  assumes "calm w" and "metadata_file w m E"
  shows "\<exists>t'. readFrom t m w = (Inr t', w) \<and> wf_tree t' \<and> tree_entries t' = map_option stored \<circ> E"
proof -
  obtain t0 k i where t0: "wf_tree t0" "tree_entries t0 = E" "\<forall>n \<in> tree_nodes t0. file_ok (elem n)"
    "file_at w True m = Some (k, i)" "i_data i = Regular (writeTree t0)"
    using assms(2) by (auto simp: metadata_file_def)
  obtain t' where "readTree t (writeTree t0) m = Inr t'" "wf_tree t'" "tree_entries t' = map_option stored \<circ> E"
    using readTree_writeTree [OF t0(1), of t m] t0(2,3) by blast
  moreover have "ifstream m w = (Inr (Some (writeTree t0)), w)"
    using assms(1) t0(4,5) by (intro ifstream_calm(1)) (simp_all add: calm_def)
  ultimately show ?thesis by (auto simp: readFrom_def bindIO_apply io_simps)
qed

lemma metadata_same: "same_system w w' \<Longrightarrow> metadata_file w' m E = metadata_file w m E"
  using same_files(4) by (simp add: metadata_file_def)

section \<open>Scrub\<close>

lemma hashed_view:
  assumes "fs_ok w" and "\<And>s. sha s \<noteq> []"
  shows "hashed (fs_view sha ComputeHash w K)"
  unfolding hashed_def
proof (intro allI impI)
  fix x e assume "fs_view sha ComputeHash w K x = Some e"
  then obtain i where "e = element_of sha ComputeHash w x i" by (rule view_Some [OF assms(1)])
  then show "elem_ok e \<and> (ty e = FT_regular \<longrightarrow> fileHash e \<noteq> [])"
    using assms(2) elem_ok_element_of by (auto simp: element_of_def data_type_def split: file_data.splits)
qed

text \<open>The entries of a metadata file, with a hash for every regular file.\<close>

definition hashed_file :: "world \<Rightarrow> path \<Rightarrow> entries \<Rightarrow> bool" where
  "hashed_file w m E \<longleftrightarrow> metadata_file w m E \<and> (\<forall>x e. E x = Some e \<longrightarrow> ty e = FT_regular \<longrightarrow> fileHash e \<noteq> [])"

lemma hashed_stored:
  assumes "hashed_file w m E"
  shows "hashed (map_option stored \<circ> E)"
  unfolding hashed_def
proof (intro allI impI)
  fix x e assume "(map_option stored \<circ> E) x = Some e"
  then obtain e0 where e0: "E x = Some e0" "e = stored e0" by auto
  obtain t where t: "wf_tree t" "tree_entries t = E" "\<forall>n \<in> tree_nodes t. file_ok (elem n)"
    using assms by (auto simp: hashed_file_def metadata_file_def)
  then obtain n where "n \<in> tree_nodes t" "elem n = e0" using wf_tree_entries [OF t(1)] e0(1) by blast
  then have "elem_ok e0" using t(3) by (auto simp: file_ok_def line_ok_def)
  then show "elem_ok e \<and> (ty e = FT_regular \<longrightarrow> fileHash e \<noteq> [])"
    using assms e0 by (auto simp: hashed_file_def elem_ok_def stored_def)
qed

lemma treeManagerWithoutSource_loaded:
  assumes w: "calm w" "fs_ok w" and d: "scan_of w dst K" and m: "hashed_file w m1 E1" "hashed_file w m2 E2"
    and sha: "\<And>s. sha s \<noteq> []"
  shows "\<exists>tm w'. treeManagerWithoutSource sha dst m1 m2 ComputeHash w = (Inr tm, w') \<and> same_system w w' \<and>
    scrub_state tm \<and> \<not> save tm \<and> dstE tm = fs_view sha ComputeHash w K \<and>
    meta1E tm = map_option stored \<circ> E1 \<and> meta2E tm = map_option stored \<circ> E2"
proof -
  obtain t1 where t1: "readFrom emptyTree m1 w = (Inr t1, w)" "wf_tree t1" "tree_entries t1 = map_option stored \<circ> E1"
    using readFrom_metadata [OF w(1), of m1] m(1) unfolding hashed_file_def by blast
  obtain t2 where t2: "readFrom emptyTree m2 w = (Inr t2, w)" "wf_tree t2" "tree_entries t2 = map_option stored \<circ> E2"
    using readFrom_metadata [OF w(1), of m2] m(2) unfolding hashed_file_def by blast
  obtain d w' where d: "scanDirectory sha emptyTree dst ComputeHash w = (Inr d, w')" "same_system w w'" "wf_tree d"
    "tree_entries d = fs_view sha ComputeHash w K"
    using scanDirectory_scanned [OF w d] by blast
  have "treeManagerWithoutSource sha dst m1 m2 ComputeHash w =
      (Inr (newTreeManager emptyTree d t1 t2 m1 m2 False), w')"
    using t1(1) t2(1) d(1) by (simp add: treeManagerWithoutSource_def loadMetadataFiles_def bindIO_apply io_simps)
  moreover have "scrub_state (newTreeManager emptyTree d t1 t2 m1 m2 False)"
    using t1(2,3) t2(2,3) d(3,4) hashed_view [OF w(2) sha] hashed_stored [OF m(1)] hashed_stored [OF m(2)]
    by (simp add: scrub_state_def newTreeManager_def)
  ultimately show ?thesis using d t1(3) t2(3) by (auto simp: newTreeManager_def)
qed

lemma scrub_zero_iff:
  assumes v: "path_iteration visit" and w: "calm w" "fs_ok w" and d: "scan_of w dst K"
    and m: "hashed_file w m1 E1" "hashed_file w m2 E2" and sha: "\<And>s. sha s \<noteq> []"
  defines "D \<equiv> fs_view sha ComputeHash w K" and "M1 \<equiv> map_option stored \<circ> E1" and "M2 \<equiv> map_option stored \<circ> E2"
  assumes fuel: "card (bad D M1) + card (bad D M2) < fuel"
  shows "(\<exists>w'. scrub sha visit fuel dst m1 m2 False w = (Inr 0, w')) \<longleftrightarrow>
    (\<forall>x. agree (D x) (M1 x) \<and> agree (D x) (M2 x))"
proof -
  obtain tm w1 where tm: "treeManagerWithoutSource sha dst m1 m2 ComputeHash w = (Inr tm, w1)" "scrub_state tm"
    "\<not> save tm" "dstE tm = D" "meta1E tm = M1" "meta2E tm = M2"
    using treeManagerWithoutSource_loaded [OF w d m, of sha] sha unfolding D_def M1_def M2_def by blast
  have fu: "scrub_measure tm < fuel" using fuel tm(4-6) by (simp add: scrub_measure_def)
  obtain r tm' where r: "scrubImpl visit fuel False (tm, w1) = (Inr r, (tm', w1))"
    "r = 0 \<longleftrightarrow> bad D M1 = {} \<and> bad D M2 = {}"
    using path_iteration.scrubImpl_check [OF v tm(2) fu, of w1] unfolding tm(4-6) by blast
  have run: "scrub sha visit fuel dst m1 m2 False w = (case destroyTreeManager tm' w1 of (Inr _, w') \<Rightarrow> (Inr r, w')
      | (Inl e, w') \<Rightarrow> (Inl (if is_exception e then Abort else e), w'))"
    using tm(1) r(1) by (simp add: scrub_def withTreeManager_def bindIO_apply)
  have "r \<noteq> 1 \<Longrightarrow> destroyTreeManager tm' w1 = (Inr (), w1)"
    using scrubImpl_unsaved [OF r(1)] tm(3) by (simp add: destroyTreeManager_def io_simps)
  then have "(\<exists>w'. scrub sha visit fuel dst m1 m2 False w = (Inr 0, w')) \<longleftrightarrow> r = 0"
    unfolding run by (cases "r = 1") (simp_all split: prod.split sum.split)
  also have "\<dots> \<longleftrightarrow> (\<forall>x. agree (D x) (M1 x) \<and> agree (D x) (M2 x))" unfolding r(2) bad_def by blast
  finally show ?thesis .
qed

section \<open>Listings\<close>

definition one_input :: "options \<Rightarrow> path \<Rightarrow> bool" where
  "one_input vm a \<longleftrightarrow> \<not> help_opt vm \<and> source_opt vm = None \<and> target_opt vm = None \<and> ignore_opt vm = None \<and>
     \<not> fixup_opt vm \<and> inputs vm = [a]"

text \<open>What a listing can say of a file: the set-id bits and odd names are not in the format.\<close>

definition listable :: "FilesystemElement \<Rightarrow> bool" where
  "listable e \<longleftrightarrow> file_ok e \<and> take_bit 9 (per e) = per e"

lemma stored_agrees: "listable e \<Longrightarrow> agree (Some e) (Some (stored e))"
  by (simp add: listable_def stored_def opt_elem_eq_def elem_eq_compare compare_iff)

lemma lsCmd_listing:
  fixes sha :: "string \<Rightarrow> string"
  assumes w: "calm w" "fs_ok w" and p: "scan_of w p K" and vm: "one_input vm p"
  defines "V \<equiv> fs_view sha (scanOptOf vm) w K"
  assumes ok: "\<And>x e. V x = Some e \<Longrightarrow> listable e"
  shows "\<exists>text w' t'. lsCmd sha vm w = (Inr (0, text), w') \<and> same_system w w' \<and>
    readTree t0 text f = Inr t' \<and> wf_tree t' \<and> (\<forall>x. agree (V x) (tree_entries t' x))"
proof -
  obtain t w' where t: "scanDirectory sha emptyTree p (scanOptOf vm) w = (Inr t, w')" "same_system w w'" "wf_tree t"
    "tree_entries t = V"
    using scanDirectory_scanned [OF w p, of sha emptyTree "scanOptOf vm"] unfolding V_def by blast
  have "file_ok (elem n)" if "n \<in> tree_nodes t" for n
    using ok tree_entries_node [OF t(3) that] t(4) by (simp add: listable_def)
  then obtain t' where t': "readTree t0 (writeTree t) f = Inr t'" "wf_tree t'" "tree_entries t' = map_option stored \<circ> V"
    using readTree_writeTree [OF t(3)] t(4) by blast
  have "agree (V x) (tree_entries t' x)" for x
    using ok stored_agrees by (cases "V x") (auto simp: t'(3))
  moreover have "lsCmd sha vm w = (Inr (0, writeTree t), w')"
    using vm t(1) by (simp add: lsCmd_def one_input_def bindIO_apply io_simps)
  ultimately show ?thesis using t(2) t' by blast
qed

end
