(* ===== verification/Ddm_Disk.thy ===== *)
theory Ddm_Disk
  imports Ddm_Commands
begin

text \<open>
  How the calls that write change the files, in a system without failures. The state of the files
  is the map from keys to inodes; every change of it leaves the environment of the program alone
  and keeps what holds of every file system.
\<close>

section \<open>Changes of the map of files\<close>

lemma lookup_set_file [simp]: "lookup (set_file k i w) = (lookup w)(k \<mapsto> i)"
  by (simp add: fun_eq_iff lookup_def set_file_def update_conv')

lemma lookup_delete_file [simp]: "lookup (delete_file k w) = (lookup w)(k := None)"
  by (simp add: fun_eq_iff lookup_def delete_file_def delete_conv')

lemma lookup_tick [simp]: "lookup (tick w) = lookup w"
  by (simp add: fun_eq_iff lookup_def tick_def)

lemma lookup_update_inode [simp]: "lookup (update_inode k f w) = (lookup w)(k := map_option f (lookup w k))"
  by (auto simp: update_inode_def split: option.split)

definition with_mtime :: "int \<Rightarrow> inode option \<Rightarrow> inode option" where
  "with_mtime m = map_option (\<lambda>i. i\<lparr>i_mtime := m\<rparr>)"

lemma with_mtime_simps [simp]:
  "with_mtime m None = None" "with_mtime m (Some i) = Some (i\<lparr>i_mtime := m\<rparr>)"
  "with_mtime m o1 = None \<longleftrightarrow> o1 = None" "with_mtime m (with_mtime n o1) = with_mtime m o1"
  "map_option i_data (with_mtime m o1) = map_option i_data o1"
  by (cases o1; simp add: with_mtime_def)+

lemma with_mtime_same: "i = Some j \<Longrightarrow> with_mtime (i_mtime j) i = i"
  by simp

lemma lookup_touch_parent [simp]:
  "lookup (touch_parent k w) = (lookup w)(butlast k := with_mtime (now w) (lookup w (butlast k)))"
  by (auto simp: touch_parent_def split: option.split)

lemma lookup_remove_file [simp]:
  "lookup (remove_file k w) = (lookup w)(butlast k := with_mtime (now w) (lookup w (butlast k)), k := None)"
  by (simp add: remove_file_def)

lemma butlast_neq [simp]: "k \<noteq> [] \<Longrightarrow> butlast k \<noteq> k"
  by (metis append_butlast_last_id append_self_conv list.discI)

section \<open>What a change leaves alone\<close>

definition env_of :: "world \<Rightarrow> path \<times> perms \<times> nat \<times> nat \<times> (nat \<Rightarrow> int) \<times> (nat \<times> string) list \<times> (nat \<times> string) list \<times> string" where
  "env_of w = (cwd w, umask w, euid w, egid w, clock w, passwd w, groups w, stdin w)"

text \<open>
  From \<open>w\<close> to \<open>w'\<close> the files became \<open>L\<close>, and nothing else changed but the clock and the caches of
  names, which only grow.
\<close>

definition names_kept :: "world \<Rightarrow> world \<Rightarrow> bool" where
  "names_kept w w' \<longleftrightarrow> userReverseCache w \<subseteq>\<^sub>m userReverseCache w' \<and> groupReverseCache w \<subseteq>\<^sub>m groupReverseCache w'"

definition changed :: "world \<Rightarrow> (key \<Rightarrow> inode option) \<Rightarrow> world \<Rightarrow> bool" where
  "changed w L w' \<longleftrightarrow> lookup w' = L \<and> env_of w' = env_of w \<and> calm w' \<and> names_kept w w' \<and>
     distinct (map fst (files w'))"

lemma names_kept_refl [simp]: "names_kept w w"
  by (simp add: names_kept_def)

lemma names_kept_trans: "names_kept w w' \<Longrightarrow> names_kept w' w'' \<Longrightarrow> names_kept w w''"
  by (auto simp: names_kept_def intro: map_le_trans)

lemma changed_refl: "calm w \<Longrightarrow> distinct (map fst (files w)) \<Longrightarrow> changed w (lookup w) w"
  by (simp add: changed_def)

lemma changed_trans: "changed w L w' \<Longrightarrow> changed w' L' w'' \<Longrightarrow> changed w L' w''"
  by (auto simp: changed_def intro: names_kept_trans)

lemma changedD:
  assumes "changed w L w'"
  shows "lookup w' = L" and "calm w'" and "distinct (map fst (files w'))" and "cwd w' = cwd w"
    and "passwd w' = passwd w" and "groups w' = groups w" and "stdin w' = stdin w" and "faults w' = []"
    and "names_kept w w'"
  using assms by (auto simp: changed_def env_of_def calm_def)

text \<open>The primitive changes.\<close>

definition disk_rel :: "world \<Rightarrow> world \<Rightarrow> bool" where
  "disk_rel w w' \<longleftrightarrow> w' = w\<lparr>files := files w', ticks := ticks w'\<rparr> \<and>
     (distinct (map fst (files w)) \<longrightarrow> distinct (map fst (files w')))"

lemma disk_relI:
  assumes "w' = w\<lparr>files := fs, ticks := n\<rparr>" and "distinct (map fst (files w)) \<Longrightarrow> distinct (map fst fs)"
  shows "disk_rel w w'"
  using assms by (simp add: disk_rel_def)

lemma disk_rel_changed:
  assumes "disk_rel w w'" and "calm w" and "distinct (map fst (files w))"
  shows "changed w (lookup w') w'"
proof -
  obtain fs n where "w' = w\<lparr>files := fs, ticks := n\<rparr>" "distinct (map fst (files w'))"
    using assms(1,3) by (metis disk_rel_def)
  then show ?thesis using assms(2) by (simp add: changed_def env_of_def calm_def names_kept_def)
qed

lemma disk_rel_trans:
  assumes "disk_rel w w'" and "disk_rel w' w''"
  shows "disk_rel w w''"
proof -
  obtain fs n gs m where "w' = w\<lparr>files := fs, ticks := n\<rparr>" "w'' = w'\<lparr>files := gs, ticks := m\<rparr>"
    using assms by (metis disk_rel_def)
  then show ?thesis using assms by (intro disk_relI [where fs = gs and n = m]) (auto simp: disk_rel_def)
qed

lemma disk_rel_refl: "disk_rel w w"
  by (rule disk_relI [where fs = "files w" and n = "ticks w"]) simp_all

lemma disk_rel_tick: "disk_rel w (tick w)"
  by (rule disk_relI [where fs = "files w" and n = "Suc (ticks w)"]) (simp_all add: tick_def)

lemma disk_rel_set: "disk_rel w (set_file k i w)"
  by (rule disk_relI [where fs = "AList.update k i (files w)" and n = "ticks w"])
    (simp_all add: set_file_def distinct_update)

lemma disk_rel_delete: "disk_rel w (delete_file k w)"
  by (rule disk_relI [where fs = "AList.delete k (files w)" and n = "ticks w"])
    (simp_all add: delete_file_def distinct_delete)

lemma disk_rel_update: "disk_rel w (update_inode k f w)"
  by (cases "lookup w k") (simp_all add: update_inode_def disk_rel_refl disk_rel_set)

lemma disk_rel_touch: "disk_rel w (touch_parent k w)"
proof (cases "lookup w (butlast k)")
  case (Some i)
  then show ?thesis unfolding touch_parent_def by simp (rule disk_rel_trans [OF disk_rel_set disk_rel_tick])
qed (simp add: touch_parent_def disk_rel_refl)

lemma disk_rel_create: "disk_rel w (create_file k p d w)"
  unfolding create_file_def by (rule disk_rel_trans [OF disk_rel_touch disk_rel_trans [OF disk_rel_set disk_rel_tick]])

lemma disk_rel_remove: "disk_rel w (remove_file k w)"
  unfolding remove_file_def by (rule disk_rel_trans [OF disk_rel_touch disk_rel_delete])

lemma disk_rel_tick_update: "disk_rel w (tick (update_inode k f w))"
  by (rule disk_rel_trans [OF disk_rel_update disk_rel_tick])

section \<open>What holds of every file system\<close>

lemma fs_ok_iff:
  "fs_ok w \<longleftrightarrow> distinct (map fst (files w)) \<and> dir_at_key w [] \<and>
     (\<forall>k. lookup w k \<noteq> None \<longrightarrow> k \<noteq> [] \<longrightarrow> proper_name (last k) \<and> dir_at_key w (butlast k))"
  unfolding fs_ok_def lookup_dom by blast

lemma dir_at_key_data: "dir_at_key w k \<longleftrightarrow> map_option i_data (lookup w k) = Some Directory"
  by (auto simp: dir_at_key_def is_dir_def split: option.split)

lemma fs_ok_distinct: "fs_ok w \<Longrightarrow> distinct (map fst (files w))"
  by (simp add: fs_ok_def)

text \<open>A change that keeps the directories, and only adds entries to directories.\<close>

lemma fs_ok_changed:
  assumes "fs_ok w" and "changed w L w'" and "dir_at_key w' []"
    and "\<And>k. L k \<noteq> None \<Longrightarrow> k \<noteq> [] \<Longrightarrow> lookup w k \<noteq> None \<or> proper_name (last k)"
    and "\<And>k. L k \<noteq> None \<Longrightarrow> k \<noteq> [] \<Longrightarrow> map_option i_data (L (butlast k)) = Some Directory"
  shows "fs_ok w'"
  unfolding fs_ok_iff
proof (intro conjI allI impI)
  note l = changedD(1) [OF assms(2)]
  show "distinct (map fst (files w'))" by (rule changedD(3) [OF assms(2)])
  show "dir_at_key w' []" by fact
  fix k assume k: "lookup w' k \<noteq> None" "k \<noteq> []"
  show "proper_name (last k)" using assms(1,4) k unfolding fs_ok_iff l by blast
  show "dir_at_key w' (butlast k)" using assms(5) k unfolding dir_at_key_data l by blast
qed

section \<open>Paths that keep their meaning\<close>

text \<open>Resolution only looks at the kinds of files and the targets of links.\<close>

definition kind :: "inode \<Rightarrow> file_data" where
  "kind i = (case i_data i of Regular _ \<Rightarrow> Regular [] | d \<Rightarrow> d)"

lemma walk_kind:
  assumes "\<And>k. map_option kind (lookup w' k) = map_option kind (lookup w k)"
  shows "walk w' f n cur cs = walk w f n cur cs"
  using assms
proof (induction w f n cur cs rule: walk.induct)
  case (2 w f n cur c cs)
  show ?case
  proof (cases "lookup w (cur @ [c])")
    case None
    then have "lookup w' (cur @ [c]) = None" using 2(5) [of "cur @ [c]"] by simp
    with None 2 show ?thesis by (simp add: walk.simps(2))
  next
    case (Some i)
    then obtain j where j: "lookup w' (cur @ [c]) = Some j" "kind j = kind i" using 2(5) [of "cur @ [c]"] by auto
    with Some 2 show ?thesis by (cases "i_data i"; cases "i_data j") (simp_all add: walk.simps(2) kind_def)
  qed
qed simp

lemma kind_data: "map_option i_data a = map_option i_data b \<Longrightarrow> map_option kind a = map_option kind b"
  by (cases a; cases b) (simp_all add: kind_def)

lemmas walk_data = walk_kind [OF kind_data]

lemma walk_extend:
  assumes "walk w0 True n cur xs = Some k" and "lookup w0 k \<noteq> None"
    and "\<And>k i. lookup w0 k = Some i \<Longrightarrow> \<exists>j. lookup w k = Some j \<and> i_data j = i_data i"
  shows "walk w True n cur xs = Some k"
  using assms
proof (induction w0 True n cur xs rule: walk.induct)
  case (2 w0 n cur c cs)
  show ?case
  proof (cases "c = [] \<or> c = ''.'' \<or> c = ''..''")
    case True
    with 2 show ?thesis by (auto simp: walk.simps(2) split: if_splits)
  next
    case False
    show ?thesis
    proof (cases "lookup w0 (cur @ [c])")
      case None
      with False 2(5,6) show ?thesis by (auto simp: walk.simps(2) split: if_splits)
    next
      case (Some i)
      then obtain j where j: "lookup w (cur @ [c]) = Some j" "i_data j = i_data i" using 2(7) by blast
      show ?thesis
      proof (cases "i_data i")
        case (Symlink target)
        have n: "n \<noteq> 0" "walk w0 True (n - 1) (if has_root target then [] else cur) (path_elements target @ cs) = Some k"
          using 2(5) False Some Symlink by (simp_all add: walk.simps(2) split: if_splits)
        from 2(4) [OF _ _ Some Symlink _ n 2(6,7)] False j Symlink n(1) show ?thesis by (simp add: walk.simps(2))
      qed (use False Some j 2 in \<open>auto simp: walk.simps(2) split: if_splits\<close>)
    qed
  qed
qed simp

text \<open>
  A path is anchored outside a directory if it leads to its file also when the directory is
  emptied. Changes below the directory do not affect such a path.
\<close>

definition prune :: "key \<Rightarrow> world \<Rightarrow> world" where
  "prune B w = w\<lparr>files := filter (\<lambda>(k, i). \<not> strict_prefix B k) (files w)\<rparr>"

lemma lookup_prune: "lookup (prune B w) k = (if strict_prefix B k then None else lookup w k)"
proof -
  have "map_of (filter (\<lambda>(k, i). \<not> strict_prefix B k) xs) k = (if strict_prefix B k then None else map_of xs k)"
    for xs :: "(key \<times> inode) list" by (induction xs) auto
  then show ?thesis by (simp add: lookup_def prune_def)
qed

definition anchored :: "world \<Rightarrow> key \<Rightarrow> path \<Rightarrow> key \<Rightarrow> bool" where
  "anchored w B p K \<longleftrightarrow> top_at (prune B w) p K"

lemma resolve_root: "top_path p \<Longrightarrow> resolve w f p = walk w f max_links [] (path_elements p)"
  by (auto simp: resolve_def absolute_path_def top_path_def has_root_def)

lemma anchored_top:
  assumes "anchored w B p K"
  shows "top_at w p K"
proof -
  have t: "top_path p" "walk (prune B w) True max_links [] (path_elements p) = Some K" "dir_at_key (prune B w) K"
    using assms resolve_root unfolding anchored_def top_at_def by auto
  have "walk w True max_links [] (path_elements p) = Some K"
    by (rule walk_extend [OF t(2) dir_lookup [OF t(3)]]) (simp add: lookup_prune split: if_splits)
  then show ?thesis using t by (auto simp: top_at_def resolve_root dir_at_key_data lookup_prune split: if_splits)
qed

lemma anchored_changed:
  assumes "anchored w B p K"
    and "\<And>k. \<not> strict_prefix B k \<Longrightarrow> map_option i_data (lookup w' k) = map_option i_data (lookup w k)"
  shows "anchored w' B p K"
proof -
  have l: "map_option i_data (lookup (prune B w') k) = map_option i_data (lookup (prune B w) k)" for k
    using assms(2) by (simp add: lookup_prune)
  then show ?thesis using assms(1) walk_data [OF l]
    by (simp add: anchored_def top_at_def resolve_root dir_at_key_data cong: conj_cong)
qed

section \<open>The directory of a backup\<close>

definition target :: "world \<Rightarrow> path \<Rightarrow> key \<Rightarrow> bool" where
  "target w p K \<longleftrightarrow> calm w \<and> fs_ok w \<and> anchored w K p K"

lemma targetD:
  assumes "target w p K"
  shows "calm w" and "fs_ok w" and "top_at w p K" and "dir_at_key w K" and "faults w = []"
    and "distinct (map fst (files w))"
  using assms anchored_top by (auto simp: target_def calm_def top_at_def fs_ok_def)

lemma target_changed:
  assumes "target w p K" and "changed w L w'"
    and "\<And>k. \<not> strict_prefix K k \<Longrightarrow> map_option i_data (L k) = map_option i_data (lookup w k)"
    and "\<And>k. L k \<noteq> None \<Longrightarrow> k \<noteq> [] \<Longrightarrow> lookup w k \<noteq> None \<or> proper_name (last k)"
    and "\<And>k. L k \<noteq> None \<Longrightarrow> k \<noteq> [] \<Longrightarrow> map_option i_data (L (butlast k)) = Some Directory"
  shows "target w' p K"
proof -
  note l = changedD(1) [OF assms(2)]
  have "dir_at_key w' []"
    using assms(3) [of "[]"] targetD(2) [OF assms(1)] unfolding dir_at_key_data fs_ok_iff l by simp
  with fs_ok_changed [OF targetD(2) [OF assms(1)] assms(2) _ assms(4,5)]
  show ?thesis using anchored_changed [of w K p K w'] assms(1,3) changedD(2) [OF assms(2)]
    unfolding target_def l by blast
qed

lemma target_attributes:
  assumes "target w p K" and "changed w L w'"
    and d: "\<And>k. map_option i_data (L k) = map_option i_data (lookup w k)"
  shows "target w' p K"
proof (rule target_changed [OF assms(1,2)])
  fix k assume k: "L k \<noteq> None" "k \<noteq> []"
  then have "lookup w k \<noteq> None" using d [of k] by (cases "lookup w k") auto
  then show "lookup w k \<noteq> None \<or> proper_name (last k)" by simp
  from \<open>lookup w k \<noteq> None\<close> show "map_option i_data (L (butlast k)) = Some Directory"
    using targetD(2) [OF assms(1)] k(2) unfolding d fs_ok_iff dir_at_key_data by blast
qed (rule d)

section \<open>Writing a file\<close>

lemma faults_simps [simp]:
  "lookup (w\<lparr>faults := fs\<rparr>) = lookup w" "resolve (w\<lparr>faults := fs\<rparr>) f p = resolve w f p"
  "file_at (w\<lparr>faults := fs\<rparr>) f p = file_at w f p" "now (w\<lparr>faults := fs\<rparr>) = now w"
  using same_files(3,4) [OF same_system_faults [where w = w and fs = fs]] same_system_facts(6) [OF same_system_faults [where w = w and fs = fs]]
  by (simp_all add: now_def)

lemma resolve_kind:
  assumes "\<And>k. map_option kind (lookup w' k) = map_option kind (lookup w k)" and "cwd w' = cwd w"
  shows "resolve w' f p = resolve w f p"
  using assms(2) walk_kind [OF assms(1)] by (simp add: resolve_def absolute_path_def)

lemma ofstream_existing:
  assumes "file_at w True p = Some (k, i)" and "i_data i = Regular s" and "\<And>bs. faults w \<noteq> True # bs"
  shows "ofstream p w = (Inr True, tick (set_file k (i\<lparr>i_data := Regular [], i_mtime := now w\<rparr>)
    (w\<lparr>faults := drop 1 (faults w)\<rparr>)))"
proof -
  have k: "resolve w True p = Some k" "lookup w k = Some i"
    using assms(1) by (auto simp: file_at_def split: option.splits)
  then show ?thesis using assms(2,3) unfolding ofstream_def
    by (auto simp: Let_def split: list.splits bool.splits)
qed

text \<open>The text of a file that was opened is replaced, or lost if the write fails.\<close>

lemma writeTo_existing:
  assumes p: "file_at w True p = Some (k, i)" "i_data i = Regular s" and f: "faults w = [] \<or> faults w = [False, b]"
  shows "\<exists>w' m. writeTo t p w = (Inr (), w') \<and> faults w' = [] \<and> cwd w' = cwd w \<and>
    lookup w' = (lookup w)(k \<mapsto> i\<lparr>i_data := Regular (if faults w = [False, True] then [] else writeTree t), i_mtime := m\<rparr>)"
proof -
  let ?w = "tick (set_file k (i\<lparr>i_data := Regular [], i_mtime := now w\<rparr>) (w\<lparr>faults := drop 1 (faults w)\<rparr>))"
  have k: "resolve w True p = Some k" "lookup w k = Some i"
    using p(1) by (auto simp: file_at_def split: option.splits)
  have o: "ofstream p w = (Inr True, ?w)" using ofstream_existing [OF p] f by auto
  have r: "resolve ?w True p = Some k"
  proof -
    have "map_option kind (lookup ?w k') = map_option kind (lookup w k')" for k'
      using k(2) p(2) by (simp add: kind_def)
    moreover have "cwd ?w = cwd w" by (simp add: tick_def set_file_def)
    ultimately show ?thesis using resolve_kind [of ?w w True p] k(1) by simp
  qed
  have fa: "faults ?w = drop 1 (faults w)" by (simp add: tick_def set_file_def)
  show ?thesis
  proof (cases "faults w = [False, True]")
    case True
    moreover have "cwd ?w = cwd w" by (simp add: tick_def set_file_def)
    ultimately show ?thesis using o fa
      by (auto simp: writeTo_def bindIO_apply stream_write_def)
  next
    case False
    then have "faults ?w = [] \<or> faults ?w = [False]" using fa f by (cases b) auto
    then have "stream_write p (writeTree t) ?w = (Inr (), tick (update_inode k
        (\<lambda>i. i\<lparr>i_data := Regular (writeTree t), i_mtime := now ?w\<rparr>) (?w\<lparr>faults := []\<rparr>)))"
      using r by (auto simp: stream_write_def Let_def)
    then have run: "writeTo t p w = (Inr (), tick (update_inode k
        (\<lambda>i. i\<lparr>i_data := Regular (writeTree t), i_mtime := now ?w\<rparr>) (?w\<lparr>faults := []\<rparr>)))"
      using o by (simp add: writeTo_def bindIO_apply)
    have "faults (tick (update_inode k g (v\<lparr>faults := []\<rparr>))) = []" "cwd (tick (update_inode k g (v\<lparr>faults := []\<rparr>))) = cwd v"
      for g v by (simp_all add: tick_def update_inode_def set_file_def split: option.split)
    moreover have "cwd ?w = cwd w" by (simp add: tick_def set_file_def)
    ultimately show ?thesis unfolding run using False
      by (intro exI conjI) (rule refl, simp, simp, simp add: fun_eq_iff)
  qed
qed

text \<open>A saved metadata file is read back, and no other file changes.\<close>

lemma writeTo_readFrom:
  assumes "faults w = []" and p: "file_at w True p = Some (k, i)" "i_data i = Regular s"
    and t: "wf_tree t" "\<And>n. n \<in> tree_nodes t \<Longrightarrow> file_ok (elem n)"
  shows "\<exists>w' t'. writeTo t p w = (Inr (), w') \<and> (\<forall>k'. k' \<noteq> k \<longrightarrow> lookup w' k' = lookup w k') \<and>
    readFrom t0 p w' = (Inr t', w') \<and> wf_tree t' \<and> tree_entries t' = map_option stored \<circ> tree_entries t"
proof -
  obtain w' m where w': "writeTo t p w = (Inr (), w')" "faults w' = []" "cwd w' = cwd w"
    "lookup w' = (lookup w)(k \<mapsto> i\<lparr>i_data := Regular (writeTree t), i_mtime := m\<rparr>)"
    using writeTo_existing [OF p, of True t] assms(1) by auto
  have k: "resolve w True p = Some k" "lookup w k = Some i" using p(1) by (auto simp: file_at_def split: option.splits)
  have "map_option kind (lookup w' k') = map_option kind (lookup w k')" for k'
    using k(2) p(2) unfolding w'(4) by (simp add: kind_def)
  then have "resolve w' True p = Some k" using resolve_kind [of w' w True p] w'(3) k(1) by simp
  then have "file_at w' True p = Some (k, i\<lparr>i_data := Regular (writeTree t), i_mtime := m\<rparr>)"
    by (simp add: file_at_def w'(4))
  from ifstream_calm(1) [OF w'(2) this, of "writeTree t"]
  have "ifstream p w' = (Inr (Some (writeTree t)), w')" by simp
  moreover obtain t' where "readTree t0 (writeTree t) p = Inr t'" "wf_tree t'"
    "tree_entries t' = map_option stored \<circ> tree_entries t"
    using readTree_writeTree [OF t(1), of t0 p] t(2) by blast
  ultimately show ?thesis using w'(1,4) by (auto simp: readFrom_def bindIO_apply io_simps)
qed

end
