(* ===== verification/Ddm_Disk_View.thy ===== *)
theory Ddm_Disk_View
  imports Ddm_Disk
begin

text \<open>
  The calls that write, seen as changes of the view of the backup directory: a map from relative
  paths to elements, as a scan would give it. Link counts are left out of the view, because a copy
  does not keep them and no comparison looks at them.

  The setting of a backup is fixed: source and target directory, all files outside the target,
  and the names of users and groups. A state consists of the view of the target.
\<close>

section \<open>Views\<close>

definition plain :: "FilesystemElement \<Rightarrow> FilesystemElement" where
  "plain e = e\<lparr>hardLinkCnt := 1\<rparr>"

lemma plain_simps [simp]:
  "rp (plain e) = rp e" "per (plain e) = per e" "us (plain e) = us e" "gs (plain e) = gs e" "mt (plain e) = mt e"
  "ty (plain e) = ty e" "sz (plain e) = sz e" "fileHash (plain e) = fileHash e" "symlink (plain e) = symlink e"
  "isDirectory (plain e) = isDirectory e" "plain (plain e) = plain e"
  by (simp_all add: plain_def isDirectory_def)

lemma compare_plain [simp]: "compare (plain a) b opt = compare a b opt" "compare a (plain b) opt = compare a b opt"
  by (simp_all add: compare_iff)

record setting =
  ds_sha :: "string \<Rightarrow> string"
  ds_opt :: ScanOpt
  ds_src :: path
  ds_srcKey :: key
  ds_dst :: path
  ds_dstKey :: key
  ds_outer :: "key \<Rightarrow> inode option"
  ds_users :: "(nat \<times> string) list"
  ds_groups :: "(nat \<times> string) list"
  ds_unames :: "string set"
  ds_gnames :: "string set"

definition inode_elem :: "setting \<Rightarrow> path \<Rightarrow> inode \<Rightarrow> FilesystemElement" where
  "inode_elem c x i = emptyElement\<lparr>rp := x, per := i_perm i AND 0xFFF,
     us := name_of (ds_users c) (i_uid i), gs := name_of (ds_groups c) (i_gid i), mt := i_mtime i,
     ty := data_type (i_data i), hardLinkCnt := 1,
     sz := (case i_data i of Regular s \<Rightarrow> int (length s) | _ \<Rightarrow> 0),
     fileHash := (case i_data i of Regular s \<Rightarrow> if ds_opt c = ComputeHash then ds_sha c s else [] | _ \<Rightarrow> []),
     symlink := (case i_data i of Symlink l \<Rightarrow> l | _ \<Rightarrow> [])\<rparr>"

lemma inode_elem_element:
  assumes "passwd w = ds_users c" and "groups w = ds_groups c"
  shows "plain (element_of (ds_sha c) (ds_opt c) w x i) = inode_elem c x i"
  using assms by (simp add: inode_elem_def element_of_def plain_def emptyElement_def)

definition view_of :: "setting \<Rightarrow> (string list \<Rightarrow> inode option) \<Rightarrow> entries" where
  "view_of c F x = (let ks = path_elements x in
     if ks \<noteq> [] \<and> rel_path ks = x then map_option (inode_elem c x) (F ks) else None)"

lemma view_of_rel [simp]:
  "names_ok ks \<Longrightarrow> ks \<noteq> [] \<Longrightarrow> view_of c F (rel_path ks) = map_option (inode_elem c (rel_path ks)) (F ks)"
  by (simp add: view_of_def elements_rel)

lemma view_of_Nil [simp]: "view_of c F [] = None"
  by (simp add: view_of_def path_elements_def)

lemma view_of_fs_view:
  assumes "passwd w = ds_users c" and "groups w = ds_groups c"
  shows "map_option plain (fs_view (ds_sha c) (ds_opt c) w K x) = view_of c (\<lambda>ks. lookup w (K @ ks)) x"
  using inode_elem_element [OF assms]
  by (simp add: fs_view_def view_of_def Let_def option.map_comp comp_def)

lemma view_of_update:
  assumes "names_ok ks" and "ks \<noteq> []"
  shows "view_of c (F(ks := v)) = (view_of c F)(rel_path ks := map_option (inode_elem c (rel_path ks)) v)"
  using assms elements_rel [OF assms(1)] by (auto simp: fun_eq_iff view_of_def Let_def)

definition set_mt :: "path \<Rightarrow> int \<Rightarrow> entries \<Rightarrow> entries" where
  "set_mt q m V = V(q := map_option (\<lambda>e. e\<lparr>mt := m\<rparr>) (V q))"

lemma inode_elem_mtime: "inode_elem c x (i\<lparr>i_mtime := m\<rparr>) = (inode_elem c x i)\<lparr>mt := m\<rparr>"
  by (simp add: inode_elem_def)

lemma view_of_mtime:
  assumes "names_ok ks"
  shows "view_of c (F(ks := with_mtime m (F ks))) = set_mt (rel_path ks) m (view_of c F)"
proof (cases "ks = []")
  case True
  have "view_of c (F([] := v)) = view_of c F" for v by (auto simp: fun_eq_iff view_of_def Let_def)
  with True show ?thesis by (simp add: set_mt_def fun_eq_iff)
next
  case False
  then show ?thesis using assms view_of_update [OF assms False]
    by (simp add: set_mt_def with_mtime_def option.map_comp comp_def inode_elem_mtime)
qed

lemma view_of_cong: "(\<And>ks. ks \<noteq> [] \<Longrightarrow> F ks = G ks) \<Longrightarrow> view_of c F = view_of c G"
  by (auto simp: fun_eq_iff view_of_def Let_def)

section \<open>States\<close>

definition name_known :: "(string \<Rightarrow> nat option) \<Rightarrow> (nat \<times> string) list \<Rightarrow> string \<Rightarrow> bool" where
  "name_known r db s \<longleftrightarrow> r s \<noteq> None \<or> s \<in> snd ` set db"

definition setting_ok :: "setting \<Rightarrow> bool" where
  "setting_ok c \<longleftrightarrow> \<not> prefix (ds_dstKey c) (ds_srcKey c) \<and> \<not> prefix (ds_srcKey c) (ds_dstKey c) \<and>
     distinct (map fst (ds_users c)) \<and> distinct (map fst (ds_groups c))"

definition disk_state :: "setting \<Rightarrow> entries \<Rightarrow> world \<Rightarrow> bool" where
  "disk_state c V w \<longleftrightarrow> setting_ok c \<and> target w (ds_dst c) (ds_dstKey c) \<and> anchored w (ds_dstKey c) (ds_src c) (ds_srcKey c) \<and>
     (\<forall>k. \<not> prefix (ds_dstKey c) k \<longrightarrow> lookup w k = ds_outer c k) \<and>
     passwd w = ds_users c \<and> groups w = ds_groups c \<and>
     (\<forall>s \<in> ds_unames c. name_known (userReverseCache w) (passwd w) s) \<and>
     (\<forall>s \<in> ds_gnames c. name_known (groupReverseCache w) (groups w) s) \<and>
     V = view_of c (\<lambda>ks. lookup w (ds_dstKey c @ ks))"

lemma disk_stateD:
  assumes "disk_state c V w"
  shows "setting_ok c" and "target w (ds_dst c) (ds_dstKey c)" and "anchored w (ds_dstKey c) (ds_src c) (ds_srcKey c)"
    and "passwd w = ds_users c" and "groups w = ds_groups c" and "V = view_of c (\<lambda>ks. lookup w (ds_dstKey c @ ks))"
    and "calm w" and "fs_ok w" and "faults w = []" and "top_at w (ds_dst c) (ds_dstKey c)"
    and "distinct (map fst (files w))"
  using assms targetD [of w "ds_dst c" "ds_dstKey c"] by (auto simp: disk_state_def)

text \<open>A call returns in every state with the given view, with a result and a view as described.\<close>

definition does :: "setting \<Rightarrow> entries \<Rightarrow> 'a wio \<Rightarrow> ('a \<Rightarrow> entries \<Rightarrow> bool) \<Rightarrow> bool" where
  "does c V m Q \<longleftrightarrow> (\<forall>w. disk_state c V w \<longrightarrow> (\<exists>x V' w'. m w = (Inr x, w') \<and> disk_state c V' w' \<and> Q x V'))"

abbreviation exactly :: "'a \<Rightarrow> entries \<Rightarrow> 'a \<Rightarrow> entries \<Rightarrow> bool" where
  "exactly x V \<equiv> \<lambda>y W. y = x \<and> W = V"

lemma doesI: "(\<And>w. disk_state c V w \<Longrightarrow> \<exists>x V' w'. m w = (Inr x, w') \<and> disk_state c V' w' \<and> Q x V') \<Longrightarrow> does c V m Q"
  by (simp add: does_def)

lemma doesI_exactly: "(\<And>w. disk_state c V w \<Longrightarrow> \<exists>w'. m w = (Inr x, w') \<and> disk_state c V' w') \<Longrightarrow> does c V m (exactly x V')"
  by (simp add: does_def)

lemma doesD: "does c V m Q \<Longrightarrow> disk_state c V w \<Longrightarrow> \<exists>x V' w'. m w = (Inr x, w') \<and> disk_state c V' w' \<and> Q x V'"
  by (simp add: does_def)

lemma does_return: "Q x V \<Longrightarrow> does c V (returnIO x) Q"
  by (auto simp: does_def io_simps)

lemma does_lift: "r = Inr x \<Longrightarrow> Q x V \<Longrightarrow> does c V (liftE r) Q"
  by (auto simp: does_def io_simps)

lemma does_weaken: "does c V m Q \<Longrightarrow> (\<And>x V'. Q x V' \<Longrightarrow> Q' x V') \<Longrightarrow> does c V m Q'"
  unfolding does_def by blast

lemma does_bind:
  assumes "does c V m Q" and "\<And>x V1. Q x V1 \<Longrightarrow> does c V1 (f x) Q'"
  shows "does c V (bindIO m f) Q'"
proof (rule doesI)
  fix w assume "disk_state c V w"
  then obtain x V1 w1 where w1: "m w = (Inr x, w1)" "disk_state c V1 w1" "Q x V1" using assms(1) by (blast dest: doesD)
  then obtain y V2 w2 where "f x w1 = (Inr y, w2)" "disk_state c V2 w2" "Q' y V2" using assms(2) by (blast dest: doesD)
  with w1 show "\<exists>y V2 w'. bindIO m f w = (Inr y, w') \<and> disk_state c V2 w' \<and> Q' y V2" by (auto simp: bindIO_apply)
qed

lemma does_bind_exactly:
  assumes "does c V m (exactly x V1)" and "does c V1 (f x) Q"
  shows "does c V (bindIO m f) Q"
  using assms by (auto intro: does_bind)

section \<open>Changes of the files of the target\<close>

lemma name_known_kept: "r \<subseteq>\<^sub>m r' \<Longrightarrow> name_known r db s \<Longrightarrow> name_known r' db s"
  by (auto simp: name_known_def map_le_def dom_def)

text \<open>A change of the files strictly below the target, and of times in the target itself.\<close>

lemma disk_state_changed:
  assumes st: "disk_state c V w" and ch: "changed w L w'" and t: "target w' (ds_dst c) (ds_dstKey c)"
    and out: "\<And>k. \<not> prefix (ds_dstKey c) k \<Longrightarrow> L k = lookup w k"
    and kd: "map_option i_data (L (ds_dstKey c)) = map_option i_data (lookup w (ds_dstKey c))"
  shows "disk_state c (view_of c (\<lambda>ks. L (ds_dstKey c @ ks))) w'"
proof -
  let ?K = "ds_dstKey c"
  note l = changedD(1) [OF ch]
  have "map_option i_data (lookup w' k) = map_option i_data (lookup w k)" if "\<not> strict_prefix ?K k" for k
    using that out kd unfolding l by (cases "k = ?K") (auto simp: strict_prefix_def)
  then have "anchored w' ?K (ds_src c) (ds_srcKey c)" by (rule anchored_changed [OF disk_stateD(3) [OF st]])
  moreover have "names_kept w w'" by (rule changedD(9) [OF ch])
  ultimately show ?thesis
    using st t out changedD(5,6) [OF ch] name_known_kept unfolding disk_state_def l names_kept_def by metis
qed

text \<open>Entries of the view and files below the target.\<close>

lemma state_entry:
  assumes "disk_state c V w" and "V x = Some e"
  obtains ks i where "x = rel_path ks" and "ks \<noteq> []" and "names_ok ks" and "lookup w (ds_dstKey c @ ks) = Some i"
    and "e = inode_elem c x i"
proof -
  let ?ks = "path_elements x"
  have "view_of c (\<lambda>ks. lookup w (ds_dstKey c @ ks)) x = Some e" using assms disk_stateD(6) [OF assms(1)] by simp
  then obtain i where i: "?ks \<noteq> []" "rel_path ?ks = x" "lookup w (ds_dstKey c @ ?ks) = Some i" "e = inode_elem c x i"
    by (auto simp: view_of_def Let_def split: if_splits)
  moreover have "names_ok ?ks" using fs_ok_names_ok [OF disk_stateD(8) [OF assms(1)]] i(3) by fastforce
  ultimately show ?thesis using that [of ?ks i] by simp
qed

lemma inode_elem_simps [simp]:
  "rp (inode_elem c x i) = x" "per (inode_elem c x i) = i_perm i AND 0xFFF" "mt (inode_elem c x i) = i_mtime i"
  "ty (inode_elem c x i) = data_type (i_data i)" "isDirectory (inode_elem c x i) = is_dir i"
  "us (inode_elem c x i) = name_of (ds_users c) (i_uid i)" "gs (inode_elem c x i) = name_of (ds_groups c) (i_gid i)"
  by (simp_all add: inode_elem_def isDirectory_def is_dir_def data_type_def split: file_data.splits)

lemma state_attribute:
  assumes st: "disk_state c V w" and ks: "names_ok ks" "ks \<noteq> []" and i: "lookup w (ds_dstKey c @ ks) = Some i"
    and ch: "changed w ((lookup w)(ds_dstKey c @ ks \<mapsto> j)) w'" and j: "i_data j = i_data i"
  shows "disk_state c (V(rel_path ks \<mapsto> inode_elem c (rel_path ks) j)) w'"
proof -
  let ?K = "ds_dstKey c"
  have d: "map_option i_data (((lookup w)(?K @ ks \<mapsto> j)) k) = map_option i_data (lookup w k)" for k
    using i j by simp
  have "disk_state c (view_of c (\<lambda>ls. ((lookup w)(?K @ ks \<mapsto> j)) (?K @ ls))) w'"
    by (rule disk_state_changed [OF st ch target_attributes [OF disk_stateD(2) [OF st] ch d] _ d]) auto
  moreover have "(\<lambda>ls. ((lookup w)(?K @ ks \<mapsto> j)) (?K @ ls)) = (\<lambda>ls. lookup w (?K @ ls))(ks \<mapsto> j)" by auto
  ultimately show ?thesis using view_of_update [OF ks] disk_stateD(6) [OF st] by simp
qed

lemma state_dir:
  assumes "disk_state c V w" and "names_ok ks"
  shows "has_dir V (rel_path ks) \<longleftrightarrow> dir_at_key w (ds_dstKey c @ ks)"
proof (cases "ks = []")
  case True
  then show ?thesis using targetD(4) [OF disk_stateD(2) [OF assms(1)]] by (simp add: has_dir_def)
next
  case False
  then show ?thesis using assms(2) rel_path_eq_Nil [OF assms(2)] disk_stateD(6) [OF assms(1)]
    by (auto simp: has_dir_def dir_at_def dir_at_key_def split: option.splits)
qed

lemma state_created:
  assumes st: "disk_state c V w" and ks: "\<forall>n \<in> set ks. proper_name n" "ks \<noteq> []"
    and new: "V (rel_path ks) = None" and dir: "has_dir V (parent_path (rel_path ks))"
    and ch: "changed w ((lookup w)(ds_dstKey c @ butlast ks := with_mtime m (lookup w (ds_dstKey c @ butlast ks)),
      ds_dstKey c @ ks \<mapsto> j)) w'"
  shows "disk_state c ((set_mt (parent_path (rel_path ks)) m V)(rel_path ks \<mapsto> inode_elem c (rel_path ks) j)) w'"
proof -
  let ?K = "ds_dstKey c" and ?L = "(lookup w)(ds_dstKey c @ butlast ks := with_mtime m (lookup w (ds_dstKey c @ butlast ks)),
      ds_dstKey c @ ks \<mapsto> j)"
  have ok: "names_ok ks" "names_ok (butlast ks)"
    using ks(1) by (auto simp: names_ok_def proper_name_def dest: in_set_butlastD)
  have par: "parent_path (rel_path ks) = rel_path (butlast ks)" by (rule parent_rel [OF ok(1) ks(2)])
  have free: "lookup w (?K @ ks) = None" using new disk_stateD(6) [OF st] ok(1) ks(2) by simp
  have pd: "dir_at_key w (?K @ butlast ks)" using dir state_dir [OF st ok(2)] par by simp
  have nb: "butlast ks \<noteq> ks" using ks(2) by simp
  have data: "map_option i_data (?L k) = (if k = ?K @ ks then Some (i_data j) else map_option i_data (lookup w k))" for k
    by auto
  have fs: "fs_ok w" by (rule disk_stateD(8) [OF st])
  have "target w' (ds_dst c) ?K"
  proof (rule target_changed [OF disk_stateD(2) [OF st] ch])
    show "map_option i_data (?L k) = map_option i_data (lookup w k)" if "\<not> strict_prefix ?K k" for k
      using that ks(2) unfolding data by (auto simp: strict_prefix_def)
    fix k assume k: "?L k \<noteq> None" "k \<noteq> []"
    have "map_option i_data (?L k) \<noteq> None" using k(1) by (simp del: fun_upd_apply)
    then have e: "k = ?K @ ks \<or> lookup w k \<noteq> None" unfolding data by (simp split: if_splits)
    then show "lookup w k \<noteq> None \<or> proper_name (last k)" using ks by auto
    show "map_option i_data (?L (butlast k)) = Some Directory"
    proof (cases "k = ?K @ ks")
      case True
      then show ?thesis using pd nb ks(2) unfolding data dir_at_key_data by (simp add: butlast_append)
    next
      case False
      then have "dir_at_key w (butlast k)" using e k(2) fs unfolding fs_ok_iff by blast
      moreover from this have "butlast k \<noteq> ?K @ ks" using free by (auto simp: dir_at_key_def)
      ultimately show ?thesis unfolding data dir_at_key_data by simp
    qed
  qed
  then have "disk_state c (view_of c (\<lambda>ls. ?L (?K @ ls))) w'"
    by (rule disk_state_changed [OF st ch]) (use ks(2) in auto)
  moreover have "(\<lambda>ls. ?L (?K @ ls)) = ((\<lambda>ls. lookup w (?K @ ls))
      (butlast ks := with_mtime m ((\<lambda>ls. lookup w (?K @ ls)) (butlast ks))))(ks \<mapsto> j)" by auto
  ultimately show ?thesis
    using view_of_update [OF ok(1) ks(2)] view_of_mtime [OF ok(2), of c "\<lambda>ls. lookup w (?K @ ls)" m]
      disk_stateD(6) [OF st] par by simp
qed

section \<open>Calls on entries of the target\<close>

lemma target_file_at:
  assumes st: "disk_state c V w" and ks: "ks \<noteq> []" and i: "lookup w (ds_dstKey c @ ks) = Some i"
  shows "file_at w False (path_append (ds_dst c) (rel_path ks)) = Some (ds_dstKey c @ ks, i)"
    and "data_type (i_data i) \<noteq> FT_symlink \<Longrightarrow>
      file_at w True (path_append (ds_dst c) (rel_path ks)) = Some (ds_dstKey c @ ks, i)"
  using file_at_top [OF disk_stateD(8,10) [OF st] ks i] by (auto simp: data_type_def split: file_data.splits)

lemma updated_inode:
  assumes "disk_state c V w" and "lookup w k = Some i"
  shows "changed w ((lookup w)(k \<mapsto> f i)) (update_inode k f w)"
  using disk_rel_changed [OF disk_rel_update disk_stateD(7,11) [OF assms(1)], of k f] assms(2) by simp

lemma does_mtime:
  assumes "V x = Some e"
  shows "does c V (ext_symlink_last_write_time (path_append (ds_dst c) x) m) (exactly () (V(x \<mapsto> e\<lparr>mt := m\<rparr>)))"
proof (rule doesI_exactly)
  fix w assume st: "disk_state c V w"
  obtain ks i where k: "x = rel_path ks" "ks \<noteq> []" "names_ok ks" "lookup w (ds_dstKey c @ ks) = Some i" "e = inode_elem c x i"
    by (rule state_entry [OF st assms])
  let ?w = "update_inode (ds_dstKey c @ ks) (\<lambda>i. i\<lparr>i_mtime := m\<rparr>) w"
  have "disk_state c (V(x \<mapsto> e\<lparr>mt := m\<rparr>)) ?w"
    using state_attribute [OF st k(3,2,4) updated_inode [OF st k(4), of "\<lambda>i. i\<lparr>i_mtime := m\<rparr>"]] k(1,5)
    by (simp add: inode_elem_mtime)
  then show "\<exists>w'. ext_symlink_last_write_time (path_append (ds_dst c) x) m w = (Inr (), w') \<and>
      disk_state c (V(x \<mapsto> e\<lparr>mt := m\<rparr>)) w'"
    using target_file_at(1) [OF st k(2,4)] disk_stateD(9) [OF st] k(1)
    by (simp add: ext_symlink_last_write_time_def faulty_def Let_def)
qed

lemma does_permissions:
  assumes "V x = Some e" and "ty e \<noteq> FT_symlink"
  shows "does c V (set_permissions (path_append (ds_dst c) x) p) (exactly () (V(x \<mapsto> e\<lparr>per := p AND 0xFFF\<rparr>)))"
proof (rule doesI_exactly)
  fix w assume st: "disk_state c V w"
  obtain ks i where k: "x = rel_path ks" "ks \<noteq> []" "names_ok ks" "lookup w (ds_dstKey c @ ks) = Some i" "e = inode_elem c x i"
    by (rule state_entry [OF st assms(1)])
  let ?f = "\<lambda>i. i\<lparr>i_perm := p AND 0xFFF\<rparr>"
  have "inode_elem c x (?f i) = (inode_elem c x i)\<lparr>per := p AND 0xFFF\<rparr>"
    by (simp add: inode_elem_def and.assoc)
  then have "disk_state c (V(x \<mapsto> e\<lparr>per := p AND 0xFFF\<rparr>)) (update_inode (ds_dstKey c @ ks) ?f w)"
    using state_attribute [OF st k(3,2,4) updated_inode [OF st k(4), of ?f]] k(1,5) by simp
  then show "\<exists>w'. set_permissions (path_append (ds_dst c) x) p w = (Inr (), w') \<and>
      disk_state c (V(x \<mapsto> e\<lparr>per := p AND 0xFFF\<rparr>)) w'"
    using target_file_at(2) [OF st k(2,4)] assms(2) k(5) disk_stateD(9) [OF st] k(1)
    by (simp add: set_permissions_def faulty_def)
qed

text \<open>Names that are known translate to numbers with these names.\<close>

context name_service
begin

lemma id_found:
  assumes "faults w = []" and "caches_agree (db w) (cache w) (reverse w)" and "distinct (map fst (db w))"
    and s: "name_known (reverse w) (db w) s"
  shows "\<exists>n w'. look_id s w = (Inr n, w') \<and> name_of (db w) n = s \<and> caches_agree (db w') (cache w') (reverse w') \<and>
    (w' = w \<or> w' = remember n s w)"
proof -
  have "reverse w s = None \<Longrightarrow> map_of (map prod.swap (db w)) s \<noteq> None"
    using s by (auto simp: name_known_def map_of_eq_None_iff image_iff)
  then obtain n w' where r: "look_id s w = (Inr n, w')" "w' = w \<or> w' = remember n s w"
    using look_id [OF assms(1), of s] by (auto split: option.splits)
  with id_names [OF assms(1-3) r(1)] show ?thesis by blast
qed

end

lemma insert_new_le: "m \<subseteq>\<^sub>m insert_new k v m"
  by (auto simp: insert_new_def map_le_def)

lemma user_id_found:
  assumes w: "calm w" "distinct (map fst (files w))" and d: "distinct (map fst (passwd w))"
    and u: "name_known (userReverseCache w) (passwd w) u"
  shows "\<exists>n w'. ext_lookup_user_id u w = (Inr n, w') \<and> name_of (passwd w) n = u \<and> changed w (lookup w) w'"
proof -
  obtain n w' where r: "ext_lookup_user_id u w = (Inr n, w')" "name_of (passwd w) n = u"
    "caches_agree (passwd w') (userCache w') (userReverseCache w')" "w' = w \<or> w' = rememberUser n u w"
    using users.id_found [OF _ _ d u] w(1) by (auto simp: calm_def)
  have "changed w (lookup w) (rememberUser n u w)"
    if "caches_agree (passwd w) (userCache (rememberUser n u w)) (userReverseCache (rememberUser n u w))"
    using that w insert_new_le by (simp add: changed_def rememberUser_def env_of_def lookup_def fun_eq_iff calm_def names_kept_def)
  moreover have "passwd (rememberUser n u w) = passwd w" by (simp add: rememberUser_def)
  ultimately show ?thesis using r changed_refl [OF w] by metis
qed

lemma group_id_found:
  assumes w: "calm w" "distinct (map fst (files w))" and d: "distinct (map fst (groups w))"
    and u: "name_known (groupReverseCache w) (groups w) u"
  shows "\<exists>n w'. ext_lookup_group_id u w = (Inr n, w') \<and> name_of (groups w) n = u \<and> changed w (lookup w) w'"
proof -
  obtain n w' where r: "ext_lookup_group_id u w = (Inr n, w')" "name_of (groups w) n = u"
    "caches_agree (groups w') (groupCache w') (groupReverseCache w')" "w' = w \<or> w' = rememberGroup n u w"
    using grps.id_found [OF _ _ d u] w(1) by (auto simp: calm_def)
  have "changed w (lookup w) (rememberGroup n u w)"
    if "caches_agree (groups w) (groupCache (rememberGroup n u w)) (groupReverseCache (rememberGroup n u w))"
    using that w insert_new_le by (simp add: changed_def rememberGroup_def env_of_def lookup_def fun_eq_iff calm_def names_kept_def)
  moreover have "groups (rememberGroup n u w) = groups w" by (simp add: rememberGroup_def)
  ultimately show ?thesis using r changed_refl [OF w] by metis
qed

lemma state_same:
  assumes "disk_state c V w" and "changed w (lookup w) w'"
  shows "disk_state c V w'"
  using disk_state_changed [OF assms target_attributes [OF disk_stateD(2) [OF assms(1)] assms(2)]]
    disk_stateD(6) [OF assms(1)] by simp

lemma and_not_clear:
  fixes a m :: "'a :: len word"
  assumes "a AND m = 0"
  shows "a AND NOT m = a"
proof (rule bit_word_eqI)
  fix n
  have "\<not> (bit a n \<and> bit m n)" using arg_cong [OF assms, of "\<lambda>x. bit x n"] by (simp add: bit_and_iff)
  then show "n < LENGTH('a) \<Longrightarrow> bit (a AND NOT m) n = bit a n" by (auto simp: bit_and_iff bit_not_iff)
qed

definition no_setid :: "perms \<Rightarrow> bool" where
  "no_setid p \<longleftrightarrow> p AND 0xC00 = 0"

lemma drop_setid_plain:
  assumes "data_type (i_data i) = FT_regular \<Longrightarrow> no_setid (i_perm i AND 0xFFF)"
  shows "i_perm (drop_setid i) AND 0xFFF = i_perm i AND 0xFFF"
proof (cases "i_data i")
  case (Regular s)
  let ?a = "i_perm i AND 0xFFF"
  have a: "?a AND 0xC00 = 0" using assms Regular by (simp add: no_setid_def data_type_def)
  have "?a AND 0x800 = (?a AND 0xC00) AND 0x800" by (simp add: and.assoc)
  then have "?a AND 0x800 = 0" unfolding a by simp
  then have "?a AND NOT 0xC00 = ?a" "?a AND NOT 0x800 = ?a" using a and_not_clear by blast+
  moreover have "(q AND NOT m) AND f = (q AND f) AND NOT m" for q m f :: perms by (simp only: ac_simps)
  ultimately have "(i_perm i AND NOT 0xC00) AND 0xFFF = ?a" "(i_perm i AND NOT 0x800) AND 0xFFF = ?a"
    by (simp_all only:)
  then show ?thesis using Regular by (simp add: drop_setid_def)
qed (simp_all add: drop_setid_def)

lemma does_owner:
  assumes "V x = Some e" and u: "u \<in> ds_unames c" and g: "g \<in> ds_gnames c"
    and s: "ty e = FT_regular \<Longrightarrow> no_setid (per e)"
  shows "does c V (changeOwner (path_append (ds_dst c) x) u g t)
    (exactly t (V(x \<mapsto> e\<lparr>us := u, gs := g\<rparr>)))"
proof (rule doesI_exactly)
  fix w assume st: "disk_state c V w"
  have ok: "distinct (map fst (passwd w))" "distinct (map fst (groups w))"
    using disk_stateD(1,4,5) [OF st] by (simp_all add: setting_ok_def)
  have known: "name_known (userReverseCache w) (passwd w) u" using st u unfolding disk_state_def by blast
  obtain n w1 where n: "ext_lookup_user_id u w = (Inr n, w1)" "name_of (passwd w) n = u" "changed w (lookup w) w1"
    using user_id_found [OF disk_stateD(7,11) [OF st] ok(1) known] by blast
  have st1: "disk_state c V w1" by (rule state_same [OF st n(3)])
  have p: "passwd w1 = passwd w" "groups w1 = groups w" using changedD(5,6) [OF n(3)] by simp_all
  have "name_known (groupReverseCache w1) (groups w1) g" using st1 g unfolding disk_state_def by blast
  then obtain m w2 where m: "ext_lookup_group_id g w1 = (Inr m, w2)" "name_of (groups w) m = g" "changed w1 (lookup w1) w2"
    using group_id_found [OF disk_stateD(7,11) [OF st1]] ok(2) unfolding p by blast
  have st2: "disk_state c V w2" by (rule state_same [OF st1 m(3)])
  obtain ks i where k: "x = rel_path ks" "ks \<noteq> []" "names_ok ks" "lookup w2 (ds_dstKey c @ ks) = Some i" "e = inode_elem c x i"
    by (rule state_entry [OF st2 assms(1)])
  let ?f = "\<lambda>i. drop_setid (i\<lparr>i_uid := n, i_gid := m\<rparr>)"
  have "i_perm (?f i) AND 0xFFF = i_perm i AND 0xFFF"
    using drop_setid_plain [of "i\<lparr>i_uid := n, i_gid := m\<rparr>"] s k(5) by simp
  moreover have f: "i_data (?f i) = i_data i" "i_uid (?f i) = n" "i_gid (?f i) = m" "i_mtime (?f i) = i_mtime i"
    by (simp_all add: drop_setid_def split: file_data.split)
  ultimately have "inode_elem c x (?f i) = (inode_elem c x i)\<lparr>us := u, gs := g\<rparr>"
    using n(2) m(2) disk_stateD(4,5) [OF st] by (simp add: inode_elem_def)
  then have "disk_state c (V(x \<mapsto> e\<lparr>us := u, gs := g\<rparr>)) (update_inode (ds_dstKey c @ ks) ?f w2)"
    using state_attribute [OF st2 k(3,2,4) updated_inode [OF st2 k(4), of ?f] f(1)] k(1,5) by simp
  moreover have "ext_symlink_change_ownership (path_append (ds_dst c) x) u g w =
      (Inr (), update_inode (ds_dstKey c @ ks) ?f w2)"
    using n(1) m(1) target_file_at(1) [OF st2 k(2,4)] disk_stateD(9) [OF st2] k(1)
    by (simp add: ext_symlink_change_ownership_def bindIO_apply faulty_def Let_def)
  ultimately show "\<exists>w'. changeOwner (path_append (ds_dst c) x) u g t w = (Inr t, w') \<and>
      disk_state c (V(x \<mapsto> e\<lparr>us := u, gs := g\<rparr>)) w'"
    by (simp add: changeOwner_def catchIO_def bindIO_apply io_simps)
qed

section \<open>Calls that make entries of the target\<close>

lemma target_free:
  assumes st: "disk_state c V w" and ks: "\<forall>n \<in> set ks. proper_name n" "ks \<noteq> []"
    and new: "V (rel_path ks) = None" and dir: "has_dir V (parent_path (rel_path ks))"
  shows "free_key w (path_append (ds_dst c) (rel_path ks)) = Some (ds_dstKey c @ ks)"
proof -
  have ok: "names_ok ks" "names_ok (butlast ks)"
    using ks(1) by (auto simp: names_ok_def proper_name_def dest: in_set_butlastD)
  have "lookup w (ds_dstKey c @ ks) = None" using new disk_stateD(6) [OF st] ok(1) ks(2) by simp
  moreover have d: "dir_at_key w (ds_dstKey c @ butlast ks)"
    using dir state_dir [OF st ok(2)] parent_rel [OF ok(1) ks(2)] by simp
  moreover have "resolve w False (path_append (ds_dst c) (rel_path ks)) = Some (ds_dstKey c @ ks)"
    using resolve_top [OF disk_stateD(8,10) [OF st] ks(2,1) d, of False] by simp
  ultimately show ?thesis using ks(2) by (simp add: free_key_def butlast_append)
qed

lemma created_file:
  assumes st: "disk_state c V w" and ks: "ks \<noteq> []"
  shows "\<exists>m m' u g. changed w ((lookup w)(ds_dstKey c @ butlast ks := with_mtime m (lookup w (ds_dstKey c @ butlast ks)),
      ds_dstKey c @ ks \<mapsto> \<lparr>i_perm = p, i_uid = u, i_gid = g, i_mtime = m', i_nlink = 1, i_data = d\<rparr>))
      (create_file (ds_dstKey c @ ks) p d w)"
  using disk_rel_changed [OF disk_rel_create disk_stateD(7,11) [OF st], of "ds_dstKey c @ ks" p d] ks
  unfolding create_file_def new_inode_def by (simp add: butlast_append) blast

text \<open>A new entry, and the time of the directory it is in.\<close>

definition made :: "path \<Rightarrow> entries \<Rightarrow> FilesystemElement \<Rightarrow> entries \<Rightarrow> bool" where
  "made x V e V' \<longleftrightarrow> (\<exists>m. V' = (set_mt (parent_path x) m V)(x \<mapsto> e))"

definition addable :: "entries \<Rightarrow> path \<Rightarrow> bool" where
  "addable V x \<longleftrightarrow> V x = None \<and> has_dir V (parent_path x) \<and>
     (\<exists>ks. x = rel_path ks \<and> ks \<noteq> [] \<and> (\<forall>n \<in> set ks. proper_name n))"

definition dst_key :: "setting \<Rightarrow> path \<Rightarrow> key" where
  "dst_key c x = ds_dstKey c @ path_elements x"

lemma addable_free:
  assumes st: "disk_state c V w" and "addable V x"
  shows "free_key w (path_append (ds_dst c) x) = Some (dst_key c x)"
proof -
  obtain ks where ks: "x = rel_path ks" "ks \<noteq> []" "\<forall>n \<in> set ks. proper_name n"
    and v: "V (rel_path ks) = None" "has_dir V (parent_path (rel_path ks))" using assms(2) by (auto simp: addable_def)
  have "names_ok ks" using ks(3) by (simp add: names_ok_def proper_name_def)
  then show ?thesis using target_free [OF st ks(3,2) v] ks(1) by (simp add: dst_key_def elements_rel)
qed

lemma state_made:
  fixes p :: perms and d :: file_data
  assumes st: "disk_state c V w" and "addable V x"
  defines "w0 \<equiv> create_file (dst_key c x) p d w"
  assumes w': "changed w0 ((lookup w0)(dst_key c x := map_option f (lookup w0 (dst_key c x)))) w'"
  shows "\<exists>V' i. disk_state c V' w' \<and> made x V (inode_elem c x (f i)) V' \<and> i_perm i = p \<and> i_data i = d"
proof -
  obtain ks where ks: "x = rel_path ks" "ks \<noteq> []" "\<forall>n \<in> set ks. proper_name n"
    and v: "V (rel_path ks) = None" "has_dir V (parent_path (rel_path ks))" using assms(2) by (auto simp: addable_def)
  have "names_ok ks" using ks(3) by (simp add: names_ok_def proper_name_def)
  then have k: "dst_key c x = ds_dstKey c @ ks" using ks(1) by (simp add: dst_key_def elements_rel)
  let ?k = "ds_dstKey c @ ks" and ?q = "ds_dstKey c @ butlast ks"
  obtain m m' u g where c: "changed w ((lookup w)(?q := with_mtime m (lookup w ?q),
      ?k \<mapsto> \<lparr>i_perm = p, i_uid = u, i_gid = g, i_mtime = m', i_nlink = 1, i_data = d\<rparr>)) w0"
    using created_file [OF st ks(2)] unfolding w0_def k by blast
  let ?i = "\<lparr>i_perm = p, i_uid = u, i_gid = g, i_mtime = m', i_nlink = 1, i_data = d\<rparr>"
  have "changed w ((lookup w)(?q := with_mtime m (lookup w ?q), ?k \<mapsto> f ?i)) w'"
    using changed_trans [OF c w'] unfolding changedD(1) [OF c] k by simp
  from state_created [OF st ks(3,2) v this]
  have "disk_state c ((set_mt (parent_path x) m V)(x \<mapsto> inode_elem c x (f ?i))) w'" using ks(1) by simp
  then show ?thesis unfolding made_def by (intro exI conjI) (assumption, rule refl, simp_all)
qed

lemma created_changed:
  assumes "disk_state c V w"
  shows "changed (create_file k p d w) ((lookup (create_file k p d w))(k := map_option (\<lambda>i. i) (lookup (create_file k p d w) k)))
    (create_file k p d w)"
proof -
  let ?w = "create_file k p d w"
  have "changed ?w (lookup ?w) ?w"
    by (rule changed_refl) (rule changedD [OF disk_rel_changed [OF disk_rel_create disk_stateD(7,11) [OF assms]]])+
  then show ?thesis by (simp only: option.map_ident fun_upd_triv)
qed

lemma does_mkdir:
  assumes "addable V x"
  shows "does c V (create_directory (path_append (ds_dst c) x))
    (\<lambda>y V'. y \<and> (\<exists>i. is_dir i \<and> made x V (inode_elem c x i) V'))"
proof (rule doesI)
  fix w assume st: "disk_state c V w"
  let ?w = "create_file (dst_key c x) (0x1FF AND NOT (umask w)) Directory w"
  obtain V' i where v: "disk_state c V' ?w" "made x V (inode_elem c x i) V'" "i_data i = Directory"
    using state_made [OF st assms created_changed [OF st]] by blast
  have "create_directory (path_append (ds_dst c) x) w = (Inr True, ?w)"
    using addable_free [OF st assms] disk_stateD(9) [OF st] by (simp add: create_directory_def faulty_def)
  with v show "\<exists>y V' w'. create_directory (path_append (ds_dst c) x) w = (Inr y, w') \<and> disk_state c V' w' \<and>
      y \<and> (\<exists>i. is_dir i \<and> made x V (inode_elem c x i) V')" unfolding is_dir_def by blast
qed

lemma does_symlink:
  assumes "addable V x"
  shows "does c V (create_symlink l (path_append (ds_dst c) x))
    (\<lambda>y V'. \<exists>i. i_perm i = 0x1FF \<and> i_data i = Symlink l \<and> made x V (inode_elem c x i) V')"
proof (rule doesI)
  fix w assume st: "disk_state c V w"
  let ?w = "create_file (dst_key c x) 0x1FF (Symlink l) w"
  obtain V' i where v: "disk_state c V' ?w" "made x V (inode_elem c x i) V'" "i_perm i = 0x1FF" "i_data i = Symlink l"
    using state_made [OF st assms created_changed [OF st]] by blast
  have "create_symlink l (path_append (ds_dst c) x) w = (Inr (), ?w)"
    using addable_free [OF st assms] disk_stateD(9) [OF st] by (simp add: create_symlink_def faulty_def)
  with v show "\<exists>y V' w'. create_symlink l (path_append (ds_dst c) x) w = (Inr y, w') \<and> disk_state c V' w' \<and>
      (\<exists>i. i_perm i = 0x1FF \<and> i_data i = Symlink l \<and> made x V (inode_elem c x i) V')" by blast
qed

section \<open>Copies of source files\<close>

definition source_view :: "setting \<Rightarrow> entries" where
  "source_view c = view_of c (\<lambda>ks. ds_outer c (ds_srcKey c @ ks))"

lemma source_outside:
  assumes "setting_ok c"
  shows "\<not> prefix (ds_dstKey c) (ds_srcKey c @ ks)"
  using assms unfolding setting_ok_def by (meson prefix_same_cases prefixI)

lemma source_entry:
  assumes st: "disk_state c V w" and "source_view c x = Some e"
  obtains ks i where "x = rel_path ks" and "ks \<noteq> []" and "\<forall>n \<in> set ks. proper_name n" and "e = inode_elem c x i"
    and "file_at w False (path_append (ds_src c) x) = Some (ds_srcKey c @ ks, i)"
    and "ty e \<noteq> FT_symlink \<longrightarrow> file_at w True (path_append (ds_src c) x) = Some (ds_srcKey c @ ks, i)"
proof -
  let ?ks = "path_elements x"
  obtain i where i: "?ks \<noteq> []" "rel_path ?ks = x" "ds_outer c (ds_srcKey c @ ?ks) = Some i" "e = inode_elem c x i"
    using assms(2) by (auto simp: source_view_def view_of_def Let_def split: if_splits)
  have l: "lookup w (ds_srcKey c @ ?ks) = Some i"
    using st i(3) source_outside [OF disk_stateD(1) [OF st]] unfolding disk_state_def by metis
  note f = file_at_top [OF disk_stateD(8) [OF st] anchored_top [OF disk_stateD(3) [OF st]] i(1) l]
  show ?thesis
  proof (rule that [of ?ks i])
    show "\<forall>n \<in> set ?ks. proper_name n" by (rule fs_ok_names [OF disk_stateD(8) [OF st], of "ds_srcKey c"]) (use l in simp)
    show "file_at w False (path_append (ds_src c) x) = Some (ds_srcKey c @ ?ks, i)" using f [of False] i(2) by simp
    show "ty e \<noteq> FT_symlink \<longrightarrow> file_at w True (path_append (ds_src c) x) = Some (ds_srcKey c @ ?ks, i)"
      using f [of True] i(2,4) by (auto simp: data_type_def split: file_data.splits)
  qed (use i in simp_all)
qed

text \<open>A copy that still needs its owner and time.\<close>

definition resembles :: "FilesystemElement \<Rightarrow> FilesystemElement \<Rightarrow> bool" where
  "resembles e e' \<longleftrightarrow> e'\<lparr>us := us e, gs := gs e, mt := mt e\<rparr> = e"

lemma does_copy_file:
  assumes e: "source_view c x = Some e" "ty e = FT_regular" and a: "addable V x"
  shows "does c V (copy_file (path_append (ds_src c) x) (path_append (ds_dst c) x))
    (\<lambda>y V'. y \<and> (\<exists>e'. resembles e e' \<and> made x V e' V'))"
proof (rule doesI)
  fix w assume st: "disk_state c V w"
  obtain ks i where i0: "e = inode_elem c x i"
    and at: "ty e \<noteq> FT_symlink \<longrightarrow> file_at w True (path_append (ds_src c) x) = Some (ds_srcKey c @ ks, i)"
    by (rule source_entry [OF st e(1)]) blast
  note i = i0 at [unfolded e(2), simplified]
  obtain s where s: "i_data i = Regular s" using e(2) i(1) by (cases "i_data i") (simp_all add: data_type_def)
  let ?k = "dst_key c x"
  let ?w0 = "create_file ?k 0x80 (Regular []) w"
  let ?w1 = "update_inode ?k (\<lambda>j. j\<lparr>i_perm := i_perm i\<rparr>) ?w0"
  let ?w2 = "tick (update_inode ?k (\<lambda>j. j\<lparr>i_data := Regular s, i_mtime := now ?w1\<rparr>) ?w1)"
  let ?f = "\<lambda>j. j\<lparr>i_perm := i_perm i, i_data := Regular s, i_mtime := now ?w1\<rparr>"
  have fa: "faults ?w0 = []" "faults ?w1 = []"
    using changedD(8) [OF disk_rel_changed [OF disk_rel_create disk_stateD(7,11) [OF st]]]
      changedD(8) [OF disk_rel_changed [OF disk_rel_trans [OF disk_rel_create disk_rel_update] disk_stateD(7,11) [OF st]]]
    by blast+
  have run: "copy_file (path_append (ds_src c) x) (path_append (ds_dst c) x) w = (Inr True, ?w2)"
    using i(2) s addable_free [OF st a] disk_stateD(9) [OF st] fa
    by (simp add: copy_file_def Let_def bindIO_apply faulty_def io_simps)
  have "disk_rel ?w0 ?w2" by (rule disk_rel_trans [OF disk_rel_update disk_rel_tick_update])
  moreover have "calm ?w0" "distinct (map fst (files ?w0))"
    by (rule changedD [OF disk_rel_changed [OF disk_rel_create disk_stateD(7,11) [OF st]]])+
  ultimately have "changed ?w0 (lookup ?w2) ?w2" by (rule disk_rel_changed)
  moreover have "lookup ?w2 = (lookup ?w0)(?k := map_option ?f (lookup ?w0 ?k))"
    by (simp add: option.map_comp comp_def fun_eq_iff)
  ultimately obtain V' j where v: "disk_state c V' ?w2" "made x V (inode_elem c x (?f j)) V'"
    using state_made [OF st a, of "0x80" "Regular []" ?f ?w2] by auto
  have "resembles e (inode_elem c x (?f j))"
    unfolding i(1) resembles_def using s by (simp add: inode_elem_def)
  with run v show "\<exists>y V' w'. copy_file (path_append (ds_src c) x) (path_append (ds_dst c) x) w = (Inr y, w') \<and>
      disk_state c V' w' \<and> y \<and> (\<exists>e'. resembles e e' \<and> made x V e' V')" by blast
qed

lemma does_copy_symlink:
  assumes e: "source_view c x = Some e" "ty e = FT_symlink" "per e = 0x1FF" and a: "addable V x"
  shows "does c V (copy_symlink (path_append (ds_src c) x) (path_append (ds_dst c) x))
    (\<lambda>y V'. \<exists>e'. resembles e e' \<and> made x V e' V')"
proof -
  have r: "does c V (read_symlink (path_append (ds_src c) x)) (exactly (symlink e) V)"
  proof (rule doesI_exactly)
    fix w assume st: "disk_state c V w"
    obtain ks i where i: "e = inode_elem c x i" "file_at w False (path_append (ds_src c) x) = Some (ds_srcKey c @ ks, i)"
      by (rule source_entry [OF st e(1)]) blast
    obtain l where "i_data i = Symlink l" using e(2) i(1) by (cases "i_data i") (simp_all add: data_type_def)
    then have "read_symlink (path_append (ds_src c) x) w = (Inr (symlink e), w)"
      using i disk_stateD(9) [OF st] by (simp add: read_symlink_def faulty_def inode_elem_def)
    with st show "\<exists>w'. read_symlink (path_append (ds_src c) x) w = (Inr (symlink e), w') \<and> disk_state c V w'" by blast
  qed
  have l: "resembles e (inode_elem c x i)" if i: "i_perm i = 0x1FF" "i_data i = Symlink (symlink e)" for i
  proof -
    obtain j where "e = inode_elem c x j" using e(1) by (auto simp: source_view_def view_of_def Let_def split: if_splits)
    moreover from this obtain l where "i_data j = Symlink l" using e(2) by (cases "i_data j") (simp_all add: data_type_def)
    ultimately show ?thesis using i e(3) unfolding resembles_def by (simp add: inode_elem_def)
  qed
  show ?thesis unfolding copy_symlink_def
    by (rule does_bind_exactly [OF r], rule does_weaken [OF does_symlink [OF a]]) (use l in blast)
qed

end
