(* ===== verification/Ddm_Mirror.thy ===== *)
theory Ddm_Mirror
  imports Ddm_Disk_View
begin

text \<open>
  The operations that change a tree and its directory together (core.cpp): in a system without
  failures they return, and the tree stays a mirror of the directory: a scan would find the entries
  that the tree has.
\<close>

lemma does_lift_bind: "r = Inr x \<Longrightarrow> does c V (f x) Q \<Longrightarrow> does c V (bindIO (liftE r) f) Q"
  by (simp add: does_def bindIO_apply io_simps)

section \<open>Removal from the disk\<close>

lemma remove_fold:
  assumes "faults w = []"
  shows "\<exists>n w'. foldIO (\<lambda>k cnt. faulty err (bindIO (modifyIO (remove_file k)) (\<lambda>_. returnIO (Suc cnt)))) ks cnt w = (Inr n, w') \<and>
    disk_rel w w' \<and> (\<forall>z \<in> set ks. lookup w' z = None) \<and>
    (\<forall>z. z \<notin> set ks \<longrightarrow> (if z \<in> butlast ` set ks then \<exists>m. lookup w' z = with_mtime m (lookup w z) else lookup w' z = lookup w z))"
  using assms
proof (induction ks arbitrary: cnt w)
  case Nil
  then show ?case by (auto simp: io_simps disk_rel_refl)
next
  case (Cons k ks)
  let ?w = "remove_file k w"
  have f: "faults ?w = []"
    using Cons.prems by (simp add: remove_file_def delete_file_def touch_parent_def set_file_def tick_def split: option.split)
  obtain n w' where w': "foldIO (\<lambda>k cnt. faulty err (bindIO (modifyIO (remove_file k)) (\<lambda>_. returnIO (Suc cnt)))) ks (Suc cnt) ?w = (Inr n, w')"
    "disk_rel ?w w'" "\<forall>z \<in> set ks. lookup w' z = None"
    "\<forall>z. z \<notin> set ks \<longrightarrow> (if z \<in> butlast ` set ks then \<exists>m. lookup w' z = with_mtime m (lookup ?w z) else lookup w' z = lookup ?w z)"
    using Cons.IH [OF f] by blast
  have k: "lookup ?w k = None" by simp
  have "lookup w' k = None"
    using w'(3) w'(4) [rule_format, of k, unfolded k] by (cases "k \<in> set ks") (auto split: if_splits)
  moreover have "if z \<in> butlast ` set (k # ks) then \<exists>m. lookup w' z = with_mtime m (lookup w z) else lookup w' z = lookup w z"
    if z: "z \<notin> set (k # ks)" for z
  proof -
    have l: "lookup ?w z = (if z = butlast k then with_mtime (now w) (lookup w z) else lookup w z)" using z by simp
    have "if z \<in> butlast ` set ks then \<exists>m. lookup w' z = with_mtime m (lookup ?w z) else lookup w' z = lookup ?w z"
      using w'(4) z unfolding list.set by blast
    then show ?thesis unfolding l by (auto split: if_splits)
  qed
  moreover have "foldIO (\<lambda>k cnt. faulty err (bindIO (modifyIO (remove_file k)) (\<lambda>_. returnIO (Suc cnt)))) (k # ks) cnt w = (Inr n, w')"
    using w'(1) Cons.prems by (simp add: bindIO_apply faulty_def io_simps)
  ultimately show ?case using disk_rel_trans [OF disk_rel_remove w'(2)] w'(3) by auto
qed

lemma remove_all_lookup:
  assumes f: "faults w = []" and p: "file_at w False p = Some (k, i)"
  shows "\<exists>n m w'. remove_all p w = (Inr n, w') \<and> disk_rel w w' \<and>
    lookup w' = (\<lambda>z. if prefix k z then None else if z = butlast k then with_mtime m (lookup w z) else lookup w z)"
proof -
  have k: "lookup w k = Some i" using p by (auto simp: file_at_def split: option.splits)
  let ?ks = "subtree_keys w k"
  have s: "set ?ks = {z. prefix k z \<and> lookup w z \<noteq> None}" unfolding lookup_dom by (auto simp: subtree_keys_def)
  obtain n w' where w': "remove_all p w = (Inr n, w')" "disk_rel w w'" "\<forall>z \<in> set ?ks. lookup w' z = None"
    "\<forall>z. z \<notin> set ?ks \<longrightarrow> (if z \<in> butlast ` set ?ks then \<exists>m. lookup w' z = with_mtime m (lookup w z) else lookup w' z = lookup w z)"
    using remove_fold [OF f, of "fs_error ''cannot remove all'' p" ?ks 0] p by (auto simp: remove_all_def)
  have below: "lookup w' z = None" if "prefix k z" for z
  proof (cases "z \<in> set ?ks")
    case False
    then have "lookup w z = None" using that s by simp
    then show ?thesis using w'(4) [rule_format, OF False] by (auto split: if_splits)
  qed (use w'(3) in blast)
  have par: "\<exists>m. lookup w' (butlast k) = with_mtime m (lookup w (butlast k))" if "\<not> prefix k (butlast k)"
  proof -
    have "k \<in> set ?ks" using k s by simp
    then have "butlast k \<in> butlast ` set ?ks" by (rule imageI)
    moreover have "butlast k \<notin> set ?ks" using that s by simp
    ultimately show ?thesis using w'(4) by simp
  qed
  have other: "lookup w' z = lookup w z" if z: "\<not> prefix k z" "z \<noteq> butlast k" for z
  proof -
    have "z \<notin> butlast ` set ?ks"
    proof
      assume "z \<in> butlast ` set ?ks"
      then obtain y where y: "prefix k y" "z = butlast y" using s by auto
      then show False using z by (cases "y = k") (auto simp: prefix_def butlast_append split: if_splits)
    qed
    moreover have "z \<notin> set ?ks" using z s by simp
    ultimately show ?thesis using w'(4) by simp
  qed
  obtain m where "\<not> prefix k (butlast k) \<Longrightarrow> lookup w' (butlast k) = with_mtime m (lookup w (butlast k))" using par by blast
  then have "lookup w' = (\<lambda>z. if prefix k z then None else if z = butlast k then with_mtime m (lookup w z) else lookup w z)"
    using below other by (auto simp: fun_eq_iff)
  with w'(1,2) show ?thesis by blast
qed

lemma view_of_cut:
  assumes ks: "names_ok ks" "ks \<noteq> []" and F: "\<And>ls. F ls \<noteq> None \<Longrightarrow> names_ok ls"
  shows "view_of c (\<lambda>ls. if prefix ks ls then None else F ls) = cut (rel_path ks) (view_of c F)"
proof
  fix z
  let ?ls = "path_elements z"
  show "view_of c (\<lambda>ls. if prefix ks ls then None else F ls) z = cut (rel_path ks) (view_of c F) z"
  proof (cases "?ls \<noteq> [] \<and> rel_path ?ls = z \<and> F ?ls \<noteq> None")
    case True
    then have "at_or_below (rel_path ks) z = prefix ks ?ls" using at_or_below_rel [OF ks(1) F, of ?ls] by simp
    then show ?thesis using True by (simp add: view_of_def cut_def Let_def)
  next
    case False
    then show ?thesis by (auto simp: view_of_def cut_def Let_def)
  qed
qed

lemma does_remove_all:
  assumes "V x = Some e"
  shows "does c V (remove_all (path_append (ds_dst c) x)) (\<lambda>_ V'. \<exists>m. V' = set_mt (parent_path x) m (cut x V))"
proof (rule doesI)
  fix w assume st: "disk_state c V w"
  obtain ks i where k: "x = rel_path ks" "ks \<noteq> []" "names_ok ks" "lookup w (ds_dstKey c @ ks) = Some i" "e = inode_elem c x i"
    by (rule state_entry [OF st assms])
  let ?K = "ds_dstKey c" and ?k = "ds_dstKey c @ ks"
  obtain n m w' where w': "remove_all (path_append (ds_dst c) x) w = (Inr n, w')" "disk_rel w w'"
    "lookup w' = (\<lambda>z. if prefix ?k z then None else if z = butlast ?k then with_mtime m (lookup w z) else lookup w z)"
    using remove_all_lookup [OF disk_stateD(9) [OF st] target_file_at(1) [OF st k(2,4), folded k(1)]] by blast
  let ?L = "\<lambda>z. if prefix ?k z then None else if z = butlast ?k then with_mtime m (lookup w z) else lookup w z"
  have ch: "changed w ?L w'" using disk_rel_changed [OF w'(2) disk_stateD(7,11) [OF st]] unfolding w'(3) .
  have data: "map_option i_data (?L z) = (if prefix ?k z then None else map_option i_data (lookup w z))" for z by simp
  have some: "lookup w z \<noteq> None \<and> \<not> prefix ?k z" if "?L z \<noteq> None" for z
    using that by (cases "lookup w z") (simp_all split: if_splits)
  have "target w' (ds_dst c) ?K"
  proof (rule target_changed [OF disk_stateD(2) [OF st] ch])
    fix z
    show "\<not> strict_prefix ?K z \<Longrightarrow> map_option i_data (?L z) = map_option i_data (lookup w z)"
      using k(2) unfolding data by (auto simp: strict_prefix_def prefix_def)
    show "?L z \<noteq> None \<Longrightarrow> lookup w z \<noteq> None \<or> proper_name (last z)" using some by blast
    assume z: "?L z \<noteq> None" "z \<noteq> []"
    have "\<not> prefix ?k (butlast z)" using some [OF z(1)] prefix_order.trans [OF _ prefixeq_butlast] by blast
    moreover have "dir_at_key w (butlast z)" using disk_stateD(8) [OF st] some [OF z(1)] z(2) unfolding fs_ok_iff by blast
    ultimately show "map_option i_data (?L (butlast z)) = Some Directory" unfolding data dir_at_key_data by simp
  qed
  then have "disk_state c (view_of c (\<lambda>ls. ?L (?K @ ls))) w'"
    by (rule disk_state_changed [OF st ch]) (use k(2) in \<open>auto simp: butlast_append dest: append_prefixD\<close>)
  moreover have "view_of c (\<lambda>ls. ?L (?K @ ls)) = set_mt (parent_path x) m (cut x V)"
  proof -
    let ?G = "\<lambda>ls. if prefix ks ls then None else lookup w (?K @ ls)"
    have nb: "\<not> prefix ks (butlast ks)" using k(2) by (metis butlast_neq prefix_order.antisym prefixeq_butlast)
    have ok: "names_ok (butlast ks)" using k(3) by (auto simp: names_ok_def dest: in_set_butlastD)
    have "(\<lambda>ls. ?L (?K @ ls)) = ?G(butlast ks := with_mtime m (?G (butlast ks)))"
      using k(2) nb by (auto simp: fun_eq_iff butlast_append)
    then have "view_of c (\<lambda>ls. ?L (?K @ ls)) = set_mt (rel_path (butlast ks)) m (view_of c ?G)"
      using view_of_mtime [OF ok, of c ?G m] by simp
    also have "view_of c ?G = cut x V"
      unfolding k(1) disk_stateD(6) [OF st]
      by (rule view_of_cut [OF k(3,2)]) (use fs_ok_names_ok [OF disk_stateD(8) [OF st]] in blast)
    finally show ?thesis using parent_rel [OF k(3,2)] k(1) by simp
  qed
  ultimately show "\<exists>n V' w'. remove_all (path_append (ds_dst c) x) w = (Inr n, w') \<and> disk_state c V' w' \<and>
      (\<exists>m. V' = set_mt (parent_path x) m (cut x V))"
    using w'(1) by auto
qed

section \<open>Trees that mirror the target\<close>

definition plains :: "entries \<Rightarrow> entries" where
  "plains E = (\<lambda>x. map_option plain (E x))"

lemma plains_simps [simp]:
  "plains E x = map_option plain (E x)" "plains (E(x \<mapsto> e)) = (plains E)(x \<mapsto> plain e)"
  "has_dir (plains E) p = has_dir E p" "plains (cut x E) = cut x (plains E)"
  by (auto simp: plains_def has_dir_def dir_at_def cut_def fun_eq_iff split: option.splits)

lemma plain_updates [simp]:
  "plain (e\<lparr>per := p\<rparr>) = (plain e)\<lparr>per := p\<rparr>" "plain (e\<lparr>mt := m\<rparr>) = (plain e)\<lparr>mt := m\<rparr>"
  "plain (e\<lparr>us := u, gs := g\<rparr>) = (plain e)\<lparr>us := u, gs := g\<rparr>"
  by (cases e; simp add: plain_def)+

text \<open>What an operation on a tree and the target leaves behind: the tree has the entries \<open>E\<close>, and so has the disk.\<close>

definition mirrored :: "setting \<Rightarrow> entries \<Rightarrow> DirectoryTree \<Rightarrow> entries \<Rightarrow> bool" where
  "mirrored c E t V \<longleftrightarrow> wf_tree t \<and> topPath t = Some (ds_dst c) \<and> tree_entries t = E \<and> V = plains E"

lemma set_mt_same: "V q = Some e \<Longrightarrow> set_mt q (mt e) V = V"
  by (simp add: set_mt_def fun_upd_idem)

lemma set_mt_Nil: "V [] = None \<Longrightarrow> set_mt [] m V = V"
  by (simp add: set_mt_def fun_upd_idem)

lemma does_fixup:
  assumes wf: "wf_tree t" and q: "has_dir (tree_entries t) q"
  shows "does c (set_mt q m (plains (tree_entries t))) (fixupParentMtime t (ds_dst c) q) (exactly () (plains (tree_entries t)))"
proof (cases "q = []")
  case True
  then show ?thesis using entries_Nil [OF wf]
    by (auto simp: fixupParentMtime_def set_mt_Nil intro: does_return)
next
  case False
  then obtain e where e: "tree_entries t q = Some e" using q by (auto simp: has_dir_def dir_at_def split: option.splits)
  obtain n where n: "searchNode t q [] = Inr n" "elem n = e" using searchNode_found [OF wf e] by metis
  let ?V = "set_mt q m (plains (tree_entries t))"
  have "?V q = Some ((plain e)\<lparr>mt := m\<rparr>)" using e by (simp add: set_mt_def)
  from does_mtime [of ?V q, OF this, of c "mt e"]
  have "does c ?V (ext_symlink_last_write_time (path_append (ds_dst c) q) (mt e)) (exactly () (plains (tree_entries t)))"
    using e by (simp add: set_mt_def plain_def fun_upd_idem)
  then show ?thesis using False n
    by (auto simp: fixupParentMtime_def intro: does_bind_exactly [OF does_lift [of _ n]])
qed

lemma does_fixup_same:
  assumes "wf_tree t" and "has_dir (tree_entries t) q"
  shows "does c (plains (tree_entries t)) (fixupParentMtime t (ds_dst c) q) (exactly () (plains (tree_entries t)))"
proof (cases "tree_entries t q")
  case None
  then have "set_mt q 0 (plains (tree_entries t)) = plains (tree_entries t)" by (simp add: set_mt_def fun_upd_idem)
  then show ?thesis using does_fixup [OF assms, of c 0] by simp
next
  case (Some e)
  then have "set_mt q (mt e) (plains (tree_entries t)) = plains (tree_entries t)" using set_mt_same [of "plains (tree_entries t)" q "plain e"] by simp
  then show ?thesis using does_fixup [OF assms, of c "mt e"] by simp
qed

text \<open>The parent of an entry is a directory, also after the entry has changed its properties.\<close>

lemma parent_kept:
  assumes "wf_tree t" and "tree_entries t x = Some e" and "isDirectory e' = isDirectory e"
  shows "has_dir ((tree_entries t)(x \<mapsto> e')) (parent_path x)"
proof -
  have "parent_path x \<noteq> x" using present_parent(3) [OF assms(1), of x] assms(2) by auto
  then show ?thesis using present_parent(1) [OF assms(1), of x] assms(2) by (simp add: has_dir_def dir_at_def)
qed

lemma checkTop: "topPath t = Some p \<Longrightarrow> checkTopPath t s = Inr p"
  by (simp add: checkTopPath_def)

lemma does_modifyPermissions:
  assumes m: "mirrored c E t V" and x: "E x = Some e" "ty e \<noteq> FT_symlink" and p: "p AND 0xFFF = p"
  shows "does c V (modifyPermissionsInTreeAndFilesystem t x p) (mirrored c (E(x \<mapsto> e\<lparr>per := p\<rparr>)))"
proof -
  have t: "wf_tree t" "topPath t = Some (ds_dst c)" "tree_entries t = E" "V = plains E" using m by (simp_all add: mirrored_def)
  have x': "tree_entries t x = Some e" using x(1) t(3) by simp
  obtain t' where t': "modifyPermissionsInTree t x p = Inr t'" "wf_tree t'" "tree_entries t' = E(x \<mapsto> e\<lparr>per := p\<rparr>)"
    using modifyPermissionsInTree_entries [OF t(1) x', of p] t(3) by auto
  have top: "topPath t' = Some (ds_dst c)"
    using t'(1) t(2) modify_topPath unfolding modifyPermissionsInTree_def by metis
  have v: "V x = Some (plain e)" using x(1) t(4) by simp
  have V': "V(x \<mapsto> (plain e)\<lparr>per := p AND 0xFFF\<rparr>) = plains (tree_entries t')"
    using t(4) t'(3) p by simp
  have "has_dir (tree_entries t') (parent_path x)"
    using parent_kept [OF t(1) x', of "e\<lparr>per := p\<rparr>"] t(3) t'(3) by (simp add: isDirectory_def)
  note fx = does_fixup_same [OF t'(2) this, of c]
  have op: "does c V (set_permissions (path_append (ds_dst c) x) p) (exactly () (plains (tree_entries t')))"
    using does_permissions [where c = c and p = p, of V x "plain e", OF v] x(2) unfolding V' by simp
  show ?thesis unfolding modifyPermissionsInTreeAndFilesystem_def
    by (rule does_lift_bind [OF checkTop [OF t(2)]],
        rule does_lift_bind [OF t'(1)],
        rule does_bind_exactly [OF op],
        rule does_bind_exactly [OF fx], rule does_return)
      (simp add: mirrored_def t' top)
qed

lemma does_modifyOwner:
  assumes m: "mirrored c E t V" and x: "E x = Some e" and u: "u \<in> ds_unames c" and g: "g \<in> ds_gnames c"
    and s: "ty e = FT_regular \<Longrightarrow> no_setid (per e)"
  shows "does c V (modifyOwnerInTreeAndFilesystem t x u g) (mirrored c (E(x \<mapsto> e\<lparr>us := u, gs := g\<rparr>)))"
proof -
  have t: "wf_tree t" "topPath t = Some (ds_dst c)" "tree_entries t = E" "V = plains E" using m by (simp_all add: mirrored_def)
  have x': "tree_entries t x = Some e" using x t(3) by simp
  obtain t' where t': "modifyOwnerInTree t x u g = Inr t'" "wf_tree t'" "tree_entries t' = E(x \<mapsto> e\<lparr>us := u, gs := g\<rparr>)"
    using modifyOwnerInTree_entries [OF t(1) x', of u g] t(3) by auto
  have top: "topPath t' = Some (ds_dst c)"
    using t'(1) t(2) modify_topPath unfolding modifyOwnerInTree_def by metis
  have v: "V x = Some (plain e)" using x t(4) by simp
  have V': "V(x \<mapsto> (plain e)\<lparr>us := u, gs := g\<rparr>) = plains (tree_entries t')" using t(4) t'(3) by simp
  have "has_dir (tree_entries t') (parent_path x)"
    using parent_kept [OF t(1) x', of "e\<lparr>us := u, gs := g\<rparr>"] t(3) t'(3) by (simp add: isDirectory_def)
  note fx = does_fixup_same [OF t'(2) this, of c]
  have op: "does c V (changeOwner (path_append (ds_dst c) x) u g t') (exactly t' (plains (tree_entries t')))"
    using does_owner [of V x "plain e", OF v u g, of t'] s unfolding V' by simp
  show ?thesis unfolding modifyOwnerInTreeAndFilesystem_def
    by (rule does_lift_bind [OF checkTop [OF t(2)]],
        rule does_lift_bind [OF t'(1)],
        rule does_bind_exactly [OF op],
        rule does_bind_exactly [OF fx], rule does_return)
      (simp add: mirrored_def t' top)
qed

lemma does_modifyMtime:
  assumes m: "mirrored c E t V" and x: "E x = Some e"
  shows "does c V (modifyMtimeInTreeAndFilesystem t x s) (mirrored c (E(x \<mapsto> e\<lparr>mt := s\<rparr>)))"
proof -
  have t: "wf_tree t" "topPath t = Some (ds_dst c)" "tree_entries t = E" "V = plains E" using m by (simp_all add: mirrored_def)
  have x': "tree_entries t x = Some e" using x t(3) by simp
  obtain t' where t': "modifyMtimeInTree t x s = Inr t'" "wf_tree t'" "tree_entries t' = E(x \<mapsto> e\<lparr>mt := s\<rparr>)"
    using modifyMtimeInTree_entries [OF t(1) x', of s] t(3) by auto
  have top: "topPath t' = Some (ds_dst c)"
    using t'(1) t(2) modify_topPath unfolding modifyMtimeInTree_def by metis
  have v: "V x = Some (plain e)" using x t(4) by simp
  have V': "V(x \<mapsto> (plain e)\<lparr>mt := s\<rparr>) = plains (tree_entries t')" using t(4) t'(3) by simp
  have op: "does c V (ext_symlink_last_write_time (path_append (ds_dst c) x) s) (exactly () (plains (tree_entries t')))"
    using does_mtime [where c = c and m = s, of V x "plain e", OF v] unfolding V' .
  show ?thesis unfolding modifyMtimeInTreeAndFilesystem_def
    by (rule does_lift_bind [OF checkTop [OF t(2)]],
        rule does_lift_bind [OF t'(1)],
        rule does_bind_exactly [OF op], rule does_return)
      (simp add: mirrored_def t' top)
qed

lemma does_removeFromTree:
  assumes m: "mirrored c E t V" and x: "E x = Some e"
  shows "does c V (removeFromTreeAndFilesystem t x) (\<lambda>r. mirrored c (cut x E) (fst r))"
proof -
  have t: "wf_tree t" "topPath t = Some (ds_dst c)" "tree_entries t = E" "V = plains E" using m by (simp_all add: mirrored_def)
  have x': "tree_entries t x = Some e" using x t(3) by simp
  obtain t' where t': "removeFromTree t x = Inr t'" "wf_tree t'" "tree_entries t' = cut x E" "topPath t' = Some (ds_dst c)"
    using removeFromTree_entries [OF t(1) x'] t(2,3) by (auto simp: cut_def)
  have v: "V x = Some (plain e)" using x t(4) by simp
  have "has_dir (tree_entries t') (parent_path x)"
    using present_parent(1) [OF t(1), of x] parent_outside [OF t(1), of x] x' t(3) t'(3) by (simp add: has_dir_cut)
  note fx = does_fixup [OF t'(2) this, of c]
  show ?thesis unfolding removeFromTreeAndFilesystem_def
  proof (rule does_lift_bind [OF checkTop [OF t(2)]],
      rule does_lift_bind [OF t'(1)], rule does_bind [OF does_remove_all [of V x "plain e", OF v]])
    fix n V1 assume "\<exists>m. V1 = set_mt (parent_path x) m (cut x V)"
    then obtain m where "V1 = set_mt (parent_path x) m (plains (tree_entries t'))" using t(4) t'(3) by auto
    then show "does c V1 (bindIO (fixupParentMtime t' (ds_dst c) (parent_path x)) (\<lambda>_. returnIO (t', n)))
        (\<lambda>r. mirrored c (cut x E) (fst r))"
      using fx t' by (auto simp: mirrored_def intro!: does_bind_exactly does_return)
  qed
qed

section \<open>Copies\<close>

text \<open>
  What the program can copy with all properties: no special files, names that translate back, no
  set-id bits, which a change of owner takes away, and links with the mode that all links have.
\<close>

definition copyable :: "setting \<Rightarrow> FilesystemElement \<Rightarrow> bool" where
  "copyable c e \<longleftrightarrow> ty e \<in> {FT_regular, FT_directory, FT_symlink} \<and> us e \<in> ds_unames c \<and> gs e \<in> ds_gnames c \<and>
     (ty e = FT_regular \<longrightarrow> no_setid (per e)) \<and> (ty e = FT_symlink \<longrightarrow> per e = 0x1FF)"

definition source_tree :: "setting \<Rightarrow> DirectoryTree \<Rightarrow> bool" where
  "source_tree c src \<longleftrightarrow> wf_tree src \<and> topPath src = Some (ds_src c) \<and> plains (tree_entries src) = source_view c \<and>
     (\<forall>x e. tree_entries src x = Some e \<longrightarrow> copyable c e)"

lemma source_per:
  assumes "source_tree c src" and "tree_entries src x = Some e"
  shows "per e AND 0xFFF = per e"
proof -
  have "source_view c x = Some (plain e)" using assms by (metis plains_simps(1) option.simps(9) source_tree_def)
  then obtain i where "inode_elem c x i = plain e" by (auto simp: source_view_def view_of_def Let_def split: if_splits)
  from arg_cong [OF this, of per] have "per e = i_perm i AND 0xFFF" by simp
  then show ?thesis by (simp add: and.assoc)
qed

lemma does_assuming: "(\<And>w. disk_state c V w \<Longrightarrow> does c V m Q) \<Longrightarrow> does c V m Q"
  unfolding does_def by blast

lemma resembles_simps:
  assumes "resembles e e'"
  shows "ty e' = ty e" and "per e' = per e" and "e'\<lparr>us := us e, gs := gs e, mt := mt e\<rparr> = e"
proof -
  show r: "e'\<lparr>us := us e, gs := gs e, mt := mt e\<rparr> = e" using assms by (simp add: resembles_def)
  show "ty e' = ty e" "per e' = per e" using arg_cong [OF r, of ty] arg_cong [OF r, of per] by simp_all
qed

text \<open>The last steps of a copy: owner and time.\<close>

lemma does_finish:
  assumes e: "copyable c e" and r: "resembles (plain e) e'" and V: "V x = Some e'"
  shows "does c V (bindIO (changeOwner (path_append (ds_dst c) x) (us e) (gs e) t) (\<lambda>t.
    bindIO (ext_symlink_last_write_time (path_append (ds_dst c) x) (mt e)) (\<lambda>_. returnIO t))) (exactly t (V(x \<mapsto> plain e)))"
proof -
  note rs = resembles_simps [OF r]
  let ?V = "V(x \<mapsto> e'\<lparr>us := us e, gs := gs e\<rparr>)"
  have o: "does c V (changeOwner (path_append (ds_dst c) x) (us e) (gs e) t) (exactly t ?V)"
    using e rs by (intro does_owner V) (simp_all add: copyable_def)
  have "?V x = Some (e'\<lparr>us := us e, gs := gs e\<rparr>)" by simp
  from does_mtime [where c = c and m = "mt e", of ?V x, OF this]
  have m: "does c ?V (ext_symlink_last_write_time (path_append (ds_dst c) x) (mt e)) (exactly () (V(x \<mapsto> plain e)))"
    using rs(3) by simp
  show ?thesis by (rule does_bind_exactly [OF o], rule does_bind_exactly [OF m], rule does_return) simp
qed

definition pasted :: "path \<Rightarrow> entries \<Rightarrow> entries \<Rightarrow> entries" where
  "pasted x S V = (\<lambda>z. if at_or_below x z then plains S z else V z)"

text \<open>The contract of the copy of one node and everything below it.\<close>

definition copies :: "setting \<Rightarrow> DirectoryTree \<Rightarrow> DirectoryNode \<Rightarrow> bool" where
  "copies c src n \<longleftrightarrow> (\<forall>dst t V. wf_tree t \<and> elem dst = elem n \<and>
     (\<forall>z. at_or_below (node_rp n) z \<longrightarrow> tree_entries t z = tree_entries src z \<and> V z = None) \<and>
     has_dir V (parent_path (node_rp n)) \<longrightarrow>
     does c V (recursiveFilesystemCopy (ds_src c) (ds_dst c) n dst t)
       (\<lambda>t' V'. t' = t \<and> (\<exists>m. V' = set_mt (parent_path (node_rp n)) m (pasted (node_rp n) (tree_entries src) V))))"

lemma copiesD:
  assumes "copies c src n" and "wf_tree t" and "elem dst = elem n"
    and "\<And>z. at_or_below (node_rp n) z \<Longrightarrow> tree_entries t z = tree_entries src z \<and> V z = None"
    and "has_dir V (parent_path (node_rp n))"
  shows "does c V (recursiveFilesystemCopy (ds_src c) (ds_dst c) n dst t)
    (\<lambda>t' V'. t' = t \<and> (\<exists>m. V' = set_mt (parent_path (node_rp n)) m (pasted (node_rp n) (tree_entries src) V)))"
  using assms unfolding copies_def by blast

lemma source_addable:
  assumes "disk_state c V w" and src: "source_tree c src" and n: "n \<in> tree_nodes src"
    and "V (node_rp n) = None" and "has_dir V (parent_path (node_rp n))"
  shows "addable V (node_rp n)"
proof -
  have "tree_entries src (node_rp n) = Some (elem n)" using tree_entries_node n src by (simp add: source_tree_def)
  then have "source_view c (node_rp n) = Some (plain (elem n))"
    using src by (metis option.simps(9) plains_simps(1) source_tree_def)
  from source_entry [OF assms(1) this] show ?thesis using assms(4,5) unfolding addable_def by metis
qed

text \<open>The nodes of one directory, one after the other.\<close>

definition pasted_all :: "DirectoryNode list \<Rightarrow> entries \<Rightarrow> entries \<Rightarrow> entries" where
  "pasted_all ns S V = (\<lambda>z. if \<exists>n \<in> set ns. at_or_below (node_rp n) z then plains S z else V z)"

lemma does_copyContent:
  assumes src: "source_tree c src" and t: "wf_tree t" and x: "dir_path x" "rp e = x"
    and ns: "wf_forest x ns" "set ns \<subseteq> tree_nodes src" and IH: "\<And>n. n \<in> set ns \<Longrightarrow> copies c src n"
    and z: "\<And>n z. n \<in> set ns \<Longrightarrow> at_or_below (node_rp n) z \<Longrightarrow> tree_entries t z = tree_entries src z \<and> V z = None"
    and d: "V x = Some d" "isDirectory d"
  shows "does c V (copyContent (ds_src c) (ds_dst c) ns e t) (\<lambda>t' V'. t' = t \<and> (\<exists>m. V' = set_mt x m (pasted_all ns (tree_entries src) V)))"
  using ns IH z d
proof (induction ns arbitrary: V d)
  case Nil
  have "set_mt x (mt d) V = V" using Nil.prems(5) by (rule set_mt_same)
  then show ?case by (auto simp: pasted_all_def intro!: does_return exI [of _ "mt d"])
next
  case (Cons n ns)
  let ?S = "tree_entries src"
  have wn: "wf_node x n" using Cons.prems(1) wf_forestD(3) by fastforce
  have par: "parent_path (node_rp n) = x" by (rule wf_node_parent [OF x(1) wn])
  have nx: "\<not> at_or_below (node_rp m) x" if "wf_node x m" for m
    using wf_node_below [OF x(1) that] by (metis at_or_below_def below_asym not_below_self)
  have nm: "node_rp n = child x (path_filename (node_rp n))" using wn by (simp add: wf_node_iff)
  have nt: "n \<in> tree_nodes src" using Cons.prems(2) by simp
  have "tree_entries t (node_rp n) = Some (elem n)"
    using Cons.prems(4) [of n "node_rp n"] tree_entries_node [OF _ nt] src by (simp add: at_or_below_def source_tree_def)
  then obtain dn where dn: "searchNode t (node_rp n) [] = Inr dn" "elem dn = elem n" using searchNode_found [OF t] by metis
  have hd: "has_dir V (parent_path (node_rp n))" using Cons.prems(5,6) par by (simp add: has_dir_def dir_at_def)
  have one: "does c V (recursiveFilesystemCopy (ds_src c) (ds_dst c) n dn t)
      (\<lambda>t' V'. t' = t \<and> (\<exists>m. V' = set_mt x m (pasted (node_rp n) ?S V)))"
    using copiesD [OF Cons.prems(3) t dn(2) _ hd] Cons.prems(4) [of n] par by simp
  have rest: "does c V1 (copyContent (ds_src c) (ds_dst c) ns e t)
      (\<lambda>t' V'. t' = t \<and> (\<exists>m. V' = set_mt x m (pasted_all (n # ns) ?S V)))"
    if V1: "V1 = set_mt x m (pasted (node_rp n) ?S V)" for V1 m
  proof (rule does_weaken [OF Cons.IH [of V1 "d\<lparr>mt := m\<rparr>"]])
    have apart: "\<not> at_or_below (node_rp n) z" if "m \<in> set ns" "at_or_below (node_rp m) z" for m z
    proof
      assume z: "at_or_below (node_rp n) z"
      have wm: "wf_node x m" "node_rp m \<noteq> node_rp n"
        using Cons.prems(1) that(1) by (auto simp: wf_forest_def image_iff)
      from at_or_below_child_unique [OF x(1), of "path_filename (node_rp n)" "path_filename (node_rp m)" z] z that(2) wm wn
      show False unfolding wf_node_iff by metis
    qed
    show "wf_forest x ns" using Cons.prems(1) by (auto simp: wf_forest_def)
    show "set ns \<subseteq> tree_nodes src" using Cons.prems(2) by simp
    show "copies c src m" if "m \<in> set ns" for m using Cons.prems(3) that by simp
    show "tree_entries t z = ?S z \<and> V1 z = None" if m: "m \<in> set ns" "at_or_below (node_rp m) z" for m z
    proof -
      have "z \<noteq> x" using nx m Cons.prems(1) wf_forestD(3) by fastforce
      then show ?thesis using Cons.prems(4) [of m z] m apart [OF m] unfolding V1 by (simp add: set_mt_def pasted_def)
    qed
    show "V1 x = Some (d\<lparr>mt := m\<rparr>)" using Cons.prems(5) nx [OF wn] unfolding V1 by (simp add: set_mt_def pasted_def)
    show "isDirectory (d\<lparr>mt := m\<rparr>)" using Cons.prems(6) by (simp add: isDirectory_def)
    fix t' V' assume "t' = t \<and> (\<exists>m. V' = set_mt x m (pasted_all ns ?S V1))"
    moreover have "set_mt x k (pasted_all ns ?S V1) = set_mt x k (pasted_all (n # ns) ?S V)" for k
      using nx Cons.prems(1) unfolding V1 by (auto simp: fun_eq_iff set_mt_def pasted_all_def pasted_def wf_forest_def
          option.map_comp comp_def)
    ultimately show "t' = t \<and> (\<exists>m. V' = set_mt x m (pasted_all (n # ns) ?S V))" by auto
  qed
  show ?case unfolding copyContent.simps Let_def x(2) nm [symmetric]
    by (rule does_lift_bind [OF dn(1)], rule does_bind [OF one]) (use rest in blast)
qed

text \<open>The entries below a node are those at or below the nodes in it.\<close>

lemma below_content:
  assumes wf: "wf_tree s" and n: "n \<in> tree_nodes s" and z: "below (node_rp n) z" "tree_entries s z \<noteq> None"
  shows "\<exists>m \<in> set (content n). at_or_below (node_rp m) z"
proof -
  have nn: "n \<in> set (nodes_in (topContent s))" using n by (simp add: tree_nodes_def)
  note w = wf_forest_sub [OF dir_path_Nil wf_treeD(1) [OF wf] nn]
  obtain e where "tree_entries s z = Some e" using z(2) by blast
  then obtain k where k: "k \<in> set (nodes_in (topContent s))" "node_rp k = z"
    using wf_tree_entries [OF wf] by (auto simp: tree_nodes_def)
  then have "k \<in> set (nodes_of n)"
    using at_or_below_subtree [OF dir_path_Nil wf_treeD(1) [OF wf] nn k(1)] z(1) by (simp add: at_or_below_def)
  moreover have "k \<noteq> n" using k(2) z(1) by (auto simp: not_below_self)
  ultimately obtain m where "m \<in> set (content n)" "k \<in> set (nodes_of m)" using nodes_of_eq [of n] by auto
  then show ?thesis using wf_node_nodes_of [OF w(3) wf_forestD(3) [OF w(4)]] k(2) by blast
qed

lemma pasted_leaf:
  assumes wf: "wf_tree s" and x: "tree_entries s x = Some e" "\<not> isDirectory e"
    and V: "\<And>z. at_or_below x z \<Longrightarrow> V z = None"
  shows "pasted x (tree_entries s) V = V(x \<mapsto> plain e)"
  using x V below_file [OF wf x] by (auto simp: pasted_def at_or_below_def fun_eq_iff)

lemma set_mt_upd: "q \<noteq> x \<Longrightarrow> (set_mt q m V)(x := e) = set_mt q m (V(x := e))"
  by (auto simp: set_mt_def fun_eq_iff)

lemma directory_resembles:
  assumes sv: "source_view c x = Some e" and "ty e = FT_directory" and "is_dir i"
  shows "resembles e ((inode_elem c x i)\<lparr>mt := m, per := per e\<rparr>)"
proof -
  obtain j where "e = inode_elem c x j" using sv by (auto simp: source_view_def view_of_def Let_def split: if_splits)
  moreover from this have "i_data j = Directory" using assms(2) by (cases "i_data j") (simp_all add: data_type_def)
  ultimately show ?thesis using assms(3) unfolding resembles_def by (simp add: inode_elem_def is_dir_def)
qed

lemma source_node:
  assumes src: "source_tree c src" and n: "n \<in> tree_nodes src"
  shows "wf_tree src" and "tree_entries src (node_rp n) = Some (elem n)" and "source_view c (node_rp n) = Some (plain (elem n))"
    and "copyable c (elem n)" and "parent_path (node_rp n) \<noteq> node_rp n"
    and "dir_path (node_rp n)" and "wf_forest (node_rp n) (content n)" and "set (content n) \<subseteq> tree_nodes src"
    and "m \<in> set (content n) \<Longrightarrow> at_or_below (node_rp m) z \<Longrightarrow> below (node_rp n) z"
proof -
  show wf: "wf_tree src" using src by (simp add: source_tree_def)
  show S: "tree_entries src (node_rp n) = Some (elem n)" by (rule tree_entries_node [OF wf n])
  show "source_view c (node_rp n) = Some (plain (elem n))" using S src by (metis option.simps(9) plains_simps(1) source_tree_def)
  show "copyable c (elem n)" using S src by (simp add: source_tree_def)
  show "parent_path (node_rp n) \<noteq> node_rp n" using present_parent(3) [OF wf, of "node_rp n"] S by auto
  have nn: "n \<in> set (nodes_in (topContent src))" using n by (simp add: tree_nodes_def)
  note w = wf_forest_sub [OF dir_path_Nil wf_treeD(1) [OF wf] nn]
  show "dir_path (node_rp n)" "wf_forest (node_rp n) (content n)" by (rule w)+
  show "set (content n) \<subseteq> tree_nodes src" using content_in_nodes_in [OF nn] by (auto simp: tree_nodes_def)
  show "m \<in> set (content n) \<Longrightarrow> at_or_below (node_rp m) z \<Longrightarrow> below (node_rp n) z"
    using wf_node_below [OF w(3) wf_forestD(3) [OF w(4)]] below_trans by (auto simp: at_or_below_def)
qed

lemma pasted_directory:
  assumes src: "source_tree c src" and n: "n \<in> tree_nodes src"
    and V: "\<And>z. at_or_below (node_rp n) z \<Longrightarrow> V z = None"
  defines "x \<equiv> node_rp n" and "S \<equiv> tree_entries src"
  shows "(set_mt x k (pasted_all (content n) S ((set_mt (parent_path x) m V)(x \<mapsto> d))))(x \<mapsto> plain (elem n)) =
    set_mt (parent_path x) m (pasted x S V)"
proof
  fix y
  note s = source_node [OF src n, folded x_def S_def]
  have q: "\<not> at_or_below x (parent_path x)" using parent_outside [OF s(1), of x] s(2) by (simp add: S_def)
  consider "y = x" | "y \<noteq> x" "at_or_below x y" | "\<not> at_or_below x y" by blast
  then show "((set_mt x k (pasted_all (content n) S ((set_mt (parent_path x) m V)(x \<mapsto> d))))(x \<mapsto> plain (elem n))) y =
      set_mt (parent_path x) m (pasted x S V) y"
  proof cases
    case 1
    then show ?thesis using s(2,5) by (simp add: set_mt_def pasted_def at_or_below_def)
  next
    case 2
    then have b: "below x y" "V y = None" "y \<noteq> parent_path x" using V q by (auto simp: at_or_below_def x_def)
    have "S y = None" if "\<not> (\<exists>m \<in> set (content n). at_or_below (node_rp m) y)"
      using below_content [OF s(1) n, of y] b(1) that unfolding x_def S_def by blast
    then show ?thesis using 2 b by (auto simp: set_mt_def pasted_def pasted_all_def)
  next
    case 3
    then have "\<not> (\<exists>m \<in> set (content n). at_or_below (node_rp m) y)" "y \<noteq> x" using s(9) by (auto simp: at_or_below_def)
    moreover have "\<not> (\<exists>m \<in> set (content n). at_or_below (node_rp m) (parent_path x))" using s(9) q by (auto simp: at_or_below_def)
    ultimately show ?thesis using 3 s(5) q by (auto simp: set_mt_def pasted_def pasted_all_def)
  qed
qed

text \<open>A copy that is complete but for its own owner and time.\<close>

definition nearly :: "FilesystemElement \<Rightarrow> path \<Rightarrow> entries \<Rightarrow> entries \<Rightarrow> entries \<Rightarrow> bool" where
  "nearly e x S V V' \<longleftrightarrow> (\<exists>e' m. resembles (plain e) e' \<and> V' x = Some e' \<and>
     V'(x \<mapsto> plain e) = set_mt (parent_path x) m (pasted x S V))"

lemma does_fill_directory:
  assumes src: "source_tree c src" and n: "n \<in> tree_nodes src" and ty: "ty (elem n) = FT_directory"
    and IH: "\<And>m. m \<in> set (content n) \<Longrightarrow> copies c src m" and t: "wf_tree t"
    and z: "\<And>z. at_or_below (node_rp n) z \<Longrightarrow> tree_entries t z = tree_entries src z \<and> V z = None"
    and i: "is_dir i" and V1: "made (node_rp n) V (inode_elem c (node_rp n) i) V1"
  defines "x \<equiv> node_rp n" and "S \<equiv> tree_entries src"
  shows "does c V1 (bindIO (copyContent (ds_src c) (ds_dst c) (content n) (elem n) t) (\<lambda>t.
      bindIO (set_permissions (path_append (ds_dst c) x) (per (elem n))) (\<lambda>_. returnIO t)))
    (\<lambda>t' V'. t' = t \<and> nearly (elem n) x S V V')"
proof -
  note s = source_node [OF src n, folded x_def S_def]
  obtain m where V1: "V1 = (set_mt (parent_path x) m V)(x \<mapsto> inode_elem c x i)" using V1 by (auto simp: made_def x_def)
  have v1: "V1 y = None" if "below x y" for y
    using z [of y] that not_below_self unfolding V1 x_def by (auto simp: set_mt_def at_or_below_def)
  have cc: "does c V1 (copyContent (ds_src c) (ds_dst c) (content n) (elem n) t)
      (\<lambda>t' V'. t' = t \<and> (\<exists>k. V' = set_mt x k (pasted_all (content n) S V1)))"
    unfolding S_def
  proof (rule does_copyContent [OF src t s(6) _ s(7,8) IH, where d = "inode_elem c x i"])
    show "tree_entries t y = tree_entries src y \<and> V1 y = None" if "m \<in> set (content n)" "at_or_below (node_rp m) y" for m y
      using s(9) [OF that] z [of y] v1 by (auto simp: at_or_below_def x_def)
  qed (use i V1 in \<open>simp_all add: x_def\<close>)
  show ?thesis
  proof (rule does_bind [OF cc], elim conjE exE)
    fix t' V2 k assume t': "t' = t" and V2: "V2 = set_mt x k (pasted_all (content n) S V1)"
    have nx: "\<not> (\<exists>m \<in> set (content n). at_or_below (node_rp m) x)" using s(9) not_below_self by blast
    let ?d = "(inode_elem c x i)\<lparr>mt := k\<rparr>" and ?p = "per (elem n)"
    have x2: "V2 x = Some ?d" using nx unfolding V2 V1 by (simp add: set_mt_def pasted_all_def)
    have ds: "data_type (i_data i) \<noteq> FT_symlink" using i by (simp add: data_type_def is_dir_def)
    have per: "?p AND 0xFFF = ?p" using source_per [OF src] s(2) by (simp add: S_def)
    have op: "does c V2 (set_permissions (path_append (ds_dst c) x) ?p) (exactly () (V2(x \<mapsto> ?d\<lparr>per := ?p\<rparr>)))"
      using does_permissions [where c = c and p = ?p, of V2 x ?d, OF x2] ds per by simp
    have "resembles (plain (elem n)) (?d\<lparr>per := ?p\<rparr>)" using directory_resembles [OF s(3) _ i, of k] ty by simp
    moreover have "V2(x \<mapsto> plain (elem n)) = set_mt (parent_path x) m (pasted x S V)"
      unfolding V2 V1 x_def S_def using pasted_directory [OF src n] z by blast
    ultimately have "nearly (elem n) x S V (V2(x \<mapsto> ?d\<lparr>per := ?p\<rparr>))" by (auto simp: nearly_def)
    then show "does c V2 (bindIO (set_permissions (path_append (ds_dst c) x) ?p) (\<lambda>_. returnIO t'))
        (\<lambda>t' V'. t' = t \<and> nearly (elem n) x S V V')"
      using t' by (intro does_bind_exactly [OF op] does_return) auto
  qed
qed

lemma does_finish_nearly:
  assumes "copyable c e" and "nearly e x S V V1"
  shows "does c V1 (bindIO (changeOwner (path_append (ds_dst c) x) (us e) (gs e) t) (\<lambda>t.
      bindIO (ext_symlink_last_write_time (path_append (ds_dst c) x) (mt e)) (\<lambda>_. returnIO t)))
    (\<lambda>t' V'. t' = t \<and> (\<exists>m. V' = set_mt (parent_path x) m (pasted x S V)))"
proof -
  obtain e' m where e': "resembles (plain e) e'" "V1 x = Some e'" and m: "V1(x \<mapsto> plain e) = set_mt (parent_path x) m (pasted x S V)"
    using assms(2) by (auto simp: nearly_def)
  show ?thesis by (rule does_weaken [OF does_finish [of c e e' V1 x t, OF assms(1) e']]) (use m in blast)
qed

lemma made_nearly:
  assumes src: "source_tree c src" and n: "n \<in> tree_nodes src" and d: "\<not> isDirectory (elem n)"
    and V: "\<And>z. at_or_below (node_rp n) z \<Longrightarrow> V z = None"
    and r: "resembles (plain (elem n)) e'" and m: "made (node_rp n) V e' V1"
  shows "nearly (elem n) (node_rp n) (tree_entries src) V V1"
proof -
  note s = source_node [OF src n]
  obtain m where m: "V1 = (set_mt (parent_path (node_rp n)) m V)(node_rp n \<mapsto> e')" using m by (auto simp: made_def)
  have "pasted (node_rp n) (tree_entries src) V = V(node_rp n \<mapsto> plain (elem n))"
    by (rule pasted_leaf [OF s(1,2) d V])
  then have "V1(node_rp n \<mapsto> plain (elem n)) = set_mt (parent_path (node_rp n)) m (pasted (node_rp n) (tree_entries src) V)"
    unfolding m using set_mt_upd [OF s(5)] by simp
  with r m show ?thesis by (auto simp: nearly_def)
qed

lemma copies_file:
  assumes src: "source_tree c src" and n: "n \<in> tree_nodes src" and ty: "ty (elem n) \<in> {FT_regular, FT_symlink}"
  shows "copies c src n"
  unfolding copies_def
proof (intro allI impI, elim conjE, rule does_assuming)
  fix dst :: DirectoryNode and t V w
  assume d: "elem dst = elem n" and z: "\<forall>z. at_or_below (node_rp n) z \<longrightarrow> tree_entries t z = tree_entries src z \<and> V z = None"
    and hd: "has_dir V (parent_path (node_rp n))" and st: "disk_state c V w"
  let ?x = "node_rp n" and ?e = "elem n" and ?S = "tree_entries src"
  let ?P = "path_append (ds_src c) (node_rp n)" and ?Q = "path_append (ds_dst c) (node_rp n)"
  let ?R = "\<lambda>t' V'. t' = t \<and> nearly ?e ?x ?S V V'"
  note s = source_node [OF src n]
  have a: "addable V ?x" by (rule source_addable [OF st src n _ hd]) (use z in \<open>simp add: at_or_below_def\<close>)
  have nr: "nearly ?e ?x ?S V V1" if "\<exists>e'. resembles (plain ?e) e' \<and> made ?x V e' V1" for V1
    using that made_nearly [OF src n, of V] ty z by (auto simp: isDirectory_def)
  have reg: "does c V (bindIO (copy_file ?P ?Q) (\<lambda>b. if b then returnIO t
      else throwIO (Runtime_error (''Error copying '' @ ?P @ '' to '' @ ?Q)))) ?R" if "ty ?e = FT_regular"
    by (rule does_bind [OF does_copy_file [OF s(3) _ a]]) (use that nr in \<open>auto intro: does_return\<close>)
  have lnk: "does c V (bindIO (copy_symlink ?P ?Q) (\<lambda>_. returnIO t)) ?R" if "ty ?e = FT_symlink"
    by (rule does_bind [OF does_copy_symlink [OF s(3) _ _ a]])
      (use that nr s(4) in \<open>auto simp: copyable_def intro: does_return\<close>)
  obtain a0 where n0: "n = DirectoryNode a0 ?e (content n)" by (cases n) simp
  have "does c V (recursiveFilesystemCopy (ds_src c) (ds_dst c) (DirectoryNode a0 ?e (content n)) dst t)
      (\<lambda>t' V'. t' = t \<and> (\<exists>m. V' = set_mt (parent_path ?x) m (pasted ?x ?S V)))"
    unfolding recursiveFilesystemCopy.simps Let_def d
    by (rule does_bind [where Q = ?R]) (use reg lnk ty does_finish_nearly [OF s(4)] in auto)
  then show "does c V (recursiveFilesystemCopy (ds_src c) (ds_dst c) n dst t)
      (\<lambda>t' V'. t' = t \<and> (\<exists>m. V' = set_mt (parent_path ?x) m (pasted ?x ?S V)))" using n0 by simp
qed

lemma copies_directory:
  assumes src: "source_tree c src" and n: "n \<in> tree_nodes src" and ty: "ty (elem n) = FT_directory"
    and IH: "\<And>m. m \<in> set (content n) \<Longrightarrow> copies c src m"
  shows "copies c src n"
  unfolding copies_def
proof (intro allI impI, elim conjE, rule does_assuming)
  fix dst :: DirectoryNode and t V w
  assume t: "wf_tree t" and d: "elem dst = elem n"
    and z: "\<forall>z. at_or_below (node_rp n) z \<longrightarrow> tree_entries t z = tree_entries src z \<and> V z = None"
    and hd: "has_dir V (parent_path (node_rp n))" and st: "disk_state c V w"
  let ?x = "node_rp n" and ?e = "elem n" and ?S = "tree_entries src" and ?P = "path_append (ds_dst c) (node_rp n)"
  have a: "addable V ?x" by (rule source_addable [OF st src n _ hd]) (use z in \<open>simp add: at_or_below_def\<close>)
  have mk: "does c V (bindIO (create_directory ?P) (\<lambda>b.
      if \<not> b then throwIO (Runtime_error (''Error creating directory '' @ ?P))
      else bindIO (copyContent (ds_src c) (ds_dst c) (content n) ?e t) (\<lambda>t.
        bindIO (set_permissions ?P (per ?e)) (\<lambda>_. returnIO t))))
      (\<lambda>t' V'. t' = t \<and> nearly ?e ?x ?S V V')"
    by (rule does_bind [OF does_mkdir [OF a]])
      (use does_fill_directory [OF src n ty IH t, of V] z in auto)
  obtain a0 where n0: "n = DirectoryNode a0 ?e (content n)" by (cases n) simp
  have "does c V (recursiveFilesystemCopy (ds_src c) (ds_dst c) (DirectoryNode a0 ?e (content n)) dst t)
      (\<lambda>t' V'. t' = t \<and> (\<exists>m. V' = set_mt (parent_path ?x) m (pasted ?x ?S V)))"
    unfolding recursiveFilesystemCopy.simps Let_def d
    by (rule does_bind [where Q = "\<lambda>t' V'. t' = t \<and> nearly ?e ?x ?S V V'"])
      (use mk does_finish_nearly [OF source_node(4) [OF src n]] in \<open>auto simp: ty\<close>)
  then show "does c V (recursiveFilesystemCopy (ds_src c) (ds_dst c) n dst t)
      (\<lambda>t' V'. t' = t \<and> (\<exists>m. V' = set_mt (parent_path ?x) m (pasted ?x ?S V)))" using n0 by simp
qed

lemma copies_all: "source_tree c src \<Longrightarrow> n \<in> tree_nodes src \<Longrightarrow> copies c src n"
proof (induction n)
  case (DirectoryNode a e cs)
  note s = source_node [OF DirectoryNode.prems]
  show ?case
  proof (cases "ty e = FT_directory")
    case True
    have "copies c src m" if "m \<in> set cs" for m
      using DirectoryNode.IH [OF that DirectoryNode.prems(1)] s(8) that by auto
    then show ?thesis using True by (intro copies_directory [OF DirectoryNode.prems]) simp_all
  next
    case False
    then show ?thesis using s(4) by (intro copies_file [OF DirectoryNode.prems]) (simp add: copyable_def)
  qed
qed

lemma does_copyFromTree:
  assumes m: "mirrored c E t V" and src: "source_tree c src" and x: "tree_entries src x = Some e" "E x = None"
    and dir: "has_dir E (parent_path x)"
  shows "does c V (copyFromTreeAndFilesystem t src x (parent_path x))
    (mirrored c (\<lambda>z. if at_or_below x z then tree_entries src z else E z))"
proof -
  have t: "wf_tree t" "topPath t = Some (ds_dst c)" "tree_entries t = E" "V = plains E" using m by (simp_all add: mirrored_def)
  let ?E = "\<lambda>z. if at_or_below x z then tree_entries src z else E z"
  have wf: "wf_tree src" "topPath src = Some (ds_src c)" using src by (simp_all add: source_tree_def)
  have "parent_path x = [] \<or> (\<exists>d. tree_entries t (parent_path x) = Some d \<and> isDirectory d)"
    using dir t(3) by (auto simp: has_dir_def dir_at_def split: option.splits)
  from treeCopy_entries [OF t(1) wf(1) x(1) _ this] x(2) t(2,3)
  obtain t' n new where t': "treeCopy t src x (parent_path x) = Inr (t', n, new)" "n \<in> tree_nodes src" "node_rp n = x"
    "elem new = elem n" "wf_tree t'" "topPath t' = Some (ds_dst c)" "tree_entries t' = ?E" by auto
  have ne: "x \<noteq> []" using x(1) entries_Nil [OF wf(1)] by auto
  have none: "V z = None" if "at_or_below x z" for z
    using that absent_below [OF t(1) _ ne] x(2) t(3,4) by (auto simp: at_or_below_def)
  have out: "\<not> at_or_below x (parent_path x)" using parent_outside [OF wf(1)] x(1) by blast
  have cp: "does c V (recursiveFilesystemCopy (ds_src c) (ds_dst c) n new t')
      (\<lambda>t1 V'. t1 = t' \<and> (\<exists>m. V' = set_mt (parent_path x) m (plains (tree_entries t'))))"
  proof (rule does_weaken [OF copiesD [OF copies_all [OF src t'(2)] t'(5,4)]])
    show "tree_entries t' z = tree_entries src z \<and> V z = None" if "at_or_below (node_rp n) z" for z
      using that none unfolding t'(3,7) by simp
    show "has_dir V (parent_path (node_rp n))" using dir t(4) t'(3) by simp
    have "pasted (node_rp n) (tree_entries src) V = plains (tree_entries t')"
      unfolding t'(3,7) t(4) by (auto simp: pasted_def fun_eq_iff)
    then show "t1 = t' \<and> (\<exists>m. V' = set_mt (parent_path (node_rp n)) m (pasted (node_rp n) (tree_entries src) V)) \<Longrightarrow>
        t1 = t' \<and> (\<exists>m. V' = set_mt (parent_path x) m (plains (tree_entries t')))" for t1 V'
      using t'(3) by simp
  qed
  have hd: "has_dir (tree_entries t') (parent_path x)" using dir out unfolding t'(7) by (simp add: has_dir_def dir_at_def)
  show ?thesis unfolding copyFromTreeAndFilesystem_def
    by (rule does_lift_bind [OF checkTop [OF t(2)]], rule does_lift_bind [OF checkTop [OF wf(2)]],
        rule does_lift_bind [OF t'(1)], unfold split_conv, rule does_bind [OF cp])
      (use does_fixup [OF t'(5) hd, of c] t' in \<open>auto simp: mirrored_def intro!: does_bind_exactly does_return\<close>)
qed

end
