(* ===== verification/Ddm_Backup_Disk.thy ===== *)
theory Ddm_Backup_Disk
  imports Ddm_Mirror Ddm_Backup_Result
begin

text \<open>
  A backup on the disk: in a system without failures, when no entry of the backup is newer than the
  source, the backup returns and the files of the backup directory are those of the tree. With the
  result on trees this gives the content of the backup directory.
\<close>

section \<open>Steps on the tree, the disk and the metadata\<close>

definition mirror :: "setting \<Rightarrow> DirectoryTree \<Rightarrow> world \<Rightarrow> bool" where
  "mirror c d w \<longleftrightarrow> wf_tree d \<and> topPath d = Some (ds_dst c) \<and> disk_state c (plains (tree_entries d)) w"

lemma mirror_mirrored: "mirror c d w \<Longrightarrow> mirrored c (tree_entries d) d (plains (tree_entries d))"
  by (simp add: mirror_def mirrored_def)

lemma bDst_mirror:
  assumes "mirror c d w" and "does c (plains (tree_entries d)) (f d) (mirrored c E)"
  obtains d' w' where "bDst f (d, meta, w) = (Inr (), (d', meta, w'))" and "mirror c d' w'" and "tree_entries d' = E"
proof -
  have "disk_state c (plains (tree_entries d)) w" using assms(1) by (simp add: mirror_def)
  then obtain d' V' w' where "f d w = (Inr d', w')" "disk_state c V' w'" "mirrored c E d' V'"
    using doesD [OF assms(2)] by blast
  then show ?thesis by (intro that [of d' w']) (auto simp: bDst_def mirror_def mirrored_def)
qed

lemma bMeta_total:
  assumes "\<And>m. meta = Some m \<Longrightarrow> \<exists>m'. f m = Inr m' \<and> P m'"
  shows "\<exists>meta'. bMeta f (d, meta, w) = (Inr (), (d, meta', w)) \<and> (\<forall>m. meta' = Some m \<longrightarrow> P m)"
  using assms by (cases meta) (auto simp: bMeta_def)

text \<open>The metadata tree has an entry at \<open>x\<close>.\<close>

definition meta_has :: "path \<Rightarrow> DirectoryTree \<Rightarrow> bool" where
  "meta_has x m \<longleftrightarrow> wf_tree m \<and> tree_entries m x \<noteq> None"

lemma step_if:
  assumes d: "mirror c d w" "tree_entries d x = Some e" and m: "\<And>m. meta = Some m \<Longrightarrow> meta_has x m"
    and F: "cnd \<Longrightarrow> does c (plains (tree_entries d)) (F d) (mirrored c ((tree_entries d)(x \<mapsto> g e)))"
    and f: "\<And>m e. wf_tree m \<Longrightarrow> tree_entries m x = Some e \<Longrightarrow>
      \<exists>m'. f m = Inr m' \<and> wf_tree m' \<and> tree_entries m' = (tree_entries m)(x \<mapsto> g e)"
  shows "\<exists>d' meta' w'. (if cnd then bindIO (bDst F) (\<lambda>_. bMeta f) else returnIO ()) (d, meta, w) = (Inr (), (d', meta', w')) \<and>
    mirror c d' w' \<and> tree_entries d' x = Some (if cnd then g e else e) \<and> (\<forall>m. meta' = Some m \<longrightarrow> meta_has x m)"
proof (cases cnd)
  case True
  obtain d' w' where d': "bDst F (d, meta, w) = (Inr (), (d', meta, w'))" "mirror c d' w'"
    "tree_entries d' = (tree_entries d)(x \<mapsto> g e)"
    by (rule bDst_mirror [where f = F, OF d(1) F [OF True]])
  have "\<exists>m'. f m = Inr m' \<and> meta_has x m'" if "meta = Some m" for m
    using m [OF that] f [of m] by (force simp: meta_has_def)
  then obtain meta' where "bMeta f (d', meta, w') = (Inr (), (d', meta', w'))" "\<And>m. meta' = Some m \<Longrightarrow> meta_has x m"
    using bMeta_total by blast
  with d' True show ?thesis by (auto simp: bindIO_apply)
next
  case False
  then show ?thesis using d m by (simp add: io_simps)
qed

lemma meta_has_aligned:
  assumes "backup_inv d meta" and "tree_entries d x = Some e" and "meta = Some m"
  shows "meta_has x m"
  using assms alignedD(1) [of "tree_entries d" "tree_entries m" x e] by (auto simp: backup_inv_iff wf_opt_def meta_has_def)

definition links_ok :: "entries \<Rightarrow> bool" where
  "links_ok E \<longleftrightarrow> (\<forall>x e. E x = Some e \<longrightarrow> ty e = FT_symlink \<longrightarrow> per e = 0x1FF)"

lemma total_properties:
  assumes inv: "backup_inv d meta" and d: "mirror c d w" "tree_entries d x = Some d1" "links_ok (tree_entries d)"
    and src: "source_tree c src" "tree_entries src x = Some d0" and cmp: "compare d0 d1 opt"
  shows "\<exists>d' meta' w'. backupProperties d0 d1 x (d, meta, w) = (Inr (), (d', meta', w')) \<and> mirror c d' w'"
proof -
  have cp: "copyable c d0" using src by (simp add: source_tree_def)
  have ty: "ty d1 = ty d0" using cmp by (simp add: compare_iff)
  have per: "per d0 AND 0xFFF = per d0" by (rule source_per [OF src])
  have lnk: "per d0 \<noteq> per d1 \<Longrightarrow> ty d1 \<noteq> FT_symlink" using cp d(2,3) ty by (auto simp: copyable_def links_ok_def)
  let ?F1 = "\<lambda>t. modifyPermissionsInTreeAndFilesystem t x (per d0)" and ?f1 = "\<lambda>t. modifyPermissionsInTree t x (per d0)"
  let ?F2 = "\<lambda>t. modifyOwnerInTreeAndFilesystem t x (us d0) (gs d0)" and ?f2 = "\<lambda>t. modifyOwnerInTree t x (us d0) (gs d0)"
  let ?F3 = "\<lambda>t. modifyMtimeInTreeAndFilesystem t x (mt d0)" and ?f3 = "\<lambda>t. modifyMtimeInTree t x (mt d0)"
  have m0: "\<And>m. meta = Some m \<Longrightarrow> meta_has x m" by (rule meta_has_aligned [OF inv d(2)])
  have op1: "per d0 \<noteq> per d1 \<Longrightarrow> does c (plains (tree_entries d)) (?F1 d) (mirrored c ((tree_entries d)(x \<mapsto> d1\<lparr>per := per d0\<rparr>)))"
    by (rule does_modifyPermissions [OF mirror_mirrored [OF d(1)] d(2) lnk per])
  let ?e = "if per d0 \<noteq> per d1 then d1\<lparr>per := per d0\<rparr> else d1"
  obtain da ma wa where a: "(if per d0 \<noteq> per d1 then bindIO (bDst ?F1) (\<lambda>_. bMeta ?f1) else returnIO ()) (d, meta, w) =
      (Inr (), (da, ma, wa))" "mirror c da wa" "tree_entries da x = Some ?e" "\<And>m. ma = Some m \<Longrightarrow> meta_has x m"
    using step_if [where F = ?F1 and f = ?f1 and g = "\<lambda>e. e\<lparr>per := per d0\<rparr>", OF d(1,2) m0 op1 modifyPermissionsInTree_entries] by blast
  have e: "ty ?e = ty d0" "per ?e = per d0" using ty by auto
  have op2: "does c (plains (tree_entries da)) (?F2 da) (mirrored c ((tree_entries da)(x \<mapsto> ?e\<lparr>us := us d0, gs := gs d0\<rparr>)))"
    using cp by (intro does_modifyOwner [OF mirror_mirrored [OF a(2)] a(3)]) (simp_all only: copyable_def e)
  obtain db mb wb e2 where b: "(if us d0 \<noteq> us d1 \<or> gs d0 \<noteq> gs d1 then bindIO (bDst ?F2) (\<lambda>_. bMeta ?f2) else returnIO ()) (da, ma, wa) =
      (Inr (), (db, mb, wb))" "mirror c db wb" "tree_entries db x = Some e2" "\<And>m. mb = Some m \<Longrightarrow> meta_has x m"
    using step_if [where F = ?F2 and f = ?f2 and g = "\<lambda>e. e\<lparr>us := us d0, gs := gs d0\<rparr>", OF a(2-4) op2 modifyOwnerInTree_entries] by blast
  have op3: "does c (plains (tree_entries db)) (?F3 db) (mirrored c ((tree_entries db)(x \<mapsto> e2\<lparr>mt := mt d0\<rparr>)))"
    by (rule does_modifyMtime [OF mirror_mirrored [OF b(2)] b(3)])
  obtain d' m' w' where "(if mt d0 \<noteq> mt d1 then bindIO (bDst ?F3) (\<lambda>_. bMeta ?f3) else returnIO ()) (db, mb, wb) =
      (Inr (), (d', m', w'))" "mirror c d' w'"
    using step_if [where F = ?F3 and f = ?f3 and g = "\<lambda>e. e\<lparr>mt := mt d0\<rparr>", OF b(2-4) op3 modifyMtimeInTree_entries] by blast
  with a(1) b(1) show ?thesis unfolding backupProperties_def by (auto simp: bindIO_apply)
qed

lemma bRemove_mirror:
  assumes "mirror c d w" and "tree_entries d x = Some e"
  obtains d' w' where "bRemove x (d, meta, w) = (Inr (), (d', meta, w'))" and "mirror c d' w'"
    and "tree_entries d' = cut x (tree_entries d)"
proof -
  have "does c (plains (tree_entries d)) (bindIO (removeFromTreeAndFilesystem d x) (\<lambda>(t, _). returnIO t))
      (mirrored c (cut x (tree_entries d)))"
    by (rule does_bind [OF does_removeFromTree [OF mirror_mirrored [OF assms(1)] assms(2)]])
      (auto intro: does_return split: prod.split)
  from bDst_mirror [where f = "\<lambda>t. bindIO (removeFromTreeAndFilesystem t x) (\<lambda>(t, _). returnIO t)", OF assms(1) this]
  show ?thesis using that unfolding bRemove_def by blast
qed

lemma bCopy_mirror:
  assumes "mirror c d w" and "source_tree c src" and "tree_entries src x = Some e" and "tree_entries d x = None"
    and "has_dir (tree_entries d) (parent_path x)"
  obtains d' w' where "bCopy src x (d, meta, w) = (Inr (), (d', meta, w'))" and "mirror c d' w'"
  using bDst_mirror [where f = "\<lambda>t. copyFromTreeAndFilesystem t src x (parent_path x)", OF assms(1)
      does_copyFromTree [OF mirror_mirrored [OF assms(1)] assms(2-5)]] that unfolding bCopy_def by blast

lemma meta_remove:
  assumes "meta_has x m"
  shows "\<exists>m'. removeFromTree m x = Inr m' \<and> wf_tree m' \<and> tree_entries m' = cut x (tree_entries m)"
  using assms removeFromTree_entries by (fastforce simp: meta_has_def cut_def)

lemma meta_copy:
  assumes "wf_tree m" and "wf_tree src" and "tree_entries src x = Some e" and "tree_entries m x = None"
    and "has_dir (tree_entries m) (parent_path x)"
  shows "\<exists>m'. copyFromTree m src x (parent_path x) = Inr m' \<and> True"
proof -
  have "parent_path x = [] \<or> (\<exists>k. tree_entries m (parent_path x) = Some k \<and> isDirectory k)"
    using assms(5) by (auto simp: has_dir_def dir_at_def split: option.splits)
  from copyFromTree_entries [OF assms(1-4) this] show ?thesis by blast
qed

text \<open>A metadata tree that agrees with the tree of the directory has the same directories.\<close>

lemma meta_aligned:
  assumes "backup_inv d meta" and "meta = Some m"
  shows "wf_tree m" and "tree_entries m x = None \<longleftrightarrow> tree_entries d x = None"
    and "has_dir (tree_entries m) p \<longleftrightarrow> has_dir (tree_entries d) p"
  using assms alignedD(2) [of "tree_entries d" "tree_entries m" x] has_dir_aligned [of "tree_entries d" "tree_entries m" p]
  by (auto simp: backup_inv_iff wf_opt_def)

lemma total_remove:
  assumes inv: "backup_inv d meta" and d: "mirror c d w" "tree_entries d x = Some e"
  shows "\<exists>d' meta' w'. bindIO (bRemove x) (\<lambda>_. bMeta (\<lambda>t. removeFromTree t x)) (d, meta, w) = (Inr (), (d', meta', w')) \<and> mirror c d' w'"
proof -
  obtain d' w' where d': "bRemove x (d, meta, w) = (Inr (), (d', meta, w'))" "mirror c d' w'"
    using bRemove_mirror [OF d] by blast
  obtain meta' where "bMeta (\<lambda>t. removeFromTree t x) (d', meta, w') = (Inr (), (d', meta', w'))"
    using bMeta_total [where f = "\<lambda>t. removeFromTree t x" and P = "\<lambda>_. True" and meta = meta]
      meta_remove [OF meta_has_aligned [OF inv d(2)]] by blast
  with d' show ?thesis by (auto simp: bindIO_apply)
qed

lemma total_copy:
  assumes inv: "backup_inv d meta" and d: "mirror c d w" "tree_entries d x = None" "has_dir (tree_entries d) (parent_path x)"
    and src: "source_tree c src" "tree_entries src x = Some e"
  shows "\<exists>d' meta' w'. bindIO (bCopy src x) (\<lambda>_. bMeta (\<lambda>t. copyFromTree t src x (parent_path x))) (d, meta, w) =
    (Inr (), (d', meta', w')) \<and> mirror c d' w'"
proof -
  obtain d' w' where d': "bCopy src x (d, meta, w) = (Inr (), (d', meta, w'))" "mirror c d' w'"
    using bCopy_mirror [OF d(1) src d(2,3)] by blast
  have wf: "wf_tree src" using src(1) by (simp add: source_tree_def)
  have "\<exists>m'. copyFromTree m src x (parent_path x) = Inr m' \<and> True" if "meta = Some m" for m
    using meta_copy [OF _ wf src(2)] meta_aligned [OF inv that] d(2,3) by blast
  then obtain meta' where "bMeta (\<lambda>t. copyFromTree t src x (parent_path x)) (d', meta, w') = (Inr (), (d', meta', w'))"
    using bMeta_total [where f = "\<lambda>t. copyFromTree t src x (parent_path x)" and P = "\<lambda>_. True"] by blast
  with d' show ?thesis by (auto simp: bindIO_apply)
qed

lemma total_replace:
  assumes inv: "backup_inv d meta" and d: "mirror c d w" "tree_entries d x = Some d1" "has_dir (tree_entries d) (parent_path x)"
    and src: "source_tree c src" "tree_entries src x = Some e"
  shows "\<exists>d' meta' w'. backupReplace src x (d, meta, w) = (Inr (), (d', meta', w')) \<and> mirror c d' w'"
proof -
  have wf: "wf_tree src" "wf_tree d" using src(1) d(1) by (simp_all add: source_tree_def mirror_def)
  have out: "\<not> at_or_below x (parent_path x)" using parent_outside [OF wf(1)] src(2) by blast
  obtain da wa where a: "bRemove x (d, meta, w) = (Inr (), (da, meta, wa))" "mirror c da wa" "tree_entries da = cut x (tree_entries d)"
    by (rule bRemove_mirror [OF d(1,2)])
  have da: "tree_entries da x = None" "has_dir (tree_entries da) (parent_path x)"
    using d(3) out unfolding a(3) by (simp_all add: has_dir_cut, simp add: cut_def)
  obtain db wb where b: "bCopy src x (da, meta, wa) = (Inr (), (db, meta, wb))" "mirror c db wb"
    using bCopy_mirror [OF a(2) src da] by blast
  let ?P = "\<lambda>m. wf_tree m \<and> tree_entries m x = None \<and> has_dir (tree_entries m) (parent_path x)"
  have "\<exists>m'. removeFromTree m x = Inr m' \<and> ?P m'" if "meta = Some m" for m
    using meta_remove [OF meta_has_aligned [OF inv d(2) that]] meta_aligned(3) [OF inv that] d(3) out has_dir_cut
    by (fastforce simp: cut_def)
  then obtain mb where mb: "bMeta (\<lambda>t. removeFromTree t x) (db, meta, wb) = (Inr (), (db, mb, wb))" "\<And>m. mb = Some m \<Longrightarrow> ?P m"
    using bMeta_total [where f = "\<lambda>t. removeFromTree t x" and P = ?P] by blast
  have "\<exists>m'. copyFromTree m src x (parent_path x) = Inr m' \<and> True" if "mb = Some m" for m
    using meta_copy [OF _ wf(1) src(2)] mb(2) [OF that] by blast
  then obtain mc where "bMeta (\<lambda>t. copyFromTree t src x (parent_path x)) (db, mb, wb) = (Inr (), (db, mc, wb))"
    using bMeta_total [where f = "\<lambda>t. copyFromTree t src x (parent_path x)" and P = "\<lambda>_. True"] by blast
  with a(1) b mb(1) show ?thesis by (auto simp: backupReplace_def bindIO_apply)
qed

section \<open>The loop\<close>

lemma backupEntry_total:
  assumes inv: "backup_inv d meta" and d: "mirror c d w" "links_ok (tree_entries d)" "has_dir (tree_entries d) (parent_path x)"
    and src: "source_tree c src" and diff: "differs compareAll (tree_entries src x) (tree_entries d x)"
    and new: "\<not> newer_at (tree_entries src) (tree_entries d) x"
  shows "\<exists>b' d' meta' w'. backupEntry src (tree_entries src x, tree_entries d x) b (d, meta, w) = (Inr b', (d', meta', w')) \<and> mirror c d' w'"
proof -
  have wf: "wf_tree src" "wf_tree d" using src d(1) by (simp_all add: source_tree_def mirror_def)
  show ?thesis
  proof (cases "tree_entries src x")
    case None
    then obtain d1 where D: "tree_entries d x = Some d1" using diff by (auto simp: differs_def split: option.splits)
    then show ?thesis using total_remove [OF inv d(1) D] entries_rp [OF wf(2) D] None
      by (auto simp: backupEntry_def bindIO_apply io_simps split: prod.splits sum.splits)
  next
    case S: (Some d0)
    note rp = entries_rp [OF wf(1) S]
    show ?thesis
    proof (cases "tree_entries d x")
      case None
      then show ?thesis using total_copy [OF inv d(1) None d(3) src S] rp S
        by (auto simp: backupEntry_def bindIO_apply io_simps split: prod.splits sum.splits)
    next
      case D: (Some d1)
      consider "compare d0 d1 (backupOpt d0 d1)" | "\<not> compare d0 d1 (backupOpt d0 d1)" "compare d0 d1 metadataOpt"
        | "\<not> compare d0 d1 (backupOpt d0 d1)" "\<not> compare d0 d1 metadataOpt" "\<not> mt d0 < mt d1"
        using new S D by (auto simp: newer_at_def)
      then show ?thesis
      proof cases
        case 1
        then show ?thesis using total_properties [OF inv d(1) D d(2) src S 1] rp S D
          by (auto simp: backupEntry_def bindIO_apply io_simps)
      next
        case 2
        then show ?thesis using d(1) S D by (auto simp: backupEntry_def io_simps)
      next
        case 3
        then show ?thesis using total_replace [OF inv d(1) D d(3) src S] rp S D
          by (auto simp: backupEntry_def bindIO_apply io_simps)
      qed
    qed
  qed
qed

lemma links_ok_applied:
  assumes "links_ok S" and "links_ok E" and "decided S E x dec"
  shows "links_ok (applied dec S x E)"
proof (cases dec)
  case Adjust
  show ?thesis
  proof (cases "\<exists>e0 e1. S x = Some e0 \<and> E x = Some e1")
    case True
    then obtain e0 e1 where e: "S x = Some e0" "E x = Some e1" by blast
    then have "ty e0 = ty e1" using assms(3) Adjust by (auto simp: decided_def compare_iff split: if_splits)
    then show ?thesis using assms(1,2) e Adjust by (auto simp: links_ok_def applied_def adjust_def)
  next
    case False
    then have "applied dec S x E = E" using Adjust by (auto simp: applied_def fun_eq_iff split: option.splits)
    then show ?thesis using assms(2) by simp
  qed
qed (use assms in \<open>auto simp: links_ok_def applied_def\<close>)

lemma source_links: "source_tree c src \<Longrightarrow> links_ok (tree_entries src)"
  by (simp add: source_tree_def links_ok_def copyable_def)

lemma backupEntries_total:
  assumes src: "source_tree c src" and wf: "wf_tree dst"
  defines "S \<equiv> tree_entries src" and "D \<equiv> tree_entries dst"
  assumes ok: "entries_ok S" "entries_ok D"
    and ys: "distinct ys" "\<forall>y \<in> set ys. reported2 compareAll S D y \<and> y \<notin> X \<and> \<not> newer_at S D y"
    and X: "\<forall>x \<in> X. reported2 compareAll S D x" and E: "handled S D X (tree_entries d)"
    and inv: "backup_inv d meta" and d: "mirror c d w" "links_ok (tree_entries d)"
  shows "\<exists>b' d' meta' w'. foldIO (backupEntry src) (map (\<lambda>x. (S x, D x)) ys) b (d, meta, w) = (Inr b', (d', meta', w')) \<and>
    mirror c d' w'"
  using ys X E inv d
proof (induction ys arbitrary: X d meta w b)
  case Nil
  then show ?case by (simp add: io_simps)
next
  case (Cons y ys)
  have y: "reported2 compareAll S D y" "y \<notin> X" "\<not> newer_at S D y" using Cons.prems(2) by auto
  have ws: "wf_tree src" using src by (simp add: source_tree_def)
  note h = entry_handled [OF ws wf, folded S_def D_def, OF ok y(1,2) Cons.prems(3-5)]
  have "differs compareAll (S y) (tree_entries d y)" "\<not> newer_at S (tree_entries d) y"
    using y(1,3) h(1) by (simp_all add: reported2_def newer_at_def)
  from backupEntry_total [OF Cons.prems(5-7) h(2) src this [unfolded S_def], folded S_def, unfolded h(1)]
  obtain b1 d1 m1 w1 where r: "backupEntry src (S y, D y) b (d, meta, w) = (Inr b1, (d1, m1, w1))" "mirror c d1 w1" by blast
  obtain dec where s1: "decided S (tree_entries d) y dec" "backup_inv d1 m1" "tree_entries d1 = applied dec S y (tree_entries d)"
    "handled S D (insert y X) (tree_entries d1)" using h(3) [OF r(1)] unfolding prod.inject by blast
  have l: "links_ok (tree_entries d1)"
    unfolding s1(3) using links_ok_applied [OF source_links [OF src] Cons.prems(7)] s1(1) by (simp add: S_def)
  have pre: "distinct ys" "\<forall>z \<in> set ys. reported2 compareAll S D z \<and> z \<notin> insert y X \<and> \<not> newer_at S D z"
    "\<forall>x \<in> insert y X. reported2 compareAll S D x" using Cons.prems(1-3) y by auto
  from Cons.IH [OF pre s1(4,2) r(2) l, of b1] show ?case using r(1) by (auto simp: bindIO_apply)
qed

theorem backupImpl_total:
  assumes v: "path_iteration visit" and src: "source_tree c src" and d: "mirror c dst w" "links_ok (tree_entries dst)"
    and ok: "entries_ok (tree_entries src)" "entries_ok (tree_entries dst)" and inv: "backup_inv dst meta"
    and new: "\<And>x. \<not> newer_at (tree_entries src) (tree_entries dst) x"
  shows "\<exists>r dst' meta' w'. backupImpl visit src (dst, meta, w) = (Inr r, (dst', meta', w')) \<and> mirror c dst' w' \<and>
    backup_inv dst' meta' \<and> (meta' = None \<longleftrightarrow> meta = None) \<and> backup_result (tree_entries src) (tree_entries dst) r (tree_entries dst')"
proof -
  let ?S = "tree_entries src" and ?D = "tree_entries dst"
  have wf: "wf_tree src" "wf_tree dst" using src d(1) by (simp_all add: source_tree_def mirror_def)
  obtain xs where xs: "diff2 visit src dst compareAll = Inr (map (\<lambda>x. (?S x, ?D x)) xs)" "distinct xs"
    "set xs = {x. reported2 compareAll ?S ?D x}"
    using path_iteration.diff2_reports [OF v wf] by blast
  have "handled ?S ?D {} ?D" by (simp add: handled_def)
  from backupEntries_total [OF src wf(2) ok xs(2) _ _ this inv d] new
  obtain b dst' meta' w' where b: "foldIO (backupEntry src) (map (\<lambda>x. (?S x, ?D x)) xs) False (dst, meta, w) =
      (Inr b, (dst', meta', w'))" "mirror c dst' w'" unfolding xs(3) by blast
  then have "backupImpl visit src (dst, meta, w) = (Inr (if b then 2 else 0), (dst', meta', w'))"
    using xs(1) by (simp add: backupImpl_def bindIO_apply io_simps)
  with backupImpl_result [OF v wf ok inv this] b(2) show ?thesis by blast
qed

section \<open>From scan to result\<close>

lemma scanSourceTargetDir_scanned:
  assumes w: "calm w" "fs_ok w" and s: "scan_of w src Ks" and d: "scan_of w dst Kd"
  shows "\<exists>s d w'. scanSourceTargetDir sha src dst threads opt w = (Inr (s, d), w') \<and> calm w' \<and> same_system w w' \<and>
    wf_tree s \<and> topPath s = Some (absolute_path w src) \<and> tree_entries s = fs_view sha opt w Ks \<and>
    wf_tree d \<and> topPath d = Some (absolute_path w dst) \<and> tree_entries d = fs_view sha opt w Kd"
proof -
  obtain ts w1 where t: "scanDirectory sha emptyTree src opt w = (Inr ts, w1)" "calm w1" "same_system w w1" "wf_tree ts"
    "topPath ts = Some (absolute_path w src)" "tree_entries ts = fs_view sha opt w Ks"
    using scanDirectory_scanned [OF w s] by blast
  note sm = same_files [OF t(3)]
  obtain td w2 where u: "scanDirectory sha emptyTree dst opt w1 = (Inr td, w2)" "calm w2" "same_system w1 w2" "wf_tree td"
    "topPath td = Some (absolute_path w dst)" "tree_entries td = fs_view sha opt w Kd"
    using scanDirectory_scanned [OF t(2), of dst Kd sha emptyTree opt] w(2) d
    unfolding same_scan [OF t(3)] sm(5,7) view_same [OF t(3)] by blast
  have "same_system w w2" by (rule system.trans [OF t(3) u(3)])
  moreover have "scanSourceTargetDir sha src dst threads opt w = (Inr (ts, td), w2)"
    using t(1) u(1) by (cases threads) (simp_all add: scanSourceTargetDir_def bindIO_apply catchIO_def io_simps)
  ultimately show ?thesis using t u by blast
qed

text \<open>
  Source and target are different directories, and neither path leads through the target. Every
  user and group has one name.
\<close>

definition separate :: "world \<Rightarrow> path \<Rightarrow> key \<Rightarrow> path \<Rightarrow> key \<Rightarrow> bool" where
  "separate w src Ks dst Kd \<longleftrightarrow> scan_of w src Ks \<and> scan_of w dst Kd \<and> \<not> prefix Kd Ks \<and> \<not> prefix Ks Kd \<and>
     anchored w Kd (absolute_path w src) Ks \<and> anchored w Kd (absolute_path w dst) Kd \<and>
     distinct (map fst (passwd w)) \<and> distinct (map fst (groups w))"

definition restorable_elem :: "world \<Rightarrow> FilesystemElement \<Rightarrow> bool" where
  "restorable_elem w e \<longleftrightarrow> ty e \<in> {FT_regular, FT_directory, FT_symlink} \<and> us e \<in> snd ` set (passwd w) \<and>
     gs e \<in> snd ` set (groups w) \<and> (ty e = FT_regular \<longrightarrow> no_setid (per e)) \<and> (ty e = FT_symlink \<longrightarrow> per e = 0x1FF)"

definition restorable :: "world \<Rightarrow> entries \<Rightarrow> bool" where
  "restorable w E \<longleftrightarrow> (\<forall>x e. E x = Some e \<longrightarrow> restorable_elem w e)"

definition setting_of :: "(string \<Rightarrow> string) \<Rightarrow> ScanOpt \<Rightarrow> world \<Rightarrow> path \<Rightarrow> key \<Rightarrow> path \<Rightarrow> key \<Rightarrow> setting" where
  "setting_of sha opt w src Ks dst Kd = \<lparr>ds_sha = sha, ds_opt = opt, ds_src = absolute_path w src, ds_srcKey = Ks,
     ds_dst = absolute_path w dst, ds_dstKey = Kd, ds_outer = lookup w, ds_users = passwd w, ds_groups = groups w,
     ds_unames = snd ` set (passwd w), ds_gnames = snd ` set (groups w)\<rparr>"

lemma setting_of_fields [simp]:
  fixes sha opt w src Ks dst Kd
  defines "c \<equiv> setting_of sha opt w src Ks dst Kd"
  shows "ds_sha c = sha" and "ds_opt c = opt" and "ds_src c = absolute_path w src" and "ds_srcKey c = Ks"
    and "ds_dst c = absolute_path w dst" and "ds_dstKey c = Kd" and "ds_outer c = lookup w" and "ds_users c = passwd w"
    and "ds_groups c = groups w" and "ds_unames c = snd ` set (passwd w)" and "ds_gnames c = snd ` set (groups w)"
  by (simp_all add: c_def setting_of_def)

lemma setting_of_start:
  fixes sha opt
  assumes w: "fs_ok w" and sep: "separate w src Ks dst Kd" and w': "calm w'" "same_system w w'"
  shows "wf_tree d \<Longrightarrow> topPath d = Some (absolute_path w dst) \<Longrightarrow> tree_entries d = fs_view sha opt w Kd \<Longrightarrow> mirror (setting_of sha opt w src Ks dst Kd) d w'"
    and "wf_tree s \<Longrightarrow> topPath s = Some (absolute_path w src) \<Longrightarrow> tree_entries s = fs_view sha opt w Ks \<Longrightarrow>
      restorable w (fs_view sha opt w Ks) \<Longrightarrow> source_tree (setting_of sha opt w src Ks dst Kd) s"
proof -
  let ?c = "setting_of sha opt w src Ks dst Kd"
  have l: "lookup w' = lookup w" "passwd w' = passwd w" "groups w' = groups w"
    using same_system_facts [OF w'(2)] by blast+
  have v: "plains (fs_view sha opt w K) = view_of ?c (\<lambda>ks. lookup w (K @ ks))" for K
    using view_of_fs_view [of w ?c K] by (intro ext) (simp add: plains_def)
  have an: "anchored w' Kd p K" if "anchored w Kd p K" for p K
    by (rule anchored_changed [OF that]) (simp add: l)
  have "target w' (absolute_path w dst) Kd" "anchored w' Kd (absolute_path w src) Ks"
    using w w' sep same_files(5) [OF w'(2)] an by (simp_all add: target_def separate_def)
  moreover have "setting_ok ?c" using sep by (simp add: setting_ok_def separate_def)
  ultimately have st: "disk_state ?c (view_of ?c (\<lambda>ks. lookup w (Kd @ ks))) w'"
    by (simp add: disk_state_def l name_known_def)
  show "mirror ?c d w'" if "wf_tree d" "topPath d = Some (absolute_path w dst)" "tree_entries d = fs_view sha opt w Kd"
    using that v [of Kd] st by (simp add: mirror_def)
  show "source_tree ?c s" if "wf_tree s" "topPath s = Some (absolute_path w src)" "tree_entries s = fs_view sha opt w Ks"
    "restorable w (fs_view sha opt w Ks)"
    using that v [of Ks] by (simp add: source_tree_def source_view_def copyable_def restorable_def restorable_elem_def)
qed

lemma entries_ok_view:
  assumes "fs_ok w"
  shows "entries_ok (fs_view sha opt w K)"
  unfolding entries_ok_def using view_Some [OF assms] elem_ok_element_of by (metis (no_types))

lemma differs_plain:
  assumes "map_option plain a = map_option plain b"
  shows "differs opt e a = differs opt e b"
proof (cases a; cases b)
  fix x y assume ab: "a = Some x" "b = Some y"
  with assms have "compare d x opt = compare d y opt" for d using compare_plain(2) [of d] by (metis option.map(2) option.inject)
  with ab show ?thesis by (simp add: differs_def split: option.splits)
qed (use assms in simp_all)

lemma mirror_view:
  assumes "mirror (setting_of sha opt w src Ks dst Kd) d w'"
  shows "\<not> differs compareAll e (tree_entries d z) \<Longrightarrow> \<not> differs compareAll e (fs_view sha opt w' Kd z)"
    and "\<not> prefix Kd k \<Longrightarrow> lookup w' k = lookup w k"
proof -
  let ?c = "setting_of sha opt w src Ks dst Kd"
  have st: "disk_state ?c (plains (tree_entries d)) w'" using assms by (simp add: mirror_def)
  have "plains (tree_entries d) z = map_option plain (fs_view (ds_sha ?c) (ds_opt ?c) w' (ds_dstKey ?c) z)"
    unfolding view_of_fs_view [OF disk_stateD(4,5) [OF st]] by (rule fun_cong [OF disk_stateD(6) [OF st]])
  then show "\<not> differs compareAll e (tree_entries d z) \<Longrightarrow> \<not> differs compareAll e (fs_view sha opt w' Kd z)"
    using differs_plain [of "tree_entries d z" "fs_view sha opt w' Kd z"] by simp
  show "\<not> prefix Kd k \<Longrightarrow> lookup w' k = lookup w k" using st by (simp add: disk_state_def)
qed

text \<open>
  The files of the backup directory after a backup: the source's, except at and below bit rot,
  where they are as before.
\<close>

definition backed_up :: "entries \<Rightarrow> entries \<Rightarrow> int \<Rightarrow> entries \<Rightarrow> bool" where
  "backed_up A B r V \<longleftrightarrow> r = (if \<exists>x. rotten_at A B x then 2 else 0) \<and>
     (\<forall>z. (\<forall>x. at_or_below x z \<longrightarrow> \<not> rotten_at A B x) \<longrightarrow> \<not> differs compareAll (A z) (V z)) \<and>
     (\<forall>x z. rotten_at A B x \<and> at_or_below x z \<longrightarrow> \<not> differs compareAll (B z) (V z))"

lemma backed_up_view:
  assumes "mirror (setting_of sha opt w src Ks dst Kd) d w'" and "backup_result A B r (tree_entries d)"
    and "\<And>x. \<not> newer_at A B x"
  shows "backed_up A B r (fs_view sha opt w' Kd)"
proof -
  note eq = mirror_view(1) [OF assms(1)]
  have "\<not> differs compareAll (A z) (tree_entries d z)" if "\<forall>x. at_or_below x z \<longrightarrow> \<not> rotten_at A B x" for z
    using assms(2,3) that by (simp add: backup_result_def)
  moreover have "\<not> differs compareAll (B z) (tree_entries d z)" if "rotten_at A B x" "at_or_below x z" for x z
    using assms(2) that by (auto simp: backup_result_def)
  moreover have "r = (if \<exists>x. rotten_at A B x then 2 else 0)" using assms(2) by (simp add: backup_result_def)
  ultimately show ?thesis unfolding backed_up_def using eq by blast
qed

theorem backup_files:
  fixes sha opt
  assumes v: "path_iteration visit" and w: "calm w" "fs_ok w" and sep: "separate w src Ks dst Kd"
  defines "A \<equiv> fs_view sha opt w Ks" and "B \<equiv> fs_view sha opt w Kd"
  assumes A: "restorable w A" and B: "links_ok B" and new: "\<And>x. \<not> newer_at A B x"
    and m: "\<And>d. wf_tree d \<Longrightarrow> tree_entries d = B \<Longrightarrow> backup_inv d (m d)"
  shows "\<exists>s d w1 r d' m' w'. scanSourceTargetDir sha src dst threads opt w = (Inr (s, d), w1) \<and>
    backupImpl visit s (d, m d, w1) = (Inr r, (d', m', w')) \<and> backed_up A B r (fs_view sha opt w' Kd) \<and>
    (\<forall>k. \<not> prefix Kd k \<longrightarrow> lookup w' k = lookup w k) \<and> backup_inv d' m' \<and> (m' = None \<longleftrightarrow> m d = None)"
proof -
  let ?c = "setting_of sha opt w src Ks dst Kd"
  have sc: "scan_of w src Ks" "scan_of w dst Kd" using sep by (simp_all add: separate_def)
  obtain s d w1 where t: "scanSourceTargetDir sha src dst threads opt w = (Inr (s, d), w1)" "calm w1" "same_system w w1"
    "wf_tree s" "topPath s = Some (absolute_path w src)" "tree_entries s = A"
    "wf_tree d" "topPath d = Some (absolute_path w dst)" "tree_entries d = B"
    using scanSourceTargetDir_scanned [OF w sc] unfolding A_def B_def by blast
  have mir: "mirror ?c d w1" by (rule setting_of_start(1) [OF w(2) sep t(2,3,7,8) t(9) [unfolded B_def]])
  have src: "source_tree ?c s" by (rule setting_of_start(2) [OF w(2) sep t(2-5) t(6) [unfolded A_def]]) (use A in \<open>simp add: A_def\<close>)
  have ok: "entries_ok A" "entries_ok B" using entries_ok_view [OF w(2)] by (simp_all add: A_def B_def)
  obtain r d' m' w' where r: "backupImpl visit s (d, m d, w1) = (Inr r, (d', m', w'))" "mirror ?c d' w'"
    "backup_inv d' m'" "m' = None \<longleftrightarrow> m d = None" "backup_result A B r (tree_entries d')"
    using backupImpl_total [OF v src mir, unfolded t(6,9), OF B ok m [OF t(7,9)] new] by (elim exE conjE) (rule that)
  have "backed_up A B r (fs_view sha opt w' Kd)" by (rule backed_up_view [OF r(2,5) new])
  with t(1) r(1,3,4) show ?thesis using mirror_view(2) [OF r(2)]
    by (intro exI [of _ s] exI [of _ d] exI [of _ w1] exI [of _ r] exI [of _ d'] exI [of _ m'] exI [of _ w']) simp
qed

text \<open>Entries with hashes that compare equal have contents with the same hash.\<close>

lemma backed_up_content:
  assumes "\<not> differs compareAll (fs_view sha ComputeHash w Ks (rel_path ks)) (fs_view sha ComputeHash w' Kd (rel_path ks))"
    and sha: "\<And>t. sha t \<noteq> []" and ks: "names_ok ks" "ks \<noteq> []"
    and i: "lookup w (Ks @ ks) = Some i" "i_data i = Regular t"
  shows "\<exists>j t'. lookup w' (Kd @ ks) = Some j \<and> i_data j = Regular t' \<and> sha t' = sha t"
proof -
  have "fs_view sha ComputeHash w Ks (rel_path ks) = Some (element_of sha ComputeHash w (rel_path ks) i)"
    using view_rel [OF ks] i(1) by simp
  then obtain j where j: "lookup w' (Kd @ ks) = Some j"
    "compare (element_of sha ComputeHash w (rel_path ks) i) (element_of sha ComputeHash w' (rel_path ks) j) compareAll"
    using assms(1) view_rel [OF ks, of sha ComputeHash w' Kd] by (auto simp: not_differs_iff)
  from j(2) i(2) sha show ?thesis using j(1)
    by (cases "i_data j") (auto simp: compare_iff compareAll_def element_of_def data_type_def)
qed

end
