(* ===== verification/Ddm_Sample_World.thy ===== *)
theory Ddm_Sample_World
  imports Ddm_Disk Ddm_Samples Ddm_Commands
begin

text \<open>
  A small system on which the properties about files are evaluated: a source directory with a
  file and a link, an empty backup directory, and metadata files.
\<close>

definition node :: "file_data \<Rightarrow> inode" where
  "node d = \<lparr>i_perm = 420, i_uid = 0, i_gid = 0, i_mtime = 1600000000, i_nlink = 1, i_data = d\<rparr>"

definition listing :: DirectoryTree where
  "listing = indexed_tree [DirectoryNode 0 ((fileElem ''z'' (replicate 40 (CHR ''0'')))\<lparr>us := ''root'', gs := ''root''\<rparr>) []] 1"

definition smallWorld :: world where
  "smallWorld = \<lparr>files = [([], node Directory), ([''s''], node Directory), ([''s'', ''z''], node (Regular ''abc'')),
       ([''s'', ''l''], node (Symlink ''z'')), ([''b''], node Directory)],
     cwd = ''/'', umask = 18, euid = 0, egid = 0, clock = (\<lambda>n. 1700000000 + int n), ticks = 0,
     passwd = [(0, ''root'')], groups = [(0, ''root'')], userCache = (\<lambda>_. None), groupCache = (\<lambda>_. None),
     userReverseCache = (\<lambda>_. None), groupReverseCache = (\<lambda>_. None), faults = [], stdin = []\<rparr>"

definition sampleWorld :: world where
  "sampleWorld = smallWorld\<lparr>files := files smallWorld @ [([''m''], node (Regular (writeTree listing)))]\<rparr>"

definition sampleSrc :: DirectoryTree where
  "sampleSrc = (indexed_tree [DirectoryNode 0 ((fileElem ''z'' [])\<lparr>us := ''root'', gs := ''root''\<rparr>) []] 1)\<lparr>topPath := Some ''/s''\<rparr>"

definition sampleDst :: DirectoryTree where
  "sampleDst = (indexed_tree [] 0)\<lparr>topPath := Some ''/b''\<rparr>"

lemma calm_sample: "calm sampleWorld"
  by (simp add: calm_def sampleWorld_def smallWorld_def caches_agree_empty)

lemma lookup_sample:
  "lookup sampleWorld k =
     (if k = [] \<or> k = [''s''] \<or> k = [''b''] then Some (node Directory)
      else if k = [''s'', ''z''] then Some (node (Regular ''abc''))
      else if k = [''s'', ''l''] then Some (node (Symlink ''z''))
      else if k = [''m''] then Some (node (Regular (writeTree listing))) else None)"
  by (simp add: lookup_def sampleWorld_def smallWorld_def)

lemma fs_ok_sample: "fs_ok sampleWorld"
  by (simp add: fs_ok_def dir_at_key_def lookup_sample is_dir_def node_def)
    (simp add: sampleWorld_def smallWorld_def proper_name_def valid_name_def)


lemma scan_of_sample: "scan_of sampleWorld ''/s'' [''s'']" "scan_of sampleWorld ''/b'' [''b'']"
proof -
  have "path_elements ''/s'' = [''s'']" "top_path ''/s''" "has_root ''/s''"
    "path_elements ''/b'' = [''b'']" "top_path ''/b''" "has_root ''/b''" by code_simp+
  then show "scan_of sampleWorld ''/s'' [''s'']" "scan_of sampleWorld ''/b'' [''b'']"
    by (simp_all add: scan_of_def top_at_def resolve_def absolute_path_def walk.simps(2) lookup_sample
        dir_at_key_def is_dir_def node_def)
qed

section \<open>A backup\<close>

lemma wf_topPath [simp]: "wf_tree (t\<lparr>topPath := p\<rparr>) = wf_tree t" "tree_entries (t\<lparr>topPath := p\<rparr>) = tree_entries t"
  by (simp_all add: wf_tree_def tree_entries_def)

lemma wf_single:
  assumes "valid_name (rp e)"
  shows "wf_tree (indexed_tree [DirectoryNode 0 e []] 1)"
    and "tree_entries (indexed_tree [DirectoryNode 0 e []] 1) = [rp e \<mapsto> e]"
proof -
  have "path_filename (rp e) = rp e" "child [] (rp e) = rp e"
    using path_filename_name [OF assms] child_eq [OF dir_path_Nil assms] by simp_all
  then show "wf_tree (indexed_tree [DirectoryNode 0 e []] 1)"
    using assms by (intro wf_indexed_tree) (simp_all add: wf_forest_def)
qed (simp add: indexed_tree_def tree_entries_def forest_entries_def)

lemma wf_sampleSrc: "wf_tree sampleSrc"
  unfolding sampleSrc_def wf_topPath by (rule wf_single) (simp add: fileElem_def valid_name_def)

lemma wf_sampleDst: "wf_tree sampleDst"
  unfolding sampleDst_def wf_topPath by (rule wf_indexed_tree) simp_all

lemma sample_entries_ok: "entries_ok (tree_entries sampleSrc)" "entries_ok (tree_entries sampleDst)"
proof -
  have "tree_entries sampleSrc = [''z'' \<mapsto> (fileElem ''z'' [])\<lparr>us := ''root'', gs := ''root''\<rparr>]"
    using wf_single(2) [of "(fileElem ''z'' [])\<lparr>us := ''root'', gs := ''root''\<rparr>"]
    by (simp add: sampleSrc_def fileElem_def valid_name_def)
  then show "entries_ok (tree_entries sampleSrc)"
    by (simp add: entries_ok_def elem_ok_def fileElem_def emptyElement_def)
  show "entries_ok (tree_entries sampleDst)"
    by (simp add: entries_ok_def sampleDst_def indexed_tree_def tree_entries_def forest_entries_def)
qed

lemma sample_backup_inv: "backup_inv sampleDst (Some sampleDst)"
  by (simp add: backup_inv_def wf_sampleDst)

lemma sample_backup_run:
  "case backupImpl insertion_order sampleSrc (sampleDst, Some sampleDst, smallWorld) of
     (Inr r, (d, m, w)) \<Rightarrow> r = 0 \<and> lookup w [''b'', ''z''] \<noteq> None | _ \<Rightarrow> False"
  by code_simp

section \<open>Scrubs\<close>

abbreviation listed :: FilesystemElement where
  "listed \<equiv> (fileElem ''z'' (replicate 40 (CHR ''0'')))\<lparr>us := ''root'', gs := ''root''\<rparr>"

lemma listing_facts: "wf_tree listing" "tree_entries listing = [''z'' \<mapsto> listed]" "file_ok listed"
proof -
  show "wf_tree listing" unfolding listing_def by (rule wf_single) (simp add: fileElem_def valid_name_def)
  show "tree_entries listing = [''z'' \<mapsto> listed]"
    using wf_single(2) [of listed] by (simp add: listing_def fileElem_def valid_name_def)
  show "file_ok listed" by code_simp
qed

lemma hashed_listing: "hashed (tree_entries listing)"
  using listing_facts(3) by (auto simp: hashed_def listing_facts(2) file_ok_def line_ok_def fileElem_def)

definition hashedManager :: TreeManager where
  "hashedManager = newTreeManager emptyTree listing listing (indexed_tree [] 0) ''/m'' ''/m'' False"

lemma scrub_state_hashedManager: "scrub_state hashedManager"
proof -
  have "wf_tree (indexed_tree [] 0)" by (rule wf_indexed_tree) simp_all
  moreover have "hashed (tree_entries (indexed_tree [] 0))"
    by (simp add: hashed_def indexed_tree_def tree_entries_def forest_entries_def)
  ultimately show ?thesis using listing_facts(1) hashed_listing
    by (simp add: scrub_state_def hashedManager_def newTreeManager_def)
qed

lemma bad_hashedManager: "bad1 hashedManager = {}"
  by (simp add: bad_def hashedManager_def newTreeManager_def)

lemma hashed_file_sample: "hashed_file sampleWorld ''/m'' (tree_entries listing)"
proof -
  have "path_elements ''/m'' = [''m'']" "has_root ''/m''" by code_simp+
  then have "file_at sampleWorld True ''/m'' = Some ([''m''], node (Regular (writeTree listing)))"
    by (simp add: file_at_def resolve_def absolute_path_def walk.simps(2) lookup_sample node_def)
  moreover have "\<forall>n \<in> tree_nodes listing. file_ok (elem n)"
    using listing_facts(3) by (simp add: tree_nodes_def listing_def indexed_tree_def)
  ultimately have "metadata_file sampleWorld ''/m'' (tree_entries listing)"
    unfolding metadata_file_def using listing_facts(1)
    by (intro exI [of _ listing] exI [of _ "[''m'']"] exI [of _ "node (Regular (writeTree listing))"]) (simp add: node_def)
  then show ?thesis using hashed_listing by (auto simp: hashed_file_def hashed_def)
qed

lemma sample_view_dom: "fs_view sha opt sampleWorld [''s''] x \<noteq> None \<Longrightarrow> x \<in> {''z'', ''l''}"
proof -
  assume "fs_view sha opt sampleWorld [''s''] x \<noteq> None"
  then obtain ks i where "names_ok ks" "ks \<noteq> []" "x = rel_path ks" "lookup sampleWorld ([''s''] @ ks) = Some i"
    using view_Some [OF fs_ok_sample] by blast
  moreover have "rel_path [''z''] = ''z''" "rel_path [''l''] = ''l''" by code_simp+
  ultimately show ?thesis by (auto simp: lookup_sample split: if_splits)
qed

lemma card_bad_sample:
  "card (bad (fs_view sha ComputeHash sampleWorld [''s'']) (map_option stored \<circ> tree_entries listing)) \<le> 2"
proof -
  have "bad (fs_view sha ComputeHash sampleWorld [''s'']) (map_option stored \<circ> tree_entries listing) \<subseteq> {''z'', ''l''}"
    using sample_view_dom [of sha ComputeHash] unfolding bad_def listing_facts(2)
    by (fastforce split: if_splits)
  then have "card (bad (fs_view sha ComputeHash sampleWorld [''s'']) (map_option stored \<circ> tree_entries listing)) \<le>
      card {''z'', ''l''}" by (intro card_mono) simp_all
  then show ?thesis by simp
qed

lemma sample_disagrees:
  "\<not> agree (fs_view sha ComputeHash sampleWorld [''s''] ''l'') ((map_option stored \<circ> tree_entries listing) ''l'')"
proof -
  have "rel_path [''l''] = ''l''" "names_ok [''l'']" by code_simp+
  then have "fs_view sha ComputeHash sampleWorld [''s''] ''l'' \<noteq> None"
    using view_rel [of "[''l'']" sha ComputeHash sampleWorld "[''s'']"] by (simp add: lookup_sample)
  then show ?thesis by (simp add: listing_facts(2))
qed

lemma sample_scrub_missing:
  "fst (scrub sha visit fuel ''/x'' ''/x'' m False sampleWorld) = Inl (Runtime_error (''file not found: '' @ ''/x''))"
proof -
  have "path_elements ''/x'' = [''x'']" "has_root ''/x''" by code_simp+
  then have "file_at sampleWorld True ''/x'' = None"
    by (simp add: file_at_def resolve_def absolute_path_def walk.simps(2) lookup_sample)
  then have "ifstream ''/x'' sampleWorld = (Inr None, sampleWorld)"
    using calm_sample by (intro ifstream_calm(2)) (simp_all add: calm_def)
  then show ?thesis
    by (simp add: scrub_def withTreeManager_def treeManagerWithoutSource_def loadMetadataFiles_def readFrom_def
        bindIO_apply io_simps)
qed

section \<open>Managers with given trees\<close>

definition hashOf :: "char \<Rightarrow> string" where
  "hashOf c = replicate 40 c"

definition forestManager ::
  "DirectoryNode list \<Rightarrow> DirectoryNode list \<Rightarrow> DirectoryNode list \<Rightarrow> DirectoryNode list \<Rightarrow> TreeManager" where
  "forestManager s d m1 m2 = newTreeManager ((indexed_tree s 9)\<lparr>topPath := Some ''/s''\<rparr>)
     ((indexed_tree d 9)\<lparr>topPath := Some ''/b''\<rparr>) (indexed_tree m1 9) (indexed_tree m2 9) ''/m1'' ''/m2'' True"

definition oneFile :: "FilesystemElement \<Rightarrow> DirectoryNode list" where
  "oneFile e = [DirectoryNode 0 e []]"

definition dirWith :: "FilesystemElement \<Rightarrow> FilesystemElement \<Rightarrow> DirectoryNode list" where
  "dirWith d e = [DirectoryNode 0 d [DirectoryNode 1 e []]]"

definition linkWorld :: world where
  "linkWorld = smallWorld\<lparr>stdin := ''y'', files := [([], node Directory), ([''b''], node Directory),
     ([''b'', ''c''], node Directory), ([''b'', ''c'', ''d''], node Directory), ([''b'', ''l''], node (Symlink ''x''))]\<rparr>"

definition sampleOptions :: "string list \<Rightarrow> options" where
  "sampleOptions ps = \<lparr>command_opt = None, help_opt = False, source_opt = None, target_opt = None, ignore_opt = None,
     output_opt = None, nohash = False, fixup_opt = False, singlethread = False, inputs = ps\<rparr>"

lemma sample_listable:
  assumes "fs_view (\<lambda>_. hashOf (CHR ''0'')) (scanOptOf (sampleOptions ps)) sampleWorld [''s''] x = Some e"
  shows "listable e"
proof -
  have V: "fs_view (\<lambda>_. hashOf (CHR ''0'')) ComputeHash sampleWorld [''s''] x = Some e"
    using assms by (simp add: scanOptOf_def sampleOptions_def)
  then obtain ks i where ks: "x = rel_path ks" "ks \<noteq> []" "lookup sampleWorld ([''s''] @ ks) = Some i"
    and e: "e = element_of (\<lambda>_. hashOf (CHR ''0'')) ComputeHash sampleWorld x i"
    by (rule view_Some [OF fs_ok_sample])
  have r: "rel_path [''z''] = ''z''" "rel_path [''l''] = ''l''" by code_simp+
  have w: "passwd sampleWorld = passwd smallWorld" "groups sampleWorld = groups smallWorld"
    by (simp_all add: sampleWorld_def)
  have "e = element_of (\<lambda>_. hashOf (CHR ''0'')) ComputeHash smallWorld ''z'' (node (Regular ''abc'')) \<or>
      e = element_of (\<lambda>_. hashOf (CHR ''0'')) ComputeHash smallWorld ''l'' (node (Symlink ''z''))"
    using ks e r w by (auto simp: lookup_sample element_of_def split: if_splits)
  moreover have "listable (element_of (\<lambda>_. hashOf (CHR ''0'')) ComputeHash smallWorld ''z'' (node (Regular ''abc'')))"
    "listable (element_of (\<lambda>_. hashOf (CHR ''0'')) ComputeHash smallWorld ''l'' (node (Symlink ''z'')))" by code_simp+
  ultimately show ?thesis by metis
qed

lemma sample_file_at:
  "file_at (smallWorld\<lparr>faults := fs\<rparr>) True ''/s/z'' = Some ([''s'', ''z''], node (Regular ''abc''))"
proof -
  have "file_at (smallWorld\<lparr>faults := []\<rparr>) True ''/s/z'' = Some ([''s'', ''z''], node (Regular ''abc''))" by code_simp
  then show ?thesis by simp
qed

end
