(* ===== verification/Ddm_Backup_World.thy ===== *)
theory Ddm_Backup_World
  imports Ddm_Backup_Disk Ddm_Sample_World
begin

text \<open>
  A system on which the properties about the files of a backup are evaluated: a source directory
  with a file and a link, and a backup directory with an old file.
\<close>

definition backupWorld :: world where
  "backupWorld = smallWorld\<lparr>files := [([], node Directory), ([''s''], node Directory), ([''s'', ''z''], node (Regular ''abc'')),
     ([''s'', ''l''], (node (Symlink ''z''))\<lparr>i_perm := 0x1FF\<rparr>), ([''b''], node Directory), ([''b'', ''x''], node (Regular ''old''))]\<rparr>"

definition setuidWorld :: world where
  "setuidWorld = smallWorld\<lparr>files := [([], node Directory), ([''s''], node Directory),
     ([''s'', ''z''], (node (Regular ''abc''))\<lparr>i_perm := 0x9ED\<rparr>), ([''b''], node Directory)]\<rparr>"

text \<open>A function in the place of SHA1: never empty, and different for different texts.\<close>

definition hashOfText :: "string \<Rightarrow> string" where
  "hashOfText t = CHR ''0'' # t"

lemma lookup_backupWorld:
  "lookup backupWorld k =
     (if k = [] \<or> k = [''s''] \<or> k = [''b''] then Some (node Directory)
      else if k = [''s'', ''z''] then Some (node (Regular ''abc''))
      else if k = [''s'', ''l''] then Some ((node (Symlink ''z''))\<lparr>i_perm := 0x1FF\<rparr>)
      else if k = [''b'', ''x''] then Some (node (Regular ''old'')) else None)"
  by (simp add: lookup_def backupWorld_def)

lemma calm_backupWorld: "calm backupWorld"
  by (simp add: calm_def backupWorld_def smallWorld_def caches_agree_empty)

lemma fs_ok_backupWorld: "fs_ok backupWorld"
  by (simp add: fs_ok_def dir_at_key_def lookup_backupWorld is_dir_def node_def)
    (simp add: backupWorld_def proper_name_def valid_name_def)

lemma backupWorld_separate: "separate backupWorld ''/s'' [''s''] ''/b'' [''b'']"
proof -
  have p: "path_elements ''/s'' = [''s'']" "top_path ''/s''" "has_root ''/s''"
    "path_elements ''/b'' = [''b'']" "top_path ''/b''" "has_root ''/b''" by code_simp+
  then show ?thesis
    by (simp add: separate_def anchored_def scan_of_def top_at_def resolve_def absolute_path_def walk.simps(2)
        lookup_backupWorld lookup_prune dir_at_key_def is_dir_def node_def) (simp add: backupWorld_def smallWorld_def)
qed

lemma view_backupWorld:
  "fs_view sha opt backupWorld [''s''] x = Some e \<Longrightarrow>
     x = ''z'' \<and> e = element_of sha opt backupWorld ''z'' (node (Regular ''abc'')) \<or>
     x = ''l'' \<and> e = element_of sha opt backupWorld ''l'' ((node (Symlink ''z''))\<lparr>i_perm := 0x1FF\<rparr>)"
  "fs_view sha opt backupWorld [''b''] x = Some e \<Longrightarrow> x = ''x'' \<and> e = element_of sha opt backupWorld ''x'' (node (Regular ''old''))"
proof -
  have r: "rel_path [''z''] = ''z''" "rel_path [''l''] = ''l''" "rel_path [''x''] = ''x''" by code_simp+
  show "fs_view sha opt backupWorld [''s''] x = Some e \<Longrightarrow>
     x = ''z'' \<and> e = element_of sha opt backupWorld ''z'' (node (Regular ''abc'')) \<or>
     x = ''l'' \<and> e = element_of sha opt backupWorld ''l'' ((node (Symlink ''z''))\<lparr>i_perm := 0x1FF\<rparr>)"
    by (erule view_Some [OF fs_ok_backupWorld]) (auto simp: lookup_backupWorld r split: if_splits)
  show "fs_view sha opt backupWorld [''b''] x = Some e \<Longrightarrow> x = ''x'' \<and> e = element_of sha opt backupWorld ''x'' (node (Regular ''old''))"
    by (erule view_Some [OF fs_ok_backupWorld]) (auto simp: lookup_backupWorld r split: if_splits)
qed

lemma backupWorld_restorable: "restorable backupWorld (fs_view sha opt backupWorld [''s''])"
proof -
  have n: "user_of backupWorld 0 = ''root''" "group_of backupWorld 0 = ''root''"
    "snd ` set (passwd backupWorld) = {''root''}" "snd ` set (groups backupWorld) = {''root''}" by code_simp+
  have b: "no_setid (420 AND 0xFFF)" "(0x1FF AND 0xFFF :: perms) = 0x1FF" by code_simp+
  have "restorable_elem backupWorld (element_of sha opt backupWorld ''z'' (node (Regular ''abc'')))"
    "restorable_elem backupWorld (element_of sha opt backupWorld ''l'' ((node (Symlink ''z''))\<lparr>i_perm := 0x1FF\<rparr>))"
    using b by (simp_all add: restorable_elem_def element_of_def emptyElement_def node_def data_type_def n)
  then show ?thesis unfolding restorable_def using view_backupWorld(1) by blast
qed

lemma backupWorld_links: "links_ok (fs_view sha opt backupWorld [''b''])"
  by (auto simp: links_ok_def node_def data_type_def dest!: view_backupWorld(2))

lemma backupWorld_newer:
  "\<not> newer_at (fs_view sha opt backupWorld [''s'']) (fs_view sha opt backupWorld [''b'']) x"
  "\<not> rotten_at (fs_view sha opt backupWorld [''s'']) (fs_view sha opt backupWorld [''b'']) x"
  using view_backupWorld [of sha opt x] by (auto simp: newer_at_def rotten_at_def split: option.splits)

end
