(* ===== verification/Spec2Isabelle.thy ===== *)
theory Spec2Isabelle
  imports Ddm_Diff3 Ddm_Samples Ddm_Cli Ddm_Backup_Result Ddm_Read_Only Ddm_Scrub Ddm_Exit Ddm_Scan_Exact Ddm_Commands Ddm_Backup_World
begin

text \<open>
  A verification development for ddm, the DirectoryDiffMerge tool (C++, under src/). The tool lists
  a directory tree with permissions, owners, times and SHA1 hashes (\<^verbatim>\<open>ls\<close>), compares two or three
  trees (\<^verbatim>\<open>diff\<close>), checks a backup directory against two copies of its metadata and repairs it
  (\<^verbatim>\<open>scrub\<close>), and brings a backup directory up to date with its source (\<^verbatim>\<open>backup\<close>).

  \<^bold>\<open>Parts and their theories.\<close>

  \<^item> \<^verbatim>\<open>Ddm_Prelude\<close>, \<^verbatim>\<open>Ddm_Path\<close>, \<^verbatim>\<open>Ddm_Stream\<close>, \<^verbatim>\<open>Ddm_IO\<close>: results with exceptions, POSIX paths as
    \<^verbatim>\<open>std::filesystem::path\<close> treats them, input streams, and stateful computations with a logic of
    specifications under a frame condition (locale \<open>frame\<close>). Failed assertions, reads through
    dangling pointers and runs that do not end are values of the type of exceptions that no handler
    catches.
  \<^item> \<^verbatim>\<open>Ddm_Element\<close> (CompareOpt and FilesystemElement of core.h and core.cpp), \<^verbatim>\<open>Ddm_Clock\<close> (calendar),
    \<^verbatim>\<open>Ddm_Metadata_Line\<close> (one line of a metadata file, read and written).
  \<^item> \<^verbatim>\<open>Ddm_Node\<close>, \<^verbatim>\<open>Ddm_Tree\<close>: DirectoryNode and DirectoryTree. A node has the address of its list cell,
    and the index of a tree maps paths to addresses, as the program keeps pointers into lists.
    \<^verbatim>\<open>Ddm_Tree_Ops\<close> and \<^verbatim>\<open>Ddm_Tree_Copy\<close> prove that the operations refine updates of a map from paths
    to elements (\<open>tree_entries\<close>) and keep the invariant \<open>wf_tree\<close>: sorted contents, parents that are
    directories, distinct addresses, and an index that points to every node and nothing else.
  \<^item> \<^verbatim>\<open>Ddm_Diff\<close>, \<^verbatim>\<open>Ddm_Diff3\<close>: diff2 and diff3. The order of an unordered set of names is a parameter
    with the contract of locale \<open>path_iteration\<close>.
  \<^item> \<^verbatim>\<open>Ddm_Metadata_File\<close>: readFrom and writeTo of a tree on text.
  \<^item> \<^verbatim>\<open>Ddm_World\<close>: the operating system: files by the list of names from the root, path resolution with
    symbolic links, modification times, and a list that says of each call to come whether it fails.
    \<^verbatim>\<open>Ddm_Extfs\<close> (extfs.h, extfs.cpp) and \<^verbatim>\<open>Ddm_Filesystem\<close> (the parts of core.cpp that touch files) are
    written over it, then \<^verbatim>\<open>Ddm_Backup\<close> (backup.cpp) and \<^verbatim>\<open>Ddm_Cli\<close> (main.cpp).
  \<^item> \<^verbatim>\<open>Ddm_Names\<close>, \<^verbatim>\<open>Ddm_Resolve\<close>, \<^verbatim>\<open>Ddm_Scan\<close>, \<^verbatim>\<open>Ddm_Scan_Exact\<close>: translation of user and group names
    (locale \<open>name_service\<close>, two instances), where the path of an entry leads, and the scan of a
    directory, which yields exactly the view of the files (\<open>fs_view\<close>).
  \<^item> \<^verbatim>\<open>Ddm_Backup_Tree\<close>, \<^verbatim>\<open>Ddm_Backup_Exact\<close>, \<^verbatim>\<open>Ddm_Backup_Result\<close>: the effect of a backup on the trees.
  \<^item> \<^verbatim>\<open>Ddm_Disk\<close>, \<^verbatim>\<open>Ddm_Disk_View\<close>, \<^verbatim>\<open>Ddm_Mirror\<close>, \<^verbatim>\<open>Ddm_Backup_Disk\<close>: the effect of a backup on the files. What
    each call does to the files below a directory, with a predicate for runs that return (\<open>does\<close>);
    that the operations on a tree and its directory keep the two equal (\<open>mirrored\<close>); and that a backup
    of scanned directories returns and what the backup directory then holds (\<open>backed_up\<close>).
  \<^item> \<^verbatim>\<open>Ddm_Scrub\<close>: the scrub without repair of the backup directory: it ends, what it repairs, and that it
    changes no file. \<^verbatim>\<open>Ddm_Read_Only\<close> and \<^verbatim>\<open>Ddm_Exit\<close>: commands that change nothing, and exit codes.
  \<^item> \<^verbatim>\<open>Ddm_Commands\<close>: the commands in terms of the files. \<^verbatim>\<open>Ddm_Samples\<close>, \<^verbatim>\<open>Ddm_Sample_World\<close> and
    \<^verbatim>\<open>Ddm_Backup_World\<close> hold the trees and systems on which properties are evaluated.

  \<^bold>\<open>What is shown.\<close> Comparisons report exactly the visible differences, each once. Tree operations
  refine their map updates and keep the invariant. Metadata lines and files are read back as they
  were written, up to the bits the format does not store. A scan returns exactly the files. A
  backup that ends makes the trees agree except where bit rot or a newer file stops it, and reports
  bit rot exactly. In a system without failures, with nothing newer in the backup directory and a
  source of regular files without set-id bits, directories and links whose owners have names, the
  backup does end, and what holds of the trees holds of the files on the disk. A scrub without repair ends, returns 0 exactly when all agree, and never loses
  an agreement. Listing and comparing change no file whatever fails. Exit codes are bounded.
  The last section states weaknesses of the program as theorems on concrete runs.

  \<^bold>\<open>Bounds and fuel.\<close> The comparison of trees recurs over directories with a fuel computed from the
  sizes of the trees, the scan with one computed from the number of files; the theorems show both
  to be enough. The loop of a scrub has a fuel that is a parameter: a scrub without repair needs
  one more than the number of disagreeing entries. Sizes are integers of 64 bits in the metadata
  reader, permissions are 32 bit words, link counts are natural numbers.

  \<^bold>\<open>Parameters.\<close> SHA1 is computed by a third-party library and is a function argument; the properties
  that rely on it assume only that it gives a non-empty text. The parser of the command line is a
  library too: what it made of the arguments is an argument.

  \<^bold>\<open>Not modelled.\<close> Messages and colours on the terminal and the help texts have no effect on the
  results. The two threads that scan source and target share only the caches of names behind a
  mutex; they run one after the other here. Hard links are two files here. The buffer handling of
  the calls into the C library for names is not modelled, their failure is.
\<close>

section \<open>Comparing trees\<close>

text \<open>
  C6: the comparison of two well-formed trees returns, and reports exactly the
  visible differences, each once: a path is reported if its parent is a directory of both trees
  and the two entries differ, or one is missing. Whatever the order in which the unordered set of
  names is visited.
\<close>

theorem diff2_exact:
  assumes "path_iteration visit" and "wf_tree a" and "wf_tree b"
  shows "\<exists>xs. diff2 visit a b opt = Inr (map (\<lambda>x. (tree_entries a x, tree_entries b x)) xs) \<and>
    distinct xs \<and> set xs = {x. reported2 opt (tree_entries a) (tree_entries b) x}"
  by (rule path_iteration.diff2_reports [OF assms])

theorem diff2_exact_witness:
  "\<exists>xs. diff2 insertion_order sampleTree otherTree compareAll =
      Inr (map (\<lambda>x. (tree_entries sampleTree x, tree_entries otherTree x)) xs) \<and>
    distinct xs \<and> set xs = {x. reported2 compareAll (tree_entries sampleTree) (tree_entries otherTree) x}"
  by (rule diff2_exact [OF insertion_paths.path_iteration_axioms wf_sampleTree wf_otherTree])

text \<open>
  C19: an empty result means that the trees have the same paths with elements that
  compare equal, also below directories that the comparison never visits because it prunes.
\<close>

theorem diff2_empty_iff:
  assumes "path_iteration visit" and "wf_tree a" and "wf_tree b"
  shows "diff2 visit a b opt = Inr [] \<longleftrightarrow>
    (\<forall>x. \<not> differs opt (tree_entries a x) (tree_entries b x))"
  by (rule path_iteration.diff2_Nil_iff [OF assms])

theorem diff2_empty_iff_witness:
  "diff2 insertion_order sampleTree sampleTree compareAll = Inr []"
  using diff2_empty_iff [OF insertion_paths.path_iteration_axioms wf_sampleTree wf_sampleTree, of compareAll]
  by (simp add: differs_def split: option.splits)



section \<open>Trees in memory\<close>

text \<open>
  C7: copying a path from another tree into the directory that the path is in
  makes the tree agree with the source at and below the path, changes nothing else, and keeps the
  invariant of the tree, its index included.
\<close>

theorem copyFromTree_refines:
  assumes "wf_tree t" and "wf_tree s" and "tree_entries s p = Some e" and "tree_entries t p = None"
    and "parent_path p = [] \<or> (\<exists>d. tree_entries t (parent_path p) = Some d \<and> isDirectory d)"
  shows "\<exists>t'. copyFromTree t s p (parent_path p) = Inr t' \<and> wf_tree t' \<and> topPath t' = topPath t \<and>
    tree_entries t' = (\<lambda>x. if at_or_below p x then tree_entries s x else tree_entries t x)"
  by (rule copyFromTree_entries [OF assms])

theorem copyFromTree_refines_witness:
  "\<exists>t'. copyFromTree otherTree sampleTree ''d/f'' (parent_path ''d/f'') = Inr t' \<and> wf_tree t' \<and>
    topPath t' = topPath otherTree \<and>
    tree_entries t' = (\<lambda>x. if at_or_below ''d/f'' x then tree_entries sampleTree x else tree_entries otherTree x)"
proof (rule copyFromTree_refines [OF wf_otherTree wf_sampleTree])
  show "tree_entries sampleTree ''d/f'' = Some (fileElem ''d/f'' [])" by code_simp
  show "tree_entries otherTree ''d/f'' = None" by code_simp
  have "tree_entries otherTree (parent_path ''d/f'') = Some (dirElem ''d'') \<and> isDirectory (dirElem ''d'')"
    by code_simp
  then show "parent_path ''d/f'' = [] \<or>
      (\<exists>d. tree_entries otherTree (parent_path ''d/f'') = Some d \<and> isDirectory d)" by blast
qed

text \<open>
  C13: removing a path that a tree has deletes everything at and below the
  path, in the tree and in the index, and nothing else.
\<close>

theorem removeFromTree_refines:
  assumes "wf_tree t" and "tree_entries t p = Some e"
  shows "\<exists>t'. removeFromTree t p = Inr t' \<and> wf_tree t' \<and>
    tree_entries t' = (\<lambda>x. if at_or_below p x then None else tree_entries t x) \<and>
    topPath t' = topPath t"
  by (rule removeFromTree_entries [OF assms])

theorem removeFromTree_refines_witness:
  "\<exists>t'. removeFromTree sampleTree ''d'' = Inr t' \<and> wf_tree t' \<and>
    tree_entries t' = (\<lambda>x. if at_or_below ''d'' x then None else tree_entries sampleTree x) \<and>
    topPath t' = topPath sampleTree"
proof (rule removeFromTree_refines [OF wf_sampleTree])
  show "tree_entries sampleTree ''d'' = Some (dirElem ''d'')" by code_simp
qed

section \<open>Metadata lines\<close>

text \<open>
  C12: a line that \<^verbatim>\<open>FilesystemElement::writeTo\<close> prints is read back by
  \<^verbatim>\<open>FilesystemElement::readFrom\<close> as the same element, up to the permission bits above the
  nine that the format prints and the hard link count, which is not stored.
\<close>

theorem metadata_line_roundtrip:
  assumes "line_ok e"
  shows "readElement (writeElement e) f n = Inr (e\<lparr>per := take_bit 9 (per e), hardLinkCnt := 1\<rparr>)"
  by (rule readElement_writeElement [OF assms])

theorem metadata_line_roundtrip_witness:
  "readElement (writeElement (linkElem ''a b'' ''c'')) [] 0 =
     Inr ((linkElem ''a b'' ''c'')\<lparr>per := take_bit 9 (per (linkElem ''a b'' ''c'')), hardLinkCnt := 1\<rparr>)"
proof (rule metadata_line_roundtrip)
  show "line_ok (linkElem ''a b'' ''c'')" by code_simp
qed

section \<open>Metadata files\<close>

text \<open>
  C8: a metadata file that \<^verbatim>\<open>DirectoryTree::writeTo\<close> writes for a
  well-formed tree is read back by \<^verbatim>\<open>DirectoryTree::readFrom\<close> as a well-formed tree with the
  same entries, up to the permission bits and the link count that a line does not store.
\<close>

theorem metadata_file_roundtrip:
  assumes "wf_tree t" and "\<And>n. n \<in> tree_nodes t \<Longrightarrow> file_ok (elem n)"
  shows "\<exists>t'. readTree t0 (writeTree t) f = Inr t' \<and> wf_tree t' \<and>
    tree_entries t' = map_option stored \<circ> tree_entries t"
  by (rule readTree_writeTree [OF assms])

theorem metadata_file_roundtrip_witness:
  "\<exists>t'. readTree otherTree (writeTree sampleTree) ''m1'' = Inr t' \<and> wf_tree t' \<and>
    tree_entries t' = map_option stored \<circ> tree_entries sampleTree"
proof (rule metadata_file_roundtrip [OF wf_sampleTree])
  fix n assume "n \<in> tree_nodes sampleTree"
  moreover have "\<forall>n \<in> set (nodes_in sampleForest). file_ok (elem n)" by code_simp
  ultimately show "file_ok (elem n)" 
    by (auto simp: tree_nodes_def sampleTree_def indexed_tree_def)
qed


section \<open>Scanning\<close>

text \<open>
  C4: in a system without failures, the scan of a directory returns, and its
  tree has exactly the entries that the files below the directory give: one for every file at any
  depth, with its type, permissions, owner, times, size, link target and, when asked for, hash.
  The path of the directory may go through symbolic links; links below it are not followed.
\<close>

theorem scanDirectory_exact:
  assumes "calm w" and "fs_ok w" and "scan_of w p K"
  shows "\<exists>t' w'. scanDirectory sha t p opt w = (Inr t', w') \<and> same_system w w' \<and> wf_tree t' \<and>
    topPath t' = Some (absolute_path w p) \<and> tree_entries t' = fs_view sha opt w K"
  using scanDirectory_scanned [OF assms] by blast

theorem scanDirectory_exact_witness:
  "\<exists>t' w'. scanDirectory (\<lambda>s. s) emptyTree ''/s'' ComputeHash sampleWorld = (Inr t', w') \<and>
    same_system sampleWorld w' \<and> wf_tree t' \<and> topPath t' = Some (absolute_path sampleWorld ''/s'') \<and>
    tree_entries t' = fs_view (\<lambda>s. s) ComputeHash sampleWorld [''s'']"
  by (rule scanDirectory_exact [OF calm_sample fs_ok_sample scan_of_sample(1)])



text \<open>
  C23: the index into the table of file types is within the table for every file,
  the decoded type is the type of the file, and the decoded permissions are its twelve mode bits.
\<close>

theorem status_decoded:
  "unat (drop_bit 12 (st_mode (stat_of i)) AND 0xF) < length typeLut \<and>
   status_permissions (stat_of i) = i_perm i AND 0xFFF \<and>
   (case i_data i of Special t \<Rightarrow> status_type (stat_of i) \<notin> {FT_regular, FT_directory, FT_symlink}
    | d \<Rightarrow> status_type (stat_of i) = data_type d)"
  using status_of_inode [of i] special_type by (simp split: file_data.splits)

text \<open>
  C22: the name that the program finds for a user number, from the system or
  from its cache, can be translated back in the same run without asking the system again, and the
  number found has that name.
\<close>

theorem owner_names_roundtrip:
  assumes "calm w"
  shows "\<exists>user w' uid'. ext_lookup_user uid w = (Inr user, w') \<and> ext_lookup_user_id user w' = (Inr uid', w') \<and>
    user_of w uid = user \<and> user_of w uid' = user"
  using users.name_id_roundtrip [of w uid] assms by (simp add: calm_def)

theorem owner_names_roundtrip_witness:
  "\<exists>user w' uid'. ext_lookup_user 1000 sampleWorld = (Inr user, w') \<and> ext_lookup_user_id user w' = (Inr uid', w') \<and>
    user_of sampleWorld 1000 = user \<and> user_of sampleWorld uid' = user"
  by (rule owner_names_roundtrip [OF calm_sample])

section \<open>Backup\<close>

text \<open>
  C1: when a backup ends normally, the tree of the backup directory compares equal to
  the source at every path that is not at or below a file with bit rot or a file that is newer in
  the backup (where the user decides); what still differs is what was there before; nothing at or
  below a file with bit rot changes, and the result is 2 exactly when there is one. The metadata
  tree follows the backup directory.
\<close>

theorem backup_exact:
  assumes "path_iteration visit" and "wf_tree src" and "wf_tree dst"
    and "entries_ok (tree_entries src)" and "entries_ok (tree_entries dst)" and "backup_inv dst meta"
    and "backupImpl visit src (dst, meta, w) = (Inr r, (dst', meta', w'))"
  shows "backup_inv dst' meta' \<and> topPath dst' = topPath dst \<and> (meta' = None \<longleftrightarrow> meta = None) \<and>
    backup_result (tree_entries src) (tree_entries dst) r (tree_entries dst')"
  by (rule backupImpl_result [OF assms])

theorem backup_exact_witness:
  "\<exists>r dst' meta' w'. backupImpl insertion_order sampleSrc (sampleDst, Some sampleDst, smallWorld) =
      (Inr r, (dst', meta', w')) \<and> lookup w' [''b'', ''z''] \<noteq> None \<and> backup_inv dst' meta' \<and>
    backup_result (tree_entries sampleSrc) (tree_entries sampleDst) r (tree_entries dst')"
proof -
  obtain r dst' meta' w' where run: "backupImpl insertion_order sampleSrc (sampleDst, Some sampleDst, smallWorld) =
      (Inr r, (dst', meta', w'))" "lookup w' [''b'', ''z''] \<noteq> None"
    using sample_backup_run by (auto split: prod.splits sum.splits)
  from backup_exact [OF insertion_paths.path_iteration_axioms wf_sampleSrc wf_sampleDst
      sample_entries_ok sample_backup_inv run(1)] run show ?thesis by blast
qed

text \<open>
  C2: a backup without metadata in a system without failures returns, when neither
  directory lies in the other and neither path leads through the backup, no two users or groups
  share a number, no entry of the backup is newer than the source, links have the mode that Linux
  gives them, and every file of the source can be restored: a regular file without set-id bits, a
  directory or a link, with an owner that has a name. Afterwards the files
  of the backup directory compare equal to those of the source with type, permissions, owner, time,
  size and link target, except at and below bit rot, where they are as before; the result is 2
  exactly when there is bit rot; and no file outside the backup directory has changed.
\<close>

theorem backup_on_disk:
  assumes "path_iteration visit" and "calm w" and "fs_ok w" and "separate w src Ks dst Kd"
    and "restorable w (fs_view sha OmitHash w Ks)" and "links_ok (fs_view sha OmitHash w Kd)"
    and "\<And>x. \<not> newer_at (fs_view sha OmitHash w Ks) (fs_view sha OmitHash w Kd) x"
  shows "\<exists>r w'. backupWithoutMetadata sha visit src dst threads w = (Inr r, w') \<and>
    backed_up (fs_view sha OmitHash w Ks) (fs_view sha OmitHash w Kd) r (fs_view sha OmitHash w' Kd) \<and>
    (\<forall>k. \<not> prefix Kd k \<longrightarrow> lookup w' k = lookup w k)"
proof -
  have "backup_inv d None" if "wf_tree d" "tree_entries d = fs_view sha OmitHash w Kd" for d
    using that by (simp add: backup_inv_def)
  from backup_files [where m = "\<lambda>_. None", OF assms this, of threads]
  obtain s d w1 r d' m' w' where b: "scanSourceTargetDir sha src dst threads OmitHash w = (Inr (s, d), w1)"
    "backupImpl visit s (d, None, w1) = (Inr r, (d', m', w'))"
    "backed_up (fs_view sha OmitHash w Ks) (fs_view sha OmitHash w Kd) r (fs_view sha OmitHash w' Kd)"
    "\<forall>k. \<not> prefix Kd k \<longrightarrow> lookup w' k = lookup w k" by blast
  then have "backupWithoutMetadata sha visit src dst threads w = (Inr r, w')"
    by (simp add: backupWithoutMetadata_def bindIO_apply)
  with b(3,4) show ?thesis by blast
qed

theorem backup_on_disk_witness:
  "\<exists>r w'. backupWithoutMetadata hashOfText insertion_order ''/s'' ''/b'' True backupWorld = (Inr r, w') \<and> r = 0 \<and>
    fs_view hashOfText OmitHash w' [''b''] ''x'' = None"
proof -
  let ?A = "fs_view hashOfText OmitHash backupWorld [''s'']" and ?B = "fs_view hashOfText OmitHash backupWorld [''b'']"
  obtain r w' where r: "backupWithoutMetadata hashOfText insertion_order ''/s'' ''/b'' True backupWorld = (Inr r, w')"
      "backed_up ?A ?B r (fs_view hashOfText OmitHash w' [''b''])"
    using backup_on_disk [OF insertion_paths.path_iteration_axioms calm_backupWorld fs_ok_backupWorld backupWorld_separate
        backupWorld_restorable backupWorld_links backupWorld_newer(1)] by blast
  moreover have "?A ''x'' = None"
    using view_backupWorld(1) [of hashOfText OmitHash "''x''"] by (cases "?A ''x''") simp_all
  ultimately show ?thesis using backupWorld_newer(2) by (auto simp: backed_up_def differs_def split: option.splits)
qed

text \<open>
  C3: when source and backup directory are scanned with hashes, as a backup that
  hashes all files does, the backup of the scanned trees returns under the same conditions, and then
  every regular file of the source that is not at or below bit rot has a regular file in its
  place in the backup directory whose content has the same hash.
\<close>

theorem backup_contents:
  assumes "path_iteration visit" and "calm w" and "fs_ok w" and "separate w src Ks dst Kd"
    and "restorable w (fs_view sha ComputeHash w Ks)" and "links_ok (fs_view sha ComputeHash w Kd)"
    and "\<And>x. \<not> newer_at (fs_view sha ComputeHash w Ks) (fs_view sha ComputeHash w Kd) x" and sha: "\<And>t. sha t \<noteq> []"
  shows "\<exists>s d w1 r d' m' w'. scanSourceTargetDir sha src dst threads ComputeHash w = (Inr (s, d), w1) \<and>
    backupImpl visit s (d, Some d, w1) = (Inr r, (d', m', w')) \<and>
    (\<forall>ks i t. names_ok ks \<and> ks \<noteq> [] \<and> lookup w (Ks @ ks) = Some i \<and> i_data i = Regular t \<and>
       (\<forall>x. at_or_below x (rel_path ks) \<longrightarrow>
          \<not> rotten_at (fs_view sha ComputeHash w Ks) (fs_view sha ComputeHash w Kd) x) \<longrightarrow>
       (\<exists>j t'. lookup w' (Kd @ ks) = Some j \<and> i_data j = Regular t' \<and> sha t' = sha t))"
proof -
  have "backup_inv d (Some d)" if "wf_tree d" "tree_entries d = fs_view sha ComputeHash w Kd" for d
    using that by (simp add: backup_inv_def)
  from backup_files [where m = Some, OF assms(1-7) this, of threads]
  obtain s d w1 r d' m' w' where run: "scanSourceTargetDir sha src dst threads ComputeHash w = (Inr (s, d), w1)"
    "backupImpl visit s (d, Some d, w1) = (Inr r, (d', m', w'))"
    and b: "backed_up (fs_view sha ComputeHash w Ks) (fs_view sha ComputeHash w Kd) r (fs_view sha ComputeHash w' Kd)" by blast
  have "\<exists>j t'. lookup w' (Kd @ ks) = Some j \<and> i_data j = Regular t' \<and> sha t' = sha t"
    if "names_ok ks" "ks \<noteq> []" "lookup w (Ks @ ks) = Some i" "i_data i = Regular t"
      "\<forall>x. at_or_below x (rel_path ks) \<longrightarrow> \<not> rotten_at (fs_view sha ComputeHash w Ks) (fs_view sha ComputeHash w Kd) x"
    for ks i t
    by (rule backed_up_content [OF _ sha that(1-4)]) (use b that(5) in \<open>simp add: backed_up_def\<close>)
  with run show ?thesis by blast
qed

theorem backup_contents_witness:
  "\<exists>s d w1 r d' m' w' j t'. scanSourceTargetDir hashOfText ''/s'' ''/b'' True ComputeHash backupWorld = (Inr (s, d), w1) \<and>
    backupImpl insertion_order s (d, Some d, w1) = (Inr r, (d', m', w')) \<and>
    lookup w' [''b'', ''z''] = Some j \<and> i_data j = Regular t' \<and> hashOfText t' = hashOfText ''abc''"
proof -
  have "hashOfText t \<noteq> []" for t by (simp add: hashOfText_def)
  from backup_contents [where sha = hashOfText and threads = True, OF insertion_paths.path_iteration_axioms calm_backupWorld fs_ok_backupWorld backupWorld_separate
      backupWorld_restorable backupWorld_links backupWorld_newer(1) this]
  obtain s d w1 r d' m' w' where run: "scanSourceTargetDir hashOfText ''/s'' ''/b'' True ComputeHash backupWorld = (Inr (s, d), w1)"
    "backupImpl insertion_order s (d, Some d, w1) = (Inr r, (d', m', w'))"
    and c: "\<forall>ks i t. names_ok ks \<and> ks \<noteq> [] \<and> lookup backupWorld ([''s''] @ ks) = Some i \<and> i_data i = Regular t \<and>
       (\<forall>x. at_or_below x (rel_path ks) \<longrightarrow> \<not> rotten_at (fs_view hashOfText ComputeHash backupWorld [''s''])
          (fs_view hashOfText ComputeHash backupWorld [''b'']) x) \<longrightarrow>
       (\<exists>j t'. lookup w' ([''b''] @ ks) = Some j \<and> i_data j = Regular t' \<and> hashOfText t' = hashOfText t)"
    by (elim exE conjE) (rule that)
  have "names_ok [''z'']" by code_simp
  then have "\<exists>j t'. lookup w' [''b'', ''z''] = Some j \<and> i_data j = Regular t' \<and> hashOfText t' = hashOfText ''abc''"
    using c [rule_format, of "[''z'']" "node (Regular ''abc'')" "''abc''"] backupWorld_newer(2)
    by (simp add: lookup_backupWorld node_def)
  with run show ?thesis by blast
qed

section \<open>Scrub\<close>

text \<open>
  C5: a scrub without repair of the backup ends: with more passes than there are
  disagreeing entries it returns 0, 1 or 2. It changes no file and keeps the tree of the backup
  directory. The result is 0 exactly when the directory agrees with both metadata trees. With 0 or 1
  the metadata trees agree with the directory afterwards. If at every path one of the metadata trees
  agrees with the directory, the result is not 2; no agreement is ever lost.
\<close>

theorem scrub_check_returns:
  assumes "path_iteration visit" and "scrub_state tm" and "scrub_measure tm < fuel"
  shows "\<exists>r tm'. scrubImpl visit fuel False (tm, w) = (Inr r, (tm', w)) \<and> r \<in> {0, 1, 2} \<and>
    scrub_state tm' \<and> dstTree tm' = dstTree tm \<and> bad1 tm' \<subseteq> bad1 tm \<and> bad2 tm' \<subseteq> bad2 tm \<and>
    (r = 0 \<longleftrightarrow> bad1 tm = {} \<and> bad2 tm = {}) \<and> (r \<le> 1 \<longrightarrow> bad1 tm' = {} \<and> bad2 tm' = {}) \<and>
    (bad1 tm \<inter> bad2 tm = {} \<longrightarrow> r \<le> 1)"
  by (rule path_iteration.scrubImpl_check [OF assms])

theorem scrub_check_returns_witness:
  "\<exists>r tm'. scrubImpl insertion_order (Suc (scrub_measure hashedManager)) False (hashedManager, sampleWorld) =
      (Inr r, (tm', sampleWorld)) \<and> r \<le> 1 \<and> bad1 tm' = {} \<and> bad2 tm' = {}"
proof -
  have "bad1 hashedManager \<inter> bad2 hashedManager = {}" by (simp add: bad_hashedManager)
  with scrub_check_returns [OF insertion_paths.path_iteration_axioms scrub_state_hashedManager lessI, of sampleWorld]
  show ?thesis by blast
qed

text \<open>
  C10: on a directory and two metadata files that the program wrote, with a hash
  for every file, the command exits with 0 exactly when the files of the directory, read and hashed
  anew, agree with both metadata files at every path.
\<close>

theorem scrub_exit_zero_iff:
  assumes "path_iteration visit" and "calm w" and "fs_ok w" and "scan_of w dst K"
    and "hashed_file w m1 E1" and "hashed_file w m2 E2" and "\<And>s. sha s \<noteq> []"
    and "card (bad (fs_view sha ComputeHash w K) (map_option stored \<circ> E1)) +
      card (bad (fs_view sha ComputeHash w K) (map_option stored \<circ> E2)) < fuel"
  shows "(\<exists>w'. scrub sha visit fuel dst m1 m2 False w = (Inr 0, w')) \<longleftrightarrow>
    (\<forall>x. agree (fs_view sha ComputeHash w K x) (map_option stored (E1 x)) \<and>
      agree (fs_view sha ComputeHash w K x) (map_option stored (E2 x)))"
  using scrub_zero_iff [OF assms(1-6), of sha fuel] assms(7,8) by simp

theorem scrub_exit_zero_iff_witness:
  "\<nexists>w'. scrub (\<lambda>_. ''h'') insertion_order 9 ''/s'' ''/m'' ''/m'' False sampleWorld = (Inr 0, w')"
proof -
  let ?D = "fs_view (\<lambda>_. ''h'') ComputeHash sampleWorld [''s'']" and ?M = "map_option stored \<circ> tree_entries listing"
  have "card (bad ?D ?M) + card (bad ?D ?M) < 9" using card_bad_sample [of "\<lambda>_. ''h''"] by simp
  from scrub_exit_zero_iff [OF insertion_paths.path_iteration_axioms calm_sample fs_ok_sample scan_of_sample(1)
      hashed_file_sample hashed_file_sample _ this]
  have "(\<exists>w'. scrub (\<lambda>_. ''h'') insertion_order 9 ''/s'' ''/m'' ''/m'' False sampleWorld = (Inr 0, w')) \<longleftrightarrow>
      (\<forall>x. agree (?D x) (?M x) \<and> agree (?D x) (?M x))" by simp
  moreover have "\<not> agree (?D ''l'') (?M ''l'')" by (rule sample_disagrees)
  ultimately show ?thesis by blast
qed

text \<open>
  C16: a scrub without repair of the backup that ends normally with another
  result than 1, or with an exception, has changed no file at all: neither below the backup
  directory nor the metadata files. This holds whatever calls fail on the way.
\<close>

theorem scrub_check_saves_nothing:
  assumes "scrub sha visit fuel dst m1 m2 False w = (r, w')" and "r \<noteq> Inr 1" and "\<forall>e. r = Inl e \<longrightarrow> is_exception e"
  shows "same_system w w'"
  by (rule scrub_unsaved [OF assms])

theorem scrub_check_saves_nothing_witness:
  "same_system sampleWorld (snd (scrub (\<lambda>s. s) insertion_order 9 ''/x'' ''/x'' ''/m'' False sampleWorld))"
proof (rule scrub_check_saves_nothing)
  have r: "fst (scrub (\<lambda>s. s) insertion_order 9 ''/x'' ''/x'' ''/m'' False sampleWorld) =
      Inl (Runtime_error (''file not found: '' @ ''/x''))"
    by (rule sample_scrub_missing)
  show "scrub (\<lambda>s. s) insertion_order 9 ''/x'' ''/x'' ''/m'' False sampleWorld =
      (Inl (Runtime_error (''file not found: '' @ ''/x'')),
       snd (scrub (\<lambda>s. s) insertion_order 9 ''/x'' ''/x'' ''/m'' False sampleWorld))"
    using r by (metis prod.collapse)
qed (simp_all add: is_exception_def)

section \<open>Commands\<close>

text \<open>
  C14: the command that compares two directories returns, leaves the files as
  they are, and exits with 0 exactly when the files below the two directories compare equal at
  every relative path.
\<close>

theorem diff_directories:
  assumes "path_iteration visit" and "calm w" and "fs_ok w" and "scan_of w a A" and "scan_of w b B"
    and "two_inputs vm a b"
  shows "\<exists>code text w'. diffCmd sha visit vm w = (Inr (code, text), w') \<and> same_system w w' \<and>
    (code = 0 \<longleftrightarrow> (\<forall>x. \<not> differs compareAll (fs_view sha (scanOptOf vm) w A x) (fs_view sha (scanOptOf vm) w B x)))"
  by (rule diffCmd_directories [OF assms])

theorem diff_directories_witness:
  "\<exists>text w'. diffCmd (\<lambda>s. s) insertion_order (sampleOptions [''/s'', ''/s'']) sampleWorld = (Inr (0, text), w')"
proof -
  have "two_inputs (sampleOptions [''/s'', ''/s'']) ''/s'' ''/s''" by (simp add: two_inputs_def sampleOptions_def)
  from diff_directories [OF insertion_paths.path_iteration_axioms calm_sample fs_ok_sample
      scan_of_sample(1) scan_of_sample(1) this, of "\<lambda>s. s"]
  show ?thesis by auto
qed

text \<open>
  C15: the text that the command for listings prints for a directory is a
  metadata file: it is read back as a well-formed tree that agrees with the files at every path,
  if all of them have names, owners and times that the format can express and no set-id bits.
\<close>

theorem listing_roundtrip:
  assumes "calm w" and "fs_ok w" and "scan_of w p K" and "one_input vm p"
    and "\<And>x e. fs_view sha (scanOptOf vm) w K x = Some e \<Longrightarrow> listable e"
  shows "\<exists>text w' t'. lsCmd sha vm w = (Inr (0, text), w') \<and> same_system w w' \<and>
    readTree t0 text f = Inr t' \<and> wf_tree t' \<and>
    (\<forall>x. agree (fs_view sha (scanOptOf vm) w K x) (tree_entries t' x))"
  by (rule lsCmd_listing [OF assms])

theorem listing_roundtrip_witness:
  "\<exists>text w' t'. lsCmd (\<lambda>_. hashOf (CHR ''0'')) (sampleOptions [''/s'']) sampleWorld = (Inr (0, text), w') \<and>
    readTree emptyTree text ''m'' = Inr t' \<and> wf_tree t'"
proof -
  have "one_input (sampleOptions [''/s'']) ''/s''" by (simp add: one_input_def sampleOptions_def)
  from listing_roundtrip [where ?t0.0 = emptyTree and f = "''m''", OF calm_sample fs_ok_sample scan_of_sample(1) this]
    sample_listable
  show ?thesis by blast
qed


text \<open>
  C18: the program exits with 0, 1, 2, 10 or 100, and no exception leaves \<^verbatim>\<open>main\<close>: a run
  that does not exit normally was aborted by an assertion or does not end.
\<close>

theorem exit_codes:
  "case ddm_main sha visit fuel parsed w of
     (Inr r, _) \<Rightarrow> fst r \<in> {0, 1, 2, 10, 100}
   | (Inl e, _) \<Rightarrow> \<not> is_exception e"
  using ddm_main_code [of sha visit fuel parsed w] ddm_main_no_exception [of sha visit fuel parsed w]
  by (auto simp: exit_code_def split: prod.split sum.split)

text \<open>
  C26: the list of properties to ignore switches off exactly the named
  comparisons, and the first word that is no property is reported.
\<close>

theorem parseCompareOpt_spec:
  "parseCompareOpt s =
     (let ws = stream_words (map (\<lambda>c. if c = CHR '','' then CHR '' '' else c) s) in
      case find (\<lambda>w. w \<notin> set ignore_words) ws of
        None \<Rightarrow> Inr (ignoring ws compareAll)
      | Some w \<Rightarrow> Inl (Runtime_error (''Ignore option '' @ w @ '' not valid'')))"
  by (simp add: parseCompareOpt_def foldE_ignoreToken Let_def)

section \<open>Single operations\<close>


text \<open>
  C24: whatever the text of a metadata line is, an element that the reader accepts
  has a known type and only the fields of this type, nine permission bits and a time that is not
  the error value.
\<close>

theorem read_line_type:
  "case readElement line f n of Inl _ \<Rightarrow> True | Inr e \<Rightarrow> read_ok e"
  using readElement_ok [of line f n] by (simp split: sum.split)



text \<open>
  C20: changing the permissions, the owner or the time of a path of a
  well-formed tree keeps the tree well-formed and changes this property of this entry only.
\<close>

theorem properties_change_one_entry:
  assumes "wf_tree t" and "tree_entries t p = Some e"
  shows "\<exists>t1 t2 t3. modifyPermissionsInTree t p x = Inr t1 \<and> wf_tree t1 \<and>
      tree_entries t1 = (tree_entries t)(p \<mapsto> e\<lparr>per := x\<rparr>) \<and>
    modifyOwnerInTree t p u g = Inr t2 \<and> wf_tree t2 \<and>
      tree_entries t2 = (tree_entries t)(p \<mapsto> e\<lparr>us := u, gs := g\<rparr>) \<and>
    modifyMtimeInTree t p m = Inr t3 \<and> wf_tree t3 \<and> tree_entries t3 = (tree_entries t)(p \<mapsto> e\<lparr>mt := m\<rparr>)"
  using modifyPermissionsInTree_entries [OF assms, of x] modifyOwnerInTree_entries [OF assms, of u g]
    modifyMtimeInTree_entries [OF assms, of m] by blast

theorem properties_change_one_entry_witness:
  "\<exists>t1 t2 t3. modifyPermissionsInTree sampleTree ''z'' 0 = Inr t1 \<and>
    modifyOwnerInTree sampleTree ''z'' ''a'' ''b'' = Inr t2 \<and> modifyMtimeInTree sampleTree ''z'' 7 = Inr t3"
proof -
  have "tree_entries sampleTree ''z'' = Some (fileElem ''z'' [])" by code_simp
  from properties_change_one_entry [OF wf_sampleTree this, of 0 "''a''" "''b''" 7] show ?thesis by blast
qed

text \<open>
  C28: removing a path that a well-formed tree does not have throws the exception
  that names the path and the caller.
\<close>

theorem remove_missing_path:
  assumes "wf_tree t" and "tree_entries t p = None"
  shows "removeFromTree t p = Inl (Runtime_error
    (''DirectoryTree::searchNode could not find the path '' @ p @ ''. Called from removeFromTree''))"
  by (rule removeFromTree_missing [OF assms])

theorem remove_missing_path_witness:
  "removeFromTree sampleTree ''q'' = Inl (Runtime_error
    (''DirectoryTree::searchNode could not find the path '' @ ''q'' @ ''. Called from removeFromTree''))"
proof -
  have "tree_entries sampleTree ''q'' = None" by code_simp
  from remove_missing_path [OF wf_sampleTree this] show ?thesis .
qed




section \<open>Metadata on disk\<close>

text \<open>
  C9: in a system without failures, a tree that is written to an existing metadata
  file is read back from it with the same entries, up to what a line does not store, and no other
  file changes.
\<close>

theorem metadata_saved:
  assumes "faults w = []" and "file_at w True p = Some (k, i)" and "i_data i = Regular s"
    and "wf_tree t" and "\<And>n. n \<in> tree_nodes t \<Longrightarrow> file_ok (elem n)"
  shows "\<exists>w' t'. writeTo t p w = (Inr (), w') \<and> (\<forall>k'. k' \<noteq> k \<longrightarrow> lookup w' k' = lookup w k') \<and>
    readFrom t0 p w' = (Inr t', w') \<and> wf_tree t' \<and> tree_entries t' = map_option stored \<circ> tree_entries t"
  by (rule writeTo_readFrom [OF assms])

theorem metadata_saved_witness:
  "\<exists>w' t'. writeTo listing ''/s/z'' (smallWorld\<lparr>faults := []\<rparr>) = (Inr (), w') \<and>
    readFrom emptyTree ''/s/z'' w' = (Inr t', w') \<and> wf_tree t' \<and> tree_entries t' ''z'' \<noteq> None"
proof -
  have "file_ok (elem n)" if "n \<in> tree_nodes listing" for n
    using tree_entries_node [OF listing_facts(1) that] listing_facts(2,3) by (auto split: if_splits)
  then obtain w' t' where "writeTo listing ''/s/z'' (smallWorld\<lparr>faults := []\<rparr>) = (Inr (), w')"
    "readFrom emptyTree ''/s/z'' w' = (Inr t', w')" "wf_tree t'"
    "tree_entries t' = map_option stored \<circ> tree_entries listing"
    using metadata_saved [where ?t0.0 = emptyTree, OF _ sample_file_at _ listing_facts(1), of "[]" "''abc''"]
    by (auto simp: node_def)
  then show ?thesis by (auto simp: listing_facts(2))
qed

section \<open>Weaknesses\<close>




text \<open>
  C33: in general, a symbolic link added to a well-formed tree cannot be
  found in it.
\<close>

theorem added_symlink_not_found:
  assumes "wf_tree t" and "tree_entries t (rp lnk) = None" and "addSymlinkToTree t lnk = Inr t'"
  shows "search t' (rp lnk) = Inr None"
proof -
  have "index t' = index t"
    using assms(3) by (auto simp: addSymlinkToTree_def Let_def assign_def bindE_Inr_iff split: if_splits prod.splits)
  then show ?thesis using index_None_iff [OF assms(1), of "rp lnk"] assms(2) by (simp add: search_def)
qed

theorem added_symlink_not_found_witness:
  "\<exists>t'. addSymlinkToTree sampleTree (linkElem ''d/l'' ''x'') = Inr t' \<and> search t' ''d/l'' = Inr None"
proof -
  have n: "tree_entries sampleTree (rp (linkElem ''d/l'' ''x'')) = None"
    and "case addSymlinkToTree sampleTree (linkElem ''d/l'' ''x'') of Inl _ \<Rightarrow> False | Inr _ \<Rightarrow> True" by code_simp+
  then obtain t' where t': "addSymlinkToTree sampleTree (linkElem ''d/l'' ''x'') = Inr t'" by (auto split: sum.splits)
  from added_symlink_not_found [OF wf_sampleTree n this] t' show ?thesis by (auto simp: linkElem_def)
qed


text \<open>
  C36: when a metadata file is opened for writing but the write fails, the
  old content is gone, the new one is missing, and no exception is thrown.
\<close>

theorem write_failure_unnoticed:
  assumes "file_at w True p = Some (k, i)" and "i_data i = Regular s" and "faults w = [False, True]"
  shows "\<exists>w'. writeTo t p w = (Inr (), w') \<and> map_option i_data (lookup w' k) = Some (Regular [])"
  using writeTo_existing [OF assms(1,2), of True t] assms(3) by auto

theorem write_failure_unnoticed_witness:
  "\<exists>w'. writeTo listing ''/s/z'' (smallWorld\<lparr>faults := [False, True]\<rparr>) = (Inr (), w') \<and>
    map_option i_data (lookup w' [''s'', ''z'']) = Some (Regular [])"
  by (rule write_failure_unnoticed [OF sample_file_at]) (simp_all add: node_def)



end
